(* ===== verification/Prelude.thy ===== *)
theory Prelude
  imports Complex_Main "HOL-Library.Word" "HOL-Library.Monad_Syntax" "HOL-Library.AList"
    "HOL-Library.List_Lexorder" "HOL-Library.Char_ord" "HOL-Library.Product_Lexorder"
begin

text \<open>
  What every component of the netchaos model shares: the names of the Go types the code uses
  (byte strings, \<open>uint64\<close>, \<open>time.Time\<close>, \<open>time.Duration\<close>, \<open>float64\<close>), the arithmetic of
  those types, the collections of simplification rules, and two interfaces that recur through
  the code: the "close and replace" notification channel and the invariant of a step system.
\<close>

unbundle bit_operations_syntax

section \<open>Collections of rules\<close>

named_theorems frame_simps \<open>fields an operation leaves alone\<close>
named_theorems inv_intros \<open>operations preserve the invariant of their component\<close>

section \<open>Go's integer types\<close>

type_synonym u8 = "8 word"
type_synonym u32 = "32 word"
type_synonym u64 = "64 word"
type_synonym bytes = "u8 list"

text \<open>
  \<open>time.Duration\<close> is an \<open>int64\<close> count of nanoseconds. It is kept as an \<open>int\<close>, and \<open>i64\<close>
  writes out the conversion (the wrap-around) where the code computes in 64 bits.
  A \<open>time.Time\<close> is a number of nanoseconds since the zero \<open>time.Time\<close>, so \<open>IsZero\<close> is
  \<open>t = 0\<close> and the clock never reads a negative instant. The instants themselves do not wrap:
  Go's representation covers some 292 billion years, while \<open>Time.Sub\<close> saturates at the
  largest duration (292 years), which \<open>time_sub\<close> writes out.
\<close>

type_synonym duration = int
type_synonym time = int

definition i64 :: "int \<Rightarrow> int" where
  "i64 x = signed_take_bit 63 x"

definition maxDuration :: duration where
  "maxDuration = 2 ^ 63 - 1"

definition minDuration :: duration where
  "minDuration = - (2 ^ 63)"

definition time_add :: "time \<Rightarrow> duration \<Rightarrow> time" where
  "time_add t d = t + d"

definition time_sub :: "time \<Rightarrow> time \<Rightarrow> duration" where
  "time_sub t u = max minDuration (min maxDuration (t - u))"

lemma i64_id: "minDuration \<le> x \<Longrightarrow> x \<le> maxDuration \<Longrightarrow> i64 x = x"
  unfolding i64_def minDuration_def maxDuration_def
  by (rule signed_take_bit_int_eq_self) auto

lemma i64_nonneg: "0 \<le> x \<Longrightarrow> x \<le> maxDuration \<Longrightarrow> i64 x = x"
  by (rule i64_id) (simp_all add: minDuration_def)

lemma time_sub_exact:
  "minDuration \<le> t - u \<Longrightarrow> t - u \<le> maxDuration \<Longrightarrow> time_sub t u = t - u"
  by (simp add: time_sub_def)

lemma time_sub_le: "u \<le> t \<Longrightarrow> time_sub t u \<le> t - u"
  by (simp add: time_sub_def minDuration_def)

lemma time_sub_nonneg_iff: "0 \<le> time_sub t u \<longleftrightarrow> u \<le> t"
  by (auto simp: time_sub_def minDuration_def maxDuration_def max_def min_def)

lemma time_sub_self [simp]: "time_sub t t = 0"
  by (simp add: time_sub_def minDuration_def maxDuration_def)

section \<open>Go's float64, for rates\<close>

text \<open>
  The rates are the only floating-point values. A finite \<open>float64\<close> is a rational number, and
  the code only compares rates and divides a 53-bit integer by \<open>2^53\<close>, both exact in IEEE
  arithmetic, so the model needs the value and the three special values, with the IEEE
  comparisons (every comparison with NaN is false). The two zeros compare equal and are one
  value here.
\<close>

datatype float64 = NaN | PosInf | NegInf | Finite rat

fun flt :: "float64 \<Rightarrow> float64 \<Rightarrow> bool" where
  "flt NaN y = False"
| "flt x NaN = False"
| "flt PosInf y = False"
| "flt x NegInf = False"
| "flt NegInf y = True"
| "flt x PosInf = True"
| "flt (Finite a) (Finite b) = (a < b)"

fun fle :: "float64 \<Rightarrow> float64 \<Rightarrow> bool" where
  "fle NaN y = False"
| "fle x NaN = False"
| "fle x y = (\<not> flt y x)"

section \<open>Decimal numbers\<close>

text \<open>\<open>strconv.Itoa\<close> and \<open>fmt\<close>'s \<open>%d\<close> on a number that is not negative.\<close>

definition digit :: "nat \<Rightarrow> char" where
  "digit d = char_of (48 + d)"

fun itoa :: "nat \<Rightarrow> string" where
  "itoa n = (if n < 10 then [digit n] else itoa (n div 10) @ [digit (n mod 10)])"

declare itoa.simps [simp del]

definition is_digit :: "char \<Rightarrow> bool" where
  "is_digit c \<longleftrightarrow> 48 \<le> (of_char c :: nat) \<and> (of_char c :: nat) \<le> 57"

definition digit_val :: "char \<Rightarrow> nat" where
  "digit_val c = of_char c - 48"

definition dec_value :: "string \<Rightarrow> nat" where
  "dec_value s = foldl (\<lambda>acc c. 10 * acc + digit_val c) 0 s"

lemma of_char_digit: "d < 10 \<Longrightarrow> of_char (digit d) = 48 + d"
  by (simp add: digit_def)

lemma digit_val_digit: "d < 10 \<Longrightarrow> digit_val (digit d) = d"
  by (simp add: digit_val_def of_char_digit)

lemma is_digit_digit: "d < 10 \<Longrightarrow> is_digit (digit d)"
  by (simp add: is_digit_def of_char_digit)

lemma itoa_digits: "\<forall>c \<in> set (itoa n). is_digit c"
proof (induction n rule: itoa.induct)
  case (1 n)
  then show ?case
    by (cases "n < 10") (auto simp: itoa.simps [of n] is_digit_digit)
qed

lemma itoa_nonempty: "itoa n \<noteq> []"
  by (subst itoa.simps) simp

lemma dec_value_itoa: "dec_value (itoa n) = n"
proof (induction n rule: itoa.induct)
  case (1 n)
  show ?case
  proof (cases "n < 10")
    case True
    then show ?thesis by (simp add: itoa.simps [of n] dec_value_def digit_val_digit)
  next
    case False
    with 1 have "dec_value (itoa (n div 10)) = n div 10" by simp
    with False show ?thesis
      by (simp add: itoa.simps [of n] dec_value_def digit_val_digit)
  qed
qed

lemma itoa_inj: "itoa m = itoa n \<longleftrightarrow> m = n"
  by (metis dec_value_itoa)

section \<open>The close-and-replace channel\<close>

text \<open>
  Three parts of the code announce a state change the same way: they close the current
  channel and put a new one in its place (\<open>pipe.broadcastLocked\<close>, \<open>deadline.bumpLocked\<close>,
  \<open>Network.bumpPartNotifyLocked\<close>). The model numbers the channels: the current channel is the
  generation counter, and a channel taken at generation \<open>g\<close> is closed once the counter has
  passed \<open>g\<close>.
\<close>

definition chan_closed :: "nat \<Rightarrow> nat \<Rightarrow> bool" where
  "chan_closed g current \<longleftrightarrow> g < current"

locale gen_channel =
  fixes gen :: "'s \<Rightarrow> nat"
    and bump :: "'s \<Rightarrow> 's"
  assumes gen_bump: "gen (bump s) = Suc (gen s)"
begin

lemma bump_wakes: "chan_closed (gen s) (gen (bump s))"
  by (simp add: chan_closed_def gen_bump)

lemma current_open: "\<not> chan_closed (gen s) (gen s)"
  by (simp add: chan_closed_def)

lemma stays_closed: "chan_closed g (gen s) \<Longrightarrow> chan_closed g (gen (bump s))"
  by (simp add: chan_closed_def gen_bump)

end

section \<open>Invariants of step systems\<close>

inductive reach :: "('s \<Rightarrow> bool) \<Rightarrow> ('s \<Rightarrow> 's \<Rightarrow> bool) \<Rightarrow> 's \<Rightarrow> bool"
  for init :: "'s \<Rightarrow> bool" and trans :: "'s \<Rightarrow> 's \<Rightarrow> bool" where
  reach_init: "init s \<Longrightarrow> reach init trans s"
| reach_step: "reach init trans s \<Longrightarrow> trans s t \<Longrightarrow> reach init trans t"

locale invariant_system =
  fixes init :: "'s \<Rightarrow> bool"
    and trans :: "'s \<Rightarrow> 's \<Rightarrow> bool"
    and inv :: "'s \<Rightarrow> bool"
  assumes inv_init: "init s \<Longrightarrow> inv s"
    and inv_step: "inv s \<Longrightarrow> trans s t \<Longrightarrow> inv t"
begin

lemma reach_inv: "reach init trans s \<Longrightarrow> inv s"
  by (induction rule: reach.induct) (auto intro: inv_init inv_step)

end

section \<open>Lists and bytes\<close>

definition total_len :: "bytes list \<Rightarrow> int" where
  "total_len q = int (length (concat q))"

lemma total_len_simps [simp]:
  "total_len [] = 0"
  "total_len (d # q) = int (length d) + total_len q"
  "total_len (q @ r) = total_len q + total_len r"
  by (simp_all add: total_len_def)

lemma total_len_nonneg [simp]: "0 \<le> total_len q"
  by (simp add: total_len_def)

lemma sorted_append_last:
  "sorted xs \<Longrightarrow> (xs \<noteq> [] \<Longrightarrow> last xs \<le> y) \<Longrightarrow> sorted (xs @ [y :: 'a :: linorder])"
  by (cases xs rule: rev_cases) (auto simp: sorted_append)

section \<open>Runs\<close>

text \<open>
  Running a list of labels one after the other; \<open>None\<close> when a step does not return. \<open>collect\<close>
  gathers, along the run, what \<open>f\<close> reads off each label in the state it is taken in.
\<close>

fun run_steps :: "('l \<Rightarrow> 's \<Rightarrow> 's option) \<Rightarrow> 'l list \<Rightarrow> 's \<Rightarrow> 's option" where
  "run_steps step [] s = Some s"
| "run_steps step (l # ls) s =
     (case step l s of None \<Rightarrow> None | Some t \<Rightarrow> run_steps step ls t)"

fun collect ::
  "('l \<Rightarrow> 's \<Rightarrow> 's option) \<Rightarrow> ('l \<Rightarrow> 's \<Rightarrow> 'b list) \<Rightarrow> 'l list \<Rightarrow> 's \<Rightarrow> 'b list" where
  "collect step f [] s = []"
| "collect step f (l # ls) s =
     f l s @ (case step l s of None \<Rightarrow> [] | Some t \<Rightarrow> collect step f ls t)"

lemma run_steps_append:
  "run_steps step (ls @ ms) s = (case run_steps step ls s of None \<Rightarrow> None | Some t \<Rightarrow> run_steps step ms t)"
  by (induction ls arbitrary: s) (auto split: option.splits)

lemma collect_append:
  "run_steps step ls s = Some t \<Longrightarrow> collect step f (ls @ ms) s = collect step f ls s @ collect step f ms t"
  by (induction ls arbitrary: s) (auto split: option.splits)

lemma run_steps_inv:
  "run_steps step ls s = Some t \<Longrightarrow> P s \<Longrightarrow>
     (\<And>l u v. l \<in> set ls \<Longrightarrow> P u \<Longrightarrow> step l u = Some v \<Longrightarrow> P v) \<Longrightarrow> P t"
proof (induction ls arbitrary: s)
  case Nil
  then show ?case by simp
next
  case (Cons l ls)
  then obtain u where u: "step l s = Some u" "run_steps step ls u = Some t"
    by (auto split: option.splits)
  from Cons.prems(3) [OF _ Cons.prems(2) u(1)] have "P u" by simp
  from Cons.IH [OF u(2) this] Cons.prems(3) show ?case by auto
qed

text \<open>
  A waiter that found itself blocked and took the channel at that moment misses no wakeup: as
  long as the channel is not replaced it stays blocked.
\<close>

locale wait_channel = gen_channel gen bump
  for gen :: "'s \<Rightarrow> nat" and bump :: "'s \<Rightarrow> 's" +
  fixes step :: "'l \<Rightarrow> 's \<Rightarrow> 's option"
    and blocked :: "'w \<Rightarrow> 's \<Rightarrow> bool"
  assumes gen_step: "step l s = Some t \<Longrightarrow> gen s \<le> gen t"
    and blocked_step: "step l s = Some t \<Longrightarrow> gen t = gen s \<Longrightarrow> blocked w s \<Longrightarrow> blocked w t"
begin

lemma gen_run: "run_steps step ls s = Some t \<Longrightarrow> gen s \<le> gen t"
  by (induction ls arbitrary: s) (auto split: option.splits dest!: gen_step intro: order_trans)

lemma no_lost_wakeup:
  "run_steps step ls s = Some t \<Longrightarrow> blocked w s \<Longrightarrow> \<not> blocked w t \<Longrightarrow> chan_closed (gen s) (gen t)"
proof (induction ls arbitrary: s)
  case Nil
  then show ?case by simp
next
  case (Cons l ls)
  then obtain u where u: "step l s = Some u" "run_steps step ls u = Some t"
    by (auto split: option.splits)
  show ?case
  proof (cases "gen u = gen s")
    case True
    with Cons.IH [OF u(2) blocked_step [OF u(1) True Cons.prems(2)] Cons.prems(3)]
    show ?thesis by simp
  next
    case False
    with gen_step [OF u(1)] gen_run [OF u(2)] show ?thesis by (simp add: chan_closed_def)
  qed
qed

end

text \<open>
  The contract of a first-in-first-out medium: in a good state a step adds \<open>ins\<close> at the back
  of the contents and takes \<open>outs\<close> from the front. Over a run, what went in is what came out
  followed by what is still inside.
\<close>

locale fifo_system =
  fixes step :: "'l \<Rightarrow> 's \<Rightarrow> 's option"
    and good :: "'l list \<Rightarrow> 's \<Rightarrow> bool"
    and contents :: "'s \<Rightarrow> 'b list"
    and ins :: "'l \<Rightarrow> 's \<Rightarrow> 'b list"
    and outs :: "'l \<Rightarrow> 's \<Rightarrow> 'b list"
  assumes good_step: "good (l # ls) s \<Longrightarrow> step l s = Some t \<Longrightarrow> good ls t"
    and fifo_step: "good (l # ls) s \<Longrightarrow> step l s = Some t \<Longrightarrow>
      contents s @ ins l s = outs l s @ contents t"
begin

lemma run_fifo:
  "good ls s \<Longrightarrow> run_steps step ls s = Some t \<Longrightarrow>
     contents s @ collect step ins ls s = collect step outs ls s @ contents t"
proof (induction ls arbitrary: s)
  case Nil
  then show ?case by simp
next
  case (Cons l ls)
  then obtain u where u: "step l s = Some u" "run_steps step ls u = Some t"
    by (auto split: option.splits)
  from Cons.IH [OF good_step [OF Cons.prems(1) u(1)] u(2)]
    fifo_step [OF Cons.prems(1) u(1)] u(1)
  show ?case by (simp del: append_assoc add: append_assoc [symmetric]) (metis append_assoc)
qed

end

text \<open>
  A functional refinement along runs: the abstract machine takes the concrete step's abstract
  inputs, and the abstraction of the final state is where the abstract machine ends.
\<close>

locale run_refinement =
  fixes step :: "'l \<Rightarrow> 's \<Rightarrow> 's option"
    and astep :: "'i \<Rightarrow> 'a \<Rightarrow> 'a option"
    and abst :: "'s \<Rightarrow> 'a"
    and inputs :: "'l \<Rightarrow> 's \<Rightarrow> 'i list"
  assumes step_refines: "step l s = Some t \<Longrightarrow> run_steps astep (inputs l s) (abst s) = Some (abst t)"
begin

lemma run_refines:
  "run_steps step ls s = Some t \<Longrightarrow>
     run_steps astep (collect step inputs ls s) (abst s) = Some (abst t)"
proof (induction ls arbitrary: s)
  case Nil
  then show ?case by simp
next
  case (Cons l ls)
  then obtain u where u: "step l s = Some u" "run_steps step ls u = Some t"
    by (auto split: option.splits)
  with Cons.IH [OF u(2)] step_refines [OF u(1)] show ?case
    by (simp add: run_steps_append)
qed

lemma run_deterministic:
  assumes "run_steps step ls s = Some t" "run_steps step ls' s' = Some t'"
    and "abst s = abst s'" "collect step inputs ls s = collect step inputs ls' s'"
  shows "abst t = abst t'"
  using run_refines [OF assms(1)] run_refines [OF assms(2)] assms(3,4) by simp

end

end
