(* ===== verification/GoNet.thy ===== *)
theory GoNet
  imports Prelude
begin

text \<open>
  What the code uses of \<open>net/netip\<close>, \<open>net\<close> and \<open>strconv\<close>: the parser and the printer of
  literal IP addresses, \<open>net.SplitHostPort\<close>, \<open>net.JoinHostPort\<close>, \<open>strconv.Atoi\<close> and
  \<open>net.IP.Equal\<close>. Nothing here consults DNS, which the code relies on. Parse errors carry no
  information the code looks at, so they are \<open>None\<close>.
\<close>

section \<open>Addresses\<close>

text \<open>
  A \<open>netip.Addr\<close>: four bytes, or sixteen bytes with a zone (empty when there is none). A
  \<open>net.IP\<close> is the bytes alone.
\<close>

datatype netip = Addr4 bytes | Addr6 bytes string

type_synonym netIP = bytes

fun Is4 :: "netip \<Rightarrow> bool" where
  "Is4 (Addr4 b) = True"
| "Is4 (Addr6 b z) = False"

fun Is6 :: "netip \<Rightarrow> bool" where
  "Is6 (Addr4 b) = False"
| "Is6 (Addr6 b z) = True"

fun AsSlice :: "netip \<Rightarrow> netIP" where
  "AsSlice (Addr4 b) = b"
| "AsSlice (Addr6 b z) = b"

definition v4_in_v6_prefix :: bytes where
  "v4_in_v6_prefix = replicate 10 0 @ [255, 255]"

fun Unmap :: "netip \<Rightarrow> netip" where
  "Unmap (Addr4 b) = Addr4 b"
| "Unmap (Addr6 b z) = (if take 12 b = v4_in_v6_prefix then Addr4 (drop 12 b) else Addr6 b z)"

text \<open>\<open>net.IP.Equal\<close>: an IPv4 address and its IPv4-mapped IPv6 form are equal.\<close>

definition IP_Equal :: "netIP \<Rightarrow> netIP \<Rightarrow> bool" where
  "IP_Equal x y \<longleftrightarrow>
     (if length x = length y then x = y
      else if length x = 4 \<and> length y = 16 then take 12 y = v4_in_v6_prefix \<and> drop 12 y = x
      else if length x = 16 \<and> length y = 4 then take 12 x = v4_in_v6_prefix \<and> drop 12 x = y
      else False)"

section \<open>Parsing a literal address\<close>

text \<open>
  The four decimal fields of an IPv4 address, left to right: \<open>prevDot\<close> holds at the start and
  after a dot, \<open>val\<close> and \<open>digLen\<close> are the field being read, \<open>acc\<close> the fields read so far.
\<close>

fun parseIPv4Fields :: "string \<Rightarrow> bool \<Rightarrow> nat \<Rightarrow> nat \<Rightarrow> nat list \<Rightarrow> nat list option" where
  "parseIPv4Fields [] prevDot val digLen acc =
     (if length acc < 3 then None else Some (acc @ [val]))"
| "parseIPv4Fields (c # s) prevDot val digLen acc =
     (if is_digit c then
        if digLen = 1 \<and> val = 0 then None
        else let v = val * 10 + digit_val c
             in if 255 < v then None else parseIPv4Fields s False v (digLen + 1) acc
      else if c = CHR ''.'' then
        if prevDot \<or> s = [] then None
        else if length acc = 3 then None
        else parseIPv4Fields s True 0 0 (acc @ [val])
      else None)"

definition parseIPv4 :: "string \<Rightarrow> netip option" where
  "parseIPv4 s = map_option (\<lambda>fs. Addr4 (map word_of_nat fs)) (parseIPv4Fields s True 0 0 [])"

definition hex_val :: "char \<Rightarrow> nat option" where
  "hex_val c =
     (let n = of_char c :: nat
      in if 48 \<le> n \<and> n \<le> 57 then Some (n - 48)
         else if 97 \<le> n \<and> n \<le> 102 then Some (n - 87)
         else if 65 \<le> n \<and> n \<le> 70 then Some (n - 55)
         else None)"

fun hex_group :: "string \<Rightarrow> nat \<Rightarrow> nat \<Rightarrow> (nat \<times> nat \<times> string) option" where
  "hex_group [] off acc = Some (acc, off, [])"
| "hex_group (c # s) off acc =
     (case hex_val c of
        None \<Rightarrow> Some (acc, off, c # s)
      | Some v \<Rightarrow>
          let a = acc * 16 + v
          in if 3 < off then None else if 65535 < a then None else hex_group s (off + 1) a)"

text \<open>
  The loop over the groups of an IPv6 address. The first argument counts the groups there is
  still room for, \<open>acc\<close> is the bytes written so far and \<open>ell\<close> the position of the ellipsis.
\<close>

fun parseIPv6Loop ::
  "nat \<Rightarrow> nat option \<Rightarrow> string \<Rightarrow> bytes \<Rightarrow> (bytes \<times> nat option \<times> string) option" where
  "parseIPv6Loop 0 ell s acc = Some (acc, ell, s)"
| "parseIPv6Loop (Suc g) ell s acc =
     (case hex_group s 0 0 of
        None \<Rightarrow> None
      | Some (a, off, r) \<Rightarrow>
          if off = 0 then None
          else if r \<noteq> [] \<and> hd r = CHR ''.'' then
            if ell = None \<and> length acc \<noteq> 12 then None
            else if 16 < length acc + 4 then None
            else map_option (\<lambda>fs. (acc @ map word_of_nat fs, ell, [])) (parseIPv4Fields s True 0 0 [])
          else
            let acc' = acc @ [word_of_nat (a div 256), word_of_nat (a mod 256)]
            in if r = [] then Some (acc', ell, [])
               else if hd r \<noteq> CHR '':'' then None
               else if tl r = [] then None
               else if hd (tl r) = CHR '':'' then
                 if ell \<noteq> None then None
                 else if tl (tl r) = [] then Some (acc', Some (length acc'), [])
                 else parseIPv6Loop g (Some (length acc')) (tl (tl r)) acc'
               else parseIPv6Loop g ell (tl r) acc')"

definition expand_ellipsis :: "bytes \<Rightarrow> nat \<Rightarrow> bytes" where
  "expand_ellipsis acc e = take e acc @ replicate (16 - length acc) 0 @ drop e acc"

definition parseIPv6 :: "string \<Rightarrow> netip option" where
  "parseIPv6 inp =
     (let s = takeWhile (\<lambda>c. c \<noteq> CHR ''%'') inp;
          hasZone = CHR ''%'' \<in> set inp;
          zone = tl (dropWhile (\<lambda>c. c \<noteq> CHR ''%'') inp)
      in if hasZone \<and> zone = [] then None
         else
           let z = (if hasZone then zone else []);
               leading = take 2 s = '':'' @ '':'';
               s1 = (if leading then drop 2 s else s);
               ell = (if leading then Some 0 else None)
           in if leading \<and> s1 = [] then Some (Addr6 (replicate 16 0) z)
              else case parseIPv6Loop 8 ell s1 [] of
                None \<Rightarrow> None
              | Some (acc, e, rest) \<Rightarrow>
                  if rest \<noteq> [] then None
                  else if length acc < 16 then
                    map_option (\<lambda>k. Addr6 (expand_ellipsis acc k) z) e
                  else if e \<noteq> None then None
                  else Some (Addr6 acc z))"

text \<open>\<open>netip.ParseAddr\<close>: the first dot, colon or percent sign decides.\<close>

fun first_separator :: "string \<Rightarrow> char option" where
  "first_separator [] = None"
| "first_separator (c # s) =
     (if c = CHR ''.'' \<or> c = CHR '':'' \<or> c = CHR ''%'' then Some c else first_separator s)"

definition ParseAddr :: "string \<Rightarrow> netip option" where
  "ParseAddr s =
     (case first_separator s of
        None \<Rightarrow> None
      | Some c \<Rightarrow> if c = CHR ''.'' then parseIPv4 s
                  else if c = CHR '':'' then parseIPv6 s
                  else None)"

section \<open>Printing an address\<close>

fun join :: "string \<Rightarrow> string list \<Rightarrow> string" where
  "join sep [] = []"
| "join sep [x] = x"
| "join sep (x # y # xs) = x @ sep @ join sep (y # xs)"

definition hex_digit :: "nat \<Rightarrow> char" where
  "hex_digit d = (if d < 10 then char_of (48 + d) else char_of (87 + d))"

fun hex_string :: "nat \<Rightarrow> string" where
  "hex_string n = (if n < 16 then [hex_digit n] else hex_string (n div 16) @ [hex_digit (n mod 16)])"

declare hex_string.simps [simp del]

fun v6_groups :: "bytes \<Rightarrow> nat list" where
  "v6_groups (a # b # bs) = (256 * unat a + unat b) # v6_groups bs"
| "v6_groups bs = []"

text \<open>
  The first longest run of at least two zero groups, as its start and end; the initial pair
  is the source's \<open>(255, 255)\<close>, an empty run outside the address.
\<close>

definition zero_end :: "nat list \<Rightarrow> nat \<Rightarrow> nat" where
  "zero_end ws i = i + length (takeWhile (\<lambda>w. w = 0) (drop i ws))"

definition zero_run :: "nat list \<Rightarrow> nat \<times> nat" where
  "zero_run ws =
     foldl (\<lambda>(zs, ze) i.
        let j = zero_end ws i
        in if 2 \<le> j - i \<and> ze - zs < j - i then (i, j) else (zs, ze)) (255, 255) [0..<8]"

definition string_of_v6 :: "bytes \<Rightarrow> string \<Rightarrow> string" where
  "string_of_v6 b z =
     (let ws = v6_groups b; (zs, ze) = zero_run ws; hs = map hex_string ws
      in (if zs = 255 then join '':'' hs
          else join '':'' (take zs hs) @ '':'' @ '':'' @ join '':'' (drop ze hs))
         @ (if z = [] then [] else ''%'' @ z))"

definition string_of_v4 :: "bytes \<Rightarrow> string" where
  "string_of_v4 b = join ''.'' (map (\<lambda>w. itoa (unat w)) b)"

fun Addr_String :: "netip \<Rightarrow> string" where
  "Addr_String (Addr4 b) = string_of_v4 b"
| "Addr_String (Addr6 b z) =
     (if take 12 b = v4_in_v6_prefix
      then ''::ffff:'' @ string_of_v4 (drop 12 b) @ (if z = [] then [] else ''%'' @ z)
      else string_of_v6 b z)"

text \<open>\<open>net.IP.String\<close> on the 4-byte and 16-byte slices the code builds.\<close>

definition IP_String :: "netIP \<Rightarrow> string" where
  "IP_String ip =
     (if length ip = 4 then string_of_v4 ip
      else Addr_String (Unmap (Addr6 ip [])))"

section \<open>Host and port\<close>

definition index_of :: "char \<Rightarrow> string \<Rightarrow> nat option" where
  "index_of c s = (if c \<in> set s then Some (length (takeWhile (\<lambda>d. d \<noteq> c) s)) else None)"

definition last_index_of :: "char \<Rightarrow> string \<Rightarrow> nat option" where
  "last_index_of c s = map_option (\<lambda>k. length s - 1 - k) (index_of c (rev s))"

definition SplitHostPort :: "string \<Rightarrow> (string \<times> string) option" where
  "SplitHostPort hostport =
     do { i \<leftarrow> last_index_of (CHR '':'') hostport;
          (host, j, k) \<leftarrow>
            (if hd hostport = CHR ''['' then
               do { end \<leftarrow> index_of (CHR '']'') hostport;
                    if end + 1 = i then Some (take (end - 1) (drop 1 hostport), 1, end + 1) else None }
             else
               if CHR '':'' \<in> set (take i hostport) then None
               else Some (take i hostport, 0, 0));
          if CHR ''['' \<in> set (drop j hostport) then None
          else if CHR '']'' \<in> set (drop k hostport) then None
          else Some (host, drop (i + 1) hostport) }"

definition JoinHostPort :: "string \<Rightarrow> string \<Rightarrow> string" where
  "JoinHostPort host port =
     (if CHR '':'' \<in> set host then ''['' @ host @ '']:'' @ port else host @ '':'' @ port)"

text \<open>
  \<open>strconv.Atoi\<close>: an optional sign and at least one decimal digit. A value that does not fit in
  an \<open>int\<close> is an error in Go and a number out of every port range here; the one caller
  rejects both.
\<close>

definition Atoi :: "string \<Rightarrow> int option" where
  "Atoi s =
     (let signed = s \<noteq> [] \<and> (hd s = CHR ''-'' \<or> hd s = CHR ''+'');
          ds = (if signed then tl s else s)
      in if ds = [] \<or> \<not> list_all is_digit ds then None
         else Some (if signed \<and> hd s = CHR ''-'' then - int (dec_value ds) else int (dec_value ds)))"


section \<open>An IPv4 address survives printing and parsing\<close>

lemma itoa_small:
  fixes n :: nat
  shows
  "n < 10 \<Longrightarrow> itoa n = [digit n]"
  "10 \<le> n \<Longrightarrow> n < 100 \<Longrightarrow> itoa n = [digit (n div 10), digit (n mod 10)]"
  "100 \<le> n \<Longrightarrow> n < 1000 \<Longrightarrow> itoa n = [digit (n div 10 div 10), digit (n div 10 mod 10), digit (n mod 10)]"
proof -
  show "100 \<le> n \<Longrightarrow> n < 1000 \<Longrightarrow> itoa n = [digit (n div 10 div 10), digit (n div 10 mod 10), digit (n mod 10)]"
  proof -
    assume "100 \<le> n" "n < 1000"
    then have "\<not> n < 10" "\<not> n div 10 < 10" "n div 10 div 10 < 10" by linarith+
    then show ?thesis by (simp add: itoa.simps)
  qed
qed (simp_all add: itoa.simps)

lemma parseIPv4_field:
  assumes "n < 256"
  shows "\<exists>k. 0 < k \<and> parseIPv4Fields (itoa n @ s) pd 0 0 acc = parseIPv4Fields s False n k acc"
proof -
  consider "n < 10" | "10 \<le> n" "n < 100" | "100 \<le> n" "n < 1000" using assms by linarith
  then show ?thesis
  proof cases
    case 1
    then show ?thesis by (auto simp: itoa_small is_digit_digit digit_val_digit Let_def)
  next
    case 2
    then have "n div 10 \<noteq> 0" "n div 10 < 10" "n div 10 * 10 + n mod 10 = n" by simp_all
    with 2 assms show ?thesis by (auto simp: itoa_small is_digit_digit digit_val_digit Let_def)
  next
    case 3
    then have d: "n div 10 div 10 \<noteq> 0" "n div 10 div 10 < 10" "n div 10 \<noteq> 0" by linarith+
    have e: "n div 10 div 10 * 10 + n div 10 mod 10 = n div 10" "n div 10 * 10 + n mod 10 = n"
      by (rule div_mult_mod_eq)+
    have "n div 10 div 10 \<le> 255" "n div 10 \<le> 255" using assms by simp_all
    then show ?thesis
      using 3 assms d e
      by (auto simp: itoa_small is_digit_digit digit_val_digit Let_def)
  qed
qed

lemma dot_not_digit [simp]: "\<not> is_digit (CHR ''.'')"
  by (simp add: is_digit_def)

lemma parseIPv4_dot:
  "s \<noteq> [] \<Longrightarrow> length acc \<noteq> 3 \<Longrightarrow>
     parseIPv4Fields (CHR ''.'' # s) False v k acc = parseIPv4Fields s True 0 0 (acc @ [v])"
  by simp

lemma parseIPv4_quad:
  assumes "a < 256" "b < 256" "c < 256" "d < 256"
  shows "parseIPv4Fields (join ''.'' [itoa a, itoa b, itoa c, itoa d]) True 0 0 [] = Some [a, b, c, d]"
proof -
  have field: "parseIPv4Fields (itoa n @ CHR ''.'' # s) True 0 0 acc = parseIPv4Fields s True 0 0 (acc @ [n])"
    if "n < 256" "s \<noteq> []" "length acc \<noteq> 3" for n s acc
    using parseIPv4_field [OF that(1), of "CHR ''.'' # s" True acc] parseIPv4_dot [OF that(2,3)] by metis
  have last: "parseIPv4Fields (itoa n) True 0 0 acc = (if length acc < 3 then None else Some (acc @ [n]))"
    if "n < 256" for n acc
    using parseIPv4_field [OF that, of "[]" True acc] by auto
  show ?thesis using assms by (simp add: field last itoa_nonempty)
qed

lemma first_separator_digits:
  "\<forall>c \<in> set ds. is_digit c \<Longrightarrow> first_separator (ds @ s) = first_separator s"
  by (induction ds) (auto simp: is_digit_def)

lemma ParseAddr_v4:
  "ParseAddr (string_of_v4 [a, b, c, d]) = Some (Addr4 [a, b, c, d])"
proof -
  have "unat w < 256" for w :: u8 using unsigned_less [of w, where 'a = nat] by simp
  then have "parseIPv4Fields (string_of_v4 [a, b, c, d]) True 0 0 [] = Some [unat a, unat b, unat c, unat d]"
    using parseIPv4_quad by (simp add: string_of_v4_def)
  moreover have "first_separator (string_of_v4 [a, b, c, d]) = Some (CHR ''.'')"
    by (simp add: string_of_v4_def first_separator_digits itoa_digits)
  ultimately show ?thesis by (simp add: ParseAddr_def parseIPv4_def)
qed

lemma string_of_v4_inj:
  "string_of_v4 [a, b, c, d] = string_of_v4 [a', b', c', d'] \<longleftrightarrow> [a, b, c, d] = [a', b', c', d']"
  by (metis ParseAddr_v4 netip.inject(1) option.inject)

section \<open>Host and port survive joining and splitting\<close>

lemma digit_CHR:
  "digit 0 = CHR ''0''" "digit (Suc 0) = CHR ''1''" "digit 1 = CHR ''1''" "digit 2 = CHR ''2''" "digit 3 = CHR ''3''"
  "digit 4 = CHR ''4''" "digit 5 = CHR ''5''" "digit 6 = CHR ''6''" "digit 7 = CHR ''7''" "digit 8 = CHR ''8''"
  "digit 9 = CHR ''9''"
  by (code_simp)+

lemma last_index_of_colon:
  "c \<notin> set p \<Longrightarrow> last_index_of c (h @ c # p) = Some (length h)"
proof -
  assume "c \<notin> set p"
  then have "takeWhile (\<lambda>d. d \<noteq> c) (rev p @ c # rev h) = rev p"
    by (subst takeWhile_append2) auto
  then show ?thesis by (simp add: last_index_of_def index_of_def)
qed

lemma SplitHostPort_plain:
  assumes "set h \<inter> {CHR '':'', CHR ''['', CHR '']''} = {}" "set p \<inter> {CHR '':'', CHR ''['', CHR '']''} = {}"
  shows "SplitHostPort (h @ CHR '':'' # p) = Some (h, p)"
proof -
  have "hd (h @ CHR '':'' # p) \<noteq> CHR ''[''" using assms(1) by (cases h) auto
  with assms show ?thesis
    by (auto simp: SplitHostPort_def last_index_of_colon Let_def)
qed

lemma Atoi_itoa: "Atoi (itoa n) = Some (int n)"
proof -
  have "is_digit (hd (itoa n))" using itoa_digits [of n] itoa_nonempty [of n] by (cases "itoa n") auto
  then have "hd (itoa n) \<noteq> CHR ''-''" "hd (itoa n) \<noteq> CHR ''+''" by (auto simp: is_digit_def)
  with itoa_digits [of n] show ?thesis
    by (auto simp: Atoi_def Let_def itoa_nonempty dec_value_itoa list_all_iff)
qed

lemma parseIPv4Fields_colon: "CHR '':'' \<in> set s \<Longrightarrow> parseIPv4Fields s pd v k acc = None"
proof (induction s arbitrary: pd v k acc)
  case (Cons c s)
  have "\<not> is_digit (CHR '':'')" by (simp add: is_digit_def)
  with Cons show ?case by (cases "c = CHR '':''") (auto simp: Let_def)
qed simp

lemma is_digit_plain: "is_digit c \<Longrightarrow> c \<notin> {CHR '':'', CHR ''['', CHR '']'', CHR ''.'', CHR ''%''}"
  by (auto simp: is_digit_def)

lemma itoa_plain: "set (itoa n) \<inter> {CHR '':'', CHR ''['', CHR '']'', CHR ''.'', CHR ''%''} = {}"
  using itoa_digits [of n] is_digit_plain by blast

lemma string_of_v4_plain: "set (string_of_v4 [a, b, c, d]) \<inter> {CHR '':'', CHR ''['', CHR '']''} = {}"
proof -
  have "set (string_of_v4 [a, b, c, d])
      = set (itoa (unat a)) \<union> set (itoa (unat b)) \<union> set (itoa (unat c)) \<union> set (itoa (unat d)) \<union> {CHR ''.''}"
    by (auto simp: string_of_v4_def)
  with itoa_plain [of "unat a"] itoa_plain [of "unat b"] itoa_plain [of "unat c"] itoa_plain [of "unat d"]
  show ?thesis by auto
qed

lemma ParseAddr_v4_port: "ParseAddr (string_of_v4 [a, b, c, d] @ CHR '':'' # p) = None"
proof -
  have "first_separator (string_of_v4 [a, b, c, d] @ CHR '':'' # p) = Some (CHR ''.'')"
    by (simp add: string_of_v4_def first_separator_digits itoa_digits)
  then show ?thesis by (simp add: ParseAddr_def parseIPv4_def parseIPv4Fields_colon)
qed

section \<open>An IPv6 address survives printing and parsing\<close>

definition v6_bytes :: "nat list \<Rightarrow> bytes" where
  "v6_bytes gs = concat (map (\<lambda>g. [word_of_nat (g div 256), word_of_nat (g mod 256)]) gs)"

lemma v6_bytes_simps [simp]:
  "v6_bytes [] = []" "v6_bytes (g # gs) = word_of_nat (g div 256) # word_of_nat (g mod 256) # v6_bytes gs"
  "v6_bytes (gs @ hs) = v6_bytes gs @ v6_bytes hs"
  by (simp_all add: v6_bytes_def)

lemma length_v6_bytes [simp]: "length (v6_bytes gs) = 2 * length gs"
  by (induction gs) simp_all

lemma v6_bytes_groups: "even (length b) \<Longrightarrow> v6_bytes (v6_groups b) = b"
proof (induction b rule: v6_groups.induct)
  case (1 a c bs)
  have "unat a < 256" "unat c < 256"
    using unsigned_less [of a, where 'a = nat] unsigned_less [of c, where 'a = nat] by simp_all
  with 1 show ?case by simp
qed auto

lemma v6_groups_bound: "\<forall>g \<in> set (v6_groups b). g < 65536"
proof (induction b rule: v6_groups.induct)
  case (1 a c bs)
  have "unat a < 256" "unat c < 256"
    using unsigned_less [of a, where 'a = nat] unsigned_less [of c, where 'a = nat] by simp_all
  with 1 show ?case by simp
qed auto

lemma length_v6_groups: "length (v6_groups b) = length b div 2"
  by (induction b rule: v6_groups.induct) auto

lemma v6_bytes_zero: "\<forall>g \<in> set gs. g = 0 \<Longrightarrow> v6_bytes gs = replicate (2 * length gs) 0"
  by (induction gs) simp_all

lemma hex_val_digit: "d < 16 \<Longrightarrow> hex_val (hex_digit d) = Some d"
  by (auto simp: hex_val_def hex_digit_def Let_def)

lemma hex_string_small:
  fixes n :: nat
  shows
  "n < 16 \<Longrightarrow> hex_string n = [hex_digit n]"
  "16 \<le> n \<Longrightarrow> n < 256 \<Longrightarrow> hex_string n = [hex_digit (n div 16), hex_digit (n mod 16)]"
  "256 \<le> n \<Longrightarrow> n < 4096 \<Longrightarrow>
     hex_string n = [hex_digit (n div 16 div 16), hex_digit (n div 16 mod 16), hex_digit (n mod 16)]"
  "4096 \<le> n \<Longrightarrow> n < 65536 \<Longrightarrow>
     hex_string n = [hex_digit (n div 16 div 16 div 16), hex_digit (n div 16 div 16 mod 16),
       hex_digit (n div 16 mod 16), hex_digit (n mod 16)]"
proof -
  show "256 \<le> n \<Longrightarrow> n < 4096 \<Longrightarrow>
     hex_string n = [hex_digit (n div 16 div 16), hex_digit (n div 16 mod 16), hex_digit (n mod 16)]"
  proof -
    assume "256 \<le> n" "n < 4096"
    then have "\<not> n < 16" "\<not> n div 16 < 16" "n div 16 div 16 < 16" by linarith+
    then show ?thesis by (simp add: hex_string.simps)
  qed
  show "4096 \<le> n \<Longrightarrow> n < 65536 \<Longrightarrow>
     hex_string n = [hex_digit (n div 16 div 16 div 16), hex_digit (n div 16 div 16 mod 16),
       hex_digit (n div 16 mod 16), hex_digit (n mod 16)]"
  proof -
    assume "4096 \<le> n" "n < 65536"
    then have "\<not> n < 16" "\<not> n div 16 < 16" "\<not> n div 16 div 16 < 16" "n div 16 div 16 div 16 < 16" by linarith+
    then show ?thesis by (simp add: hex_string.simps)
  qed
qed (simp_all add: hex_string.simps)

lemma hex_group_stop: "r = [] \<or> hex_val (hd r) = None \<Longrightarrow> hex_group r off acc = Some (acc, off, r)"
  by (cases r) auto

lemma hex_group_string:
  assumes "n < 65536" "r = [] \<or> hex_val (hd r) = None"
  shows "\<exists>k. 0 < k \<and> hex_group (hex_string n @ r) 0 0 = Some (n, k, r)"
proof -
  have e: "n div 16 * 16 + n mod 16 = n" "n div 16 div 16 * 16 + n div 16 mod 16 = n div 16"
    "n div 16 div 16 div 16 * 16 + n div 16 div 16 mod 16 = n div 16 div 16"
    by (rule div_mult_mod_eq)+
  have m: "n mod 16 < 16" "n div 16 mod 16 < 16" "n div 16 div 16 mod 16 < 16" by simp_all
  consider "n < 16" | "16 \<le> n" "n < 256" | "256 \<le> n" "n < 4096" | "4096 \<le> n" "n < 65536"
    using assms by linarith
  then show ?thesis
  proof cases
    case 1
    then show ?thesis using assms(2) by (simp add: hex_string_small hex_val_digit hex_group_stop)
  next
    case 2
    then have "n div 16 < 16" by linarith
    with 2 e m show ?thesis using assms by (simp add: hex_string_small hex_val_digit hex_group_stop)
  next
    case 3
    then have "n div 16 div 16 < 16" "n div 16 \<le> 65535" by linarith+
    with 3 e m show ?thesis using assms by (simp add: hex_string_small hex_val_digit hex_group_stop)
  next
    case 4
    then have "n div 16 div 16 div 16 < 16" "n div 16 \<le> 65535" "n div 16 div 16 \<le> 65535" by linarith+
    with 4 e m show ?thesis using assms by (simp add: hex_string_small hex_val_digit hex_group_stop)
  qed
qed

lemma hex_val_stops [simp]: "hex_val (CHR '':'') = None" "hex_val (CHR ''.'') = None" "hex_val (CHR ''%'') = None"
  by (simp_all add: hex_val_def)

lemma hex_string_chars:
  assumes "n < 65536" "c \<in> set (hex_string n)"
  shows "hex_val c \<noteq> None"
proof -
  have "n div 16 mod 16 < 16" "n mod 16 < 16" "n div 16 div 16 mod 16 < 16" by simp_all
  consider "n < 16" | "16 \<le> n" "n < 256" | "256 \<le> n" "n < 4096" | "4096 \<le> n" "n < 65536"
    using assms by linarith
  then show ?thesis
  proof cases
    case 1
    then show ?thesis using assms(2) by (auto simp: hex_string_small hex_val_digit)
  next
    case 2
    then have "n div 16 < 16" by linarith
    with 2 assms(2) show ?thesis by (auto simp: hex_string_small hex_val_digit)
  next
    case 3
    then have "n div 16 div 16 < 16" by linarith
    with 3 assms(2) show ?thesis by (auto simp: hex_string_small hex_val_digit)
  next
    case 4
    then have "n div 16 div 16 div 16 < 16" by linarith
    with 4 assms(2) show ?thesis by (auto simp: hex_string_small hex_val_digit)
  qed
qed

lemma hex_string_nonempty [simp]: "hex_string n \<noteq> []"
  by (subst hex_string.simps) simp

text \<open>One group, and what may follow it.\<close>

lemma loop_last:
  assumes "n < 65536"
  shows "parseIPv6Loop (Suc g) ell (hex_string n) acc = Some (acc @ v6_bytes [n], ell, [])"
proof -
  obtain k where "0 < k" "hex_group (hex_string n) 0 0 = Some (n, k, [])"
    using hex_group_string [OF assms, of "[]"] by auto
  then show ?thesis by simp
qed

lemma loop_next:
  assumes "n < 65536" "s \<noteq> []" "hd s \<noteq> CHR '':''"
  shows "parseIPv6Loop (Suc g) ell (hex_string n @ CHR '':'' # s) acc = parseIPv6Loop g ell s (acc @ v6_bytes [n])"
proof -
  obtain k where "0 < k" "hex_group (hex_string n @ CHR '':'' # s) 0 0 = Some (n, k, CHR '':'' # s)"
    using hex_group_string [OF assms(1), of "CHR '':'' # s"] by auto
  with assms show ?thesis by simp
qed

lemma loop_ellipsis:
  assumes "n < 65536"
  shows "parseIPv6Loop (Suc g) None (hex_string n @ CHR '':'' # CHR '':'' # s) acc =
    (if s = [] then Some (acc @ v6_bytes [n], Some (length (acc @ v6_bytes [n])), [])
     else parseIPv6Loop g (Some (length (acc @ v6_bytes [n]))) s (acc @ v6_bytes [n]))"
proof -
  obtain k where "0 < k" "hex_group (hex_string n @ CHR '':'' # CHR '':'' # s) 0 0 = Some (n, k, CHR '':'' # CHR '':'' # s)"
    using hex_group_string [OF assms(1), of "CHR '':'' # CHR '':'' # s"] by auto
  with assms show ?thesis by simp
qed

lemma join_head:
  assumes "gs \<noteq> []" "\<forall>g \<in> set gs. g < 65536"
  shows "join '':'' (map hex_string gs) \<noteq> [] \<and> hex_val (hd (join '':'' (map hex_string gs))) \<noteq> None"
proof (cases gs)
  case (Cons g hs)
  then have "hex_val (hd (hex_string g)) \<noteq> None"
    using hex_string_chars [of g "hd (hex_string g)"] assms by simp
  with Cons show ?thesis by (cases hs) simp_all
qed (use assms in simp)

lemma loop_groups:
  assumes "gs \<noteq> []" "\<forall>g \<in> set gs. g < 65536" "length gs \<le> m"
  shows "parseIPv6Loop m ell (join '':'' (map hex_string gs)) acc = Some (acc @ v6_bytes gs, ell, [])"
  using assms
proof (induction gs arbitrary: m acc)
  case (Cons g gs)
  then obtain m' where m: "m = Suc m'" "length gs \<le> m'" by (cases m) auto
  show ?case
  proof (cases gs)
    case Nil
    with Cons.prems m loop_last [of g m' ell acc] show ?thesis by simp
  next
    case (Cons h hs)
    with join_head [of gs] Cons.prems have "join '':'' (map hex_string gs) \<noteq> []"
      "hd (join '':'' (map hex_string gs)) \<noteq> CHR '':''" by fastforce+
    from loop_next [OF _ this, of g m' ell acc] Cons.IH [of m' "acc @ v6_bytes [g]"] Cons.prems m Cons
    show ?thesis by simp
  qed
qed simp

lemma loop_compressed:
  assumes "gs \<noteq> []" "\<forall>g \<in> set gs \<union> set hs. g < 65536" "length gs + length hs \<le> m"
  shows "parseIPv6Loop m None (join '':'' (map hex_string gs) @ CHR '':'' # CHR '':'' # join '':'' (map hex_string hs)) acc
    = Some (acc @ v6_bytes gs @ v6_bytes hs, Some (length (acc @ v6_bytes gs)), [])"
  using assms
proof (induction gs arbitrary: m acc)
  case (Cons g gs)
  then obtain m' where m: "m = Suc m'" "length gs + length hs \<le> m'" by (cases m) auto
  show ?case
  proof (cases gs)
    case Nil
    show ?thesis
    proof (cases "hs = []")
      case True
      with Nil Cons.prems m loop_ellipsis [of g m' "[]" acc] show ?thesis by simp
    next
      case False
      with loop_groups [of hs m' "Some (length (acc @ v6_bytes [g]))" "acc @ v6_bytes [g]"] join_head [of hs]
        Nil Cons.prems m loop_ellipsis [of g m' "join '':'' (map hex_string hs)" acc]
      show ?thesis by simp
    qed
  next
    case (Cons h hs')
    let ?s = "join '':'' (map hex_string gs) @ CHR '':'' # CHR '':'' # join '':'' (map hex_string hs)"
    from Cons join_head [of gs] Cons.prems have "join '':'' (map hex_string gs) \<noteq> []"
      "hd (join '':'' (map hex_string gs)) \<noteq> CHR '':''" by fastforce+
    then have "?s \<noteq> []" "hd ?s \<noteq> CHR '':''" by simp_all
    from loop_next [OF _ this, of g m' None acc] Cons.IH [of m' "acc @ v6_bytes [g]"] Cons.prems m Cons
    show ?thesis by simp
  qed
qed simp


lemma zero_end_zeros:
  "i \<le> length ws \<Longrightarrow> zero_end ws i \<le> length ws \<and> (\<forall>k. i \<le> k \<and> k < zero_end ws i \<longrightarrow> ws ! k = 0)"
proof -
  assume i: "i \<le> length ws"
  have "length (takeWhile (\<lambda>w. w = 0) (drop i ws)) \<le> length (drop i ws)" by (rule length_takeWhile_le)
  moreover have "ws ! k = 0" if "i \<le> k" "k < zero_end ws i" for k
  proof -
    from that have k: "k - i < length (takeWhile (\<lambda>w. w = 0) (drop i ws))" by (simp add: zero_end_def)
    then have "takeWhile (\<lambda>w. w = 0) (drop i ws) ! (k - i) = 0"
      using set_takeWhileD [OF nth_mem [OF k]] by simp
    moreover have "takeWhile (\<lambda>w. w = 0) (drop i ws) ! (k - i) = drop i ws ! (k - i)"
      using k by (rule takeWhile_nth)
    ultimately show ?thesis using that i by simp
  qed
  ultimately show ?thesis using i by (simp add: zero_end_def)
qed

definition zero_span :: "nat list \<Rightarrow> nat \<times> nat \<Rightarrow> bool" where
  "zero_span ws = (\<lambda>(zs, ze). zs = 255 \<or> zs + 2 \<le> ze \<and> ze \<le> length ws \<and> (\<forall>k. zs \<le> k \<and> k < ze \<longrightarrow> ws ! k = 0))"

lemma zero_run_span:
  assumes "length ws = 8"
  shows "zero_span ws (zero_run ws)"
proof -
  have "zero_span ws (foldl (\<lambda>(zs, ze) i.
        let j = zero_end ws i in if 2 \<le> j - i \<and> ze - zs < j - i then (i, j) else (zs, ze)) z xs)"
    if "zero_span ws z" "\<forall>i \<in> set xs. i \<le> length ws" for z xs
    using that
  proof (induction xs arbitrary: z)
    case (Cons i xs)
    obtain zs ze where z: "z = (zs, ze)" by (cases z)
    have "zero_span ws (let j = zero_end ws i in if 2 \<le> j - i \<and> ze - zs < j - i then (i, j) else (zs, ze))"
      using Cons.prems zero_end_zeros [of i ws] by (auto simp: zero_span_def z Let_def)
    with Cons show ?case by (simp add: z)
  qed simp
  then show ?thesis unfolding zero_run_def using assms by (simp add: zero_span_def)
qed

lemma printed_plain:
  assumes "\<forall>g \<in> set gs. g < 65536" "c \<in> set (join '':'' (map hex_string gs))"
  shows "c = CHR '':'' \<or> hex_val c \<noteq> None"
  using assms
proof (induction gs)
  case (Cons g gs)
  show ?case
  proof (cases gs)
    case Nil
    with Cons.prems hex_string_chars [of g c] show ?thesis by simp
  next
    case (Cons h hs)
    with Cons.prems Cons.IH hex_string_chars [of g c] show ?thesis by auto
  qed
qed simp

text \<open>What \<open>parseIPv6\<close> does with the part before a zone.\<close>

definition v6_body :: "string \<Rightarrow> string \<Rightarrow> netip option" where
  "v6_body s z =
     (let leading = take 2 s = '':'' @ '':'';
          s1 = (if leading then drop 2 s else s);
          ell = (if leading then Some 0 else None)
      in if leading \<and> s1 = [] then Some (Addr6 (replicate 16 0) z)
         else case parseIPv6Loop 8 ell s1 [] of
           None \<Rightarrow> None
         | Some (acc, e, rest) \<Rightarrow>
             if rest \<noteq> [] then None
             else if length acc < 16 then map_option (\<lambda>k. Addr6 (expand_ellipsis acc k) z) e
             else if e \<noteq> None then None
             else Some (Addr6 acc z))"

lemma parseIPv6_body:
  assumes "CHR ''%'' \<notin> set s"
  shows "parseIPv6 (s @ (if z = [] then [] else ''%'' @ z)) = v6_body s z"
proof -
  have t: "takeWhile (\<lambda>c. c \<noteq> CHR ''%'') s = s"
    using assms by (induction s) auto
  have u: "takeWhile (\<lambda>c. c \<noteq> CHR ''%'') (s @ CHR ''%'' # z) = s"
    using assms by (induction s) auto
  have v: "dropWhile (\<lambda>c. c \<noteq> CHR ''%'') (s @ CHR ''%'' # z) = CHR ''%'' # z"
    using assms by (induction s) auto
  show ?thesis
  proof (cases "z = []")
    case True
    then show ?thesis
      by (simp only: parseIPv6_def v6_body_def Let_def t append_Nil2 simp_thms if_True) (simp add: assms)
  next
    case False
    then have zp: "s @ (if z = [] then [] else ''%'' @ z) = s @ CHR ''%'' # z" by simp
    show ?thesis by (simp only: zp parseIPv6_def v6_body_def Let_def u v list.sel) (simp add: False)
  qed
qed

lemma v6_body_plain:
  assumes "length ws = 8" "\<forall>g \<in> set ws. g < 65536"
  shows "v6_body (join '':'' (map hex_string ws)) z = Some (Addr6 (v6_bytes ws) z)"
proof -
  have ne: "ws \<noteq> []" using assms(1) by auto
  from join_head [OF ne assms(2)] have "take 2 (join '':'' (map hex_string ws)) \<noteq> '':'' @ '':''"
    by (cases "join '':'' (map hex_string ws)") auto
  then show ?thesis
    using loop_groups [OF ne assms(2), of 8 None "[]"] assms(1) by (simp add: v6_body_def Let_def)
qed

lemma v6_body_compressed:
  assumes "\<forall>g \<in> set gs \<union> set hs. g < 65536" "length gs + n + length hs = 8" "2 \<le> n"
  shows "v6_body (join '':'' (map hex_string gs) @ '':'' @ '':'' @ join '':'' (map hex_string hs)) z
    = Some (Addr6 (v6_bytes gs @ replicate (2 * n) 0 @ v6_bytes hs) z)"
proof (cases "gs = []")
  case True
  show ?thesis
  proof (cases "hs = []")
    case True2: True
    with True assms show ?thesis by (simp add: v6_body_def)
  next
    case False
    have jn: "join '':'' (map hex_string hs) \<noteq> []" using join_head [of hs] False assms(1) by simp
    have k: "16 - 2 * length hs = 2 * n" using assms(2) True by simp
    show ?thesis
      using loop_groups [of hs 8 "Some 0" "[]"] False True assms jn k
      by (simp add: v6_body_def Let_def expand_ellipsis_def)
  qed
next
  case False
  let ?s = "join '':'' (map hex_string gs) @ CHR '':'' # CHR '':'' # join '':'' (map hex_string hs)"
  from join_head [of gs] False assms(1) have "take 2 ?s \<noteq> '':'' @ '':''"
    by (cases "join '':'' (map hex_string gs)") auto
  moreover have "16 - (2 * length gs + 2 * length hs) = 2 * n" using assms(2) by linarith
  ultimately show ?thesis
    using loop_compressed [of gs hs 8 "[]"] False assms
    by (simp add: v6_body_def Let_def expand_ellipsis_def)
qed


lemma first_separator_hex:
  "\<forall>c \<in> set ds. hex_val c \<noteq> None \<Longrightarrow> first_separator (ds @ s) = first_separator s"
  by (induction ds) auto

lemma first_separator_join:
  assumes "gs \<noteq> []" "\<forall>g \<in> set gs. g < 65536" "length gs \<ge> 2 \<or> first_separator s = Some (CHR '':'')"
  shows "first_separator (join '':'' (map hex_string gs) @ s) = Some (CHR '':'')"
proof (cases gs)
  case (Cons g hs)
  have h: "first_separator (hex_string g @ r) = first_separator r" for r
    using Cons assms(2) hex_string_chars [of g] by (intro first_separator_hex) auto
  from Cons assms h show ?thesis by (cases hs) auto
qed (use assms in simp)

lemma ParseAddr_v6:
  assumes "length b = 16" "take 12 b \<noteq> v4_in_v6_prefix"
  shows "ParseAddr (Addr_String (Addr6 b z)) = Some (Addr6 b z)"
proof -
  define ws where "ws = v6_groups b"
  have ws: "length ws = 8" "\<forall>g \<in> set ws. g < 65536" "v6_bytes ws = b"
    using assms(1) v6_groups_bound [of b] by (simp_all add: ws_def length_v6_groups v6_bytes_groups)
  have no_percent: "CHR ''%'' \<notin> set (join '':'' (map hex_string gs))" if "set gs \<subseteq> set ws" for gs
    using printed_plain [of gs "CHR ''%''"] ws(2) that by (auto simp: subset_iff)
  obtain zs ze where run: "zero_run ws = (zs, ze)" by (cases "zero_run ws")
  have span: "zs = 255 \<or> zs + 2 \<le> ze \<and> ze \<le> 8 \<and> (\<forall>k. zs \<le> k \<and> k < ze \<longrightarrow> ws ! k = 0)"
    using zero_run_span [OF ws(1)] run ws(1) by (simp add: zero_span_def)
  let ?zone = "if z = [] then [] else ''%'' @ z"
  show ?thesis
  proof (cases "zs = 255")
    case True
    have ne: "ws \<noteq> []" using ws(1) by auto
    have p: "Addr_String (Addr6 b z) = join '':'' (map hex_string ws) @ ?zone"
      using assms(2) True run by (simp add: string_of_v6_def Let_def flip: ws_def)
    have "first_separator (Addr_String (Addr6 b z)) = Some (CHR '':'')"
      unfolding p using ws by (intro first_separator_join [OF ne]) simp_all
    moreover have "parseIPv6 (Addr_String (Addr6 b z)) = Some (Addr6 b z)"
      unfolding p using parseIPv6_body [OF no_percent [of ws]] v6_body_plain [OF ws(1,2)] ws(3) by simp
    ultimately show ?thesis by (simp add: ParseAddr_def del: Addr_String.simps)
  next
    case False
    let ?gs = "take zs ws" and ?hs = "drop ze ws"
    let ?s = "join '':'' (map hex_string ?gs) @ '':'' @ '':'' @ join '':'' (map hex_string ?hs)"
    have p: "Addr_String (Addr6 b z) = ?s @ ?zone"
      using assms(2) False run by (simp add: string_of_v6_def Let_def take_map drop_map flip: ws_def)
    have sub: "set ?gs \<subseteq> set ws" "set ?hs \<subseteq> set ws" by (auto dest: in_set_takeD in_set_dropD)
    with ws(2) have small: "\<forall>g \<in> set ?gs \<union> set ?hs. g < 65536" by blast
    have "ws = ?gs @ take (ze - zs) (drop zs ws) @ ?hs"
      using False span by (metis append_take_drop_id drop_drop le_add_diff_inverse2 add_leD1)
    moreover have "\<forall>g \<in> set (take (ze - zs) (drop zs ws)). g = 0"
      using False span ws(1) by (auto simp: in_set_conv_nth)
    moreover have "length (take (ze - zs) (drop zs ws)) = ze - zs" using False span ws(1) by auto
    ultimately have "b = v6_bytes ?gs @ replicate (2 * (ze - zs)) 0 @ v6_bytes ?hs"
      using ws(3) v6_bytes_zero [of "take (ze - zs) (drop zs ws)"] by (metis v6_bytes_simps(3))
    moreover have "length ?gs + (ze - zs) + length ?hs = 8" "2 \<le> ze - zs" using False span ws(1) by auto
    ultimately have body: "v6_body ?s z = Some (Addr6 b z)" using v6_body_compressed [OF small] by metis
    have "CHR ''%'' \<notin> set ?s" using no_percent [OF sub(1)] no_percent [OF sub(2)] by simp
    from parseIPv6_body [OF this, of z] body have "parseIPv6 (Addr_String (Addr6 b z)) = Some (Addr6 b z)"
      unfolding p by simp
    moreover have "first_separator (Addr_String (Addr6 b z)) = Some (CHR '':'')"
    proof (cases "?gs = []")
      case True
      show ?thesis unfolding p True by simp
    next
      case False
      from first_separator_join [OF this, of "'':'' @ '':'' @ join '':'' (map hex_string ?hs) @ ?zone"] small
      show ?thesis unfolding p by simp
    qed
    ultimately show ?thesis by (simp add: ParseAddr_def del: Addr_String.simps)
  qed
qed

text \<open>What \<open>JoinHostPort\<close> makes of it: no bracket or percent sign inside, and no literal as a whole.\<close>

lemma v6_string_plain:
  assumes "length b = 16"
  shows "set (string_of_v6 b []) \<inter> {CHR ''['', CHR '']'', CHR ''%'', CHR ''.''} = {}"
proof -
  let ?ws = "v6_groups b"
  have "\<forall>c \<in> set (join '':'' (map hex_string gs)). c = CHR '':'' \<or> hex_val c \<noteq> None" if "set gs \<subseteq> set ?ws" for gs
    using printed_plain [of gs] v6_groups_bound [of b] that by blast
  note chars = this [OF order_refl] this [OF set_take_subset] this [OF set_drop_subset]
  obtain zs ze where run: "zero_run ?ws = (zs, ze)" by (cases "zero_run ?ws")
  have eq: "string_of_v6 b [] = (if zs = 255 then join '':'' (map hex_string ?ws)
      else join '':'' (map hex_string (take zs ?ws)) @ '':'' @ '':'' @ join '':'' (map hex_string (drop ze ?ws)))"
    by (simp add: string_of_v6_def run take_map drop_map)
  have "c \<notin> set (string_of_v6 b [])" if "hex_val c = None" "c \<noteq> CHR '':''" for c
  proof -
    have "c \<notin> set (join '':'' (map hex_string ?ws))" "c \<notin> set (join '':'' (map hex_string (take zs ?ws)))"
      "c \<notin> set (join '':'' (map hex_string (drop ze ?ws)))"
      using that chars(1) [THEN bspec, of c] chars(2) [of zs, THEN bspec, of c] chars(3) [of ze, THEN bspec, of c] by blast+
    with that(2) show ?thesis by (simp add: eq)
  qed
  moreover have "hex_val (CHR ''['') = None" "hex_val (CHR '']'') = None" by (simp_all add: hex_val_def)
  ultimately show ?thesis by simp
qed

lemma v6_string_colon:
  assumes "length b = 16" "take 12 b \<noteq> v4_in_v6_prefix"
  shows "CHR '':'' \<in> set (string_of_v6 b [])"
proof -
  have sep: "first_separator s = Some (CHR '':'') \<Longrightarrow> CHR '':'' \<in> set s" for s
    by (induction s) (auto split: if_splits)
  have "ParseAddr (string_of_v6 b []) = Some (Addr6 b [])" using ParseAddr_v6 [OF assms, of "[]"] assms(2) by simp
  then have "first_separator (string_of_v6 b []) = Some (CHR '':'')"
    by (auto simp: ParseAddr_def parseIPv4_def split: option.splits if_splits)
  then show ?thesis by (rule sep)
qed

lemma SplitHostPort_bracket:
  assumes "CHR ''['' \<notin> set h" "CHR '']'' \<notin> set h" "set p \<inter> {CHR '':'', CHR ''['', CHR '']''} = {}"
  shows "SplitHostPort (CHR ''['' # h @ CHR '']'' # CHR '':'' # p) = Some (h, p)"
proof -
  have "last_index_of (CHR '':'') ((CHR ''['' # h @ [CHR '']'']) @ CHR '':'' # p) = Some (length h + 2)"
    using assms(3) by (subst last_index_of_colon) auto
  moreover have t: "takeWhile (\<lambda>d. d \<noteq> CHR '']'') (h @ CHR '']'' # CHR '':'' # p) = h"
    using assms(2) by (subst takeWhile_append2) auto
  have "index_of (CHR '']'') (CHR ''['' # h @ CHR '']'' # CHR '':'' # p) = Some (length h + 1)"
    using t by (simp add: index_of_def)
  ultimately show ?thesis using assms by (auto simp: SplitHostPort_def)
qed

lemma ParseAddr_bracket: "ParseAddr (CHR ''['' # s) = None"
proof -
  have "parseIPv4 (CHR ''['' # s) = None" by (simp add: parseIPv4_def is_digit_def)
  moreover have "hex_val (CHR ''['') = None" by (simp add: hex_val_def)
  then have "parseIPv6 (CHR ''['' # s) = None" by (simp add: parseIPv6_def eval_nat_numeral Let_def)
  ultimately show ?thesis by (auto simp: ParseAddr_def split: option.split)
qed

section \<open>What parsing gives\<close>

definition well_sized :: "netip \<Rightarrow> bool" where
  "well_sized a = (case a of Addr4 b \<Rightarrow> length b = 4 | Addr6 b z \<Rightarrow> length b = 16)"

lemma parseIPv4Fields_length:
  "parseIPv4Fields s pd v k acc = Some fs \<Longrightarrow> length acc \<le> 3 \<Longrightarrow> length fs = 4"
proof (induction s arbitrary: pd v k acc)
  case (Cons c s)
  consider v' where "parseIPv4Fields s False v' (k + 1) acc = Some fs"
    | "parseIPv4Fields s True 0 0 (acc @ [v]) = Some fs" "length acc \<noteq> 3"
    using Cons.prems(1) by (auto simp: Let_def split: if_splits)
  then show ?case using Cons.IH Cons.prems(2) by cases auto
qed (auto split: if_splits)

lemma parseIPv6Loop_length:
  "parseIPv6Loop g ell s acc = Some (acc', e, r) \<Longrightarrow> length acc + 2 * g \<le> 16 \<Longrightarrow>
     (\<forall>k. ell = Some k \<longrightarrow> k \<le> length acc) \<Longrightarrow> length acc' \<le> 16 \<and> (\<forall>k. e = Some k \<longrightarrow> k \<le> length acc')"
proof (induction g arbitrary: ell s acc)
  case (Suc g)
  obtain a off r' where h: "hex_group s 0 0 = Some (a, off, r')" "off \<noteq> 0"
    using Suc.prems(1) by (auto split: option.splits if_splits)
  let ?acc = "acc @ [word_of_nat (a div 256), word_of_nat (a mod 256)]"
  have room: "length ?acc + 2 * g \<le> 16" using Suc.prems(2) by simp
  show ?case
  proof (cases "r' \<noteq> [] \<and> hd r' = CHR ''.''")
    case True
    with Suc.prems h obtain fs where "parseIPv4Fields s True 0 0 [] = Some fs"
      "acc' = acc @ map word_of_nat fs" "e = ell" "length acc + 4 \<le> 16"
      by (auto split: if_splits)
    with Suc.prems(3) show ?thesis by (auto dest: parseIPv4Fields_length)
  next
    case False
    with Suc.prems(1) h consider "acc' = ?acc" "e = ell" | "acc' = ?acc" "e = Some (length ?acc)"
      | "parseIPv6Loop g (Some (length ?acc)) (tl (tl r')) ?acc = Some (acc', e, r)"
      | "parseIPv6Loop g ell (tl r') ?acc = Some (acc', e, r)"
      by (auto simp: Let_def split: if_splits)
    then show ?thesis
    proof cases
      case 3
      from Suc.IH [OF this room] show ?thesis by simp
    next
      case 4
      from Suc.IH [OF this room] Suc.prems(3) show ?thesis by fastforce
    qed (use room Suc.prems(3) in auto)
  qed
qed auto

lemma ParseAddr_well_sized: "ParseAddr s = Some a \<Longrightarrow> well_sized a"
proof -
  have v4: "parseIPv4 s = Some a \<Longrightarrow> well_sized a"
    by (auto simp: parseIPv4_def well_sized_def dest: parseIPv4Fields_length)
  have v6: "parseIPv6 s = Some a \<Longrightarrow> well_sized a"
    by (auto simp: parseIPv6_def well_sized_def Let_def expand_ellipsis_def split: if_splits option.splits
        dest!: parseIPv6Loop_length)
  show "ParseAddr s = Some a \<Longrightarrow> well_sized a"
    using v4 v6 by (auto simp: ParseAddr_def split: option.splits if_splits)
qed

end
