(* ===== verification/Addr.thy ===== *)
theory Addr
  imports GoNet
begin

text \<open>
  The addresses of \<open>addr.go\<close>: the split of an address string into the peer it names and the
  port it asks for, and the names and ports netchaos synthesizes.
\<close>

section \<open>Types\<close>

definition listenPortBase :: int where
  "listenPortBase = 8000"

definition ephemeralPortBase :: int where
  "ephemeralPortBase = 32768"

definition maxPort :: int where
  "maxPort = 65535"

text \<open>\<open>ip\<close> is \<open>None\<close> where the source has a nil \<open>net.IP\<close>.\<close>

record addr =
  a_network :: string
  peer :: string
  port :: int
  ip :: "netIP option"

text \<open>The \<open>*net.AddrError\<close> values the code builds: the message and the address.\<close>

record addr_error =
  ae_err :: string
  ae_addr :: string

section \<open>Parsing\<close>

definition parseLiteralIP :: "string \<Rightarrow> netip option" where
  "parseLiteralIP host = map_option Unmap (ParseAddr host)"

definition splitAddr :: "string \<Rightarrow> addr_error + (string \<times> int \<times> bool)" where
  "splitAddr s =
     (if parseLiteralIP s \<noteq> None then Inr (s, 0, False)
      else if CHR '':'' \<notin> set s then Inr (s, 0, False)
      else case SplitHostPort s of
        None \<Rightarrow> Inl \<lparr>ae_err = ''invalid address'', ae_addr = s\<rparr>
      | Some (host, portStr) \<Rightarrow>
          if portStr = [] \<or> portStr = ''0'' then Inr (host, 0, False)
          else case Atoi portStr of
            None \<Rightarrow> Inl \<lparr>ae_err = ''invalid port'', ae_addr = s\<rparr>
          | Some p \<Rightarrow>
              if p < 0 \<or> maxPort < p then Inl \<lparr>ae_err = ''invalid port'', ae_addr = s\<rparr>
              else Inr (host, p, True))"

definition peerName :: "string \<Rightarrow> string" where
  "peerName dialAddr = (case splitAddr dialAddr of Inl e \<Rightarrow> dialAddr | Inr (host, _, _) \<Rightarrow> host)"

section \<open>Synthesized names and ports\<close>

definition ephemeralPort :: "nat \<Rightarrow> int" where
  "ephemeralPort ordinal =
     (let span = maxPort + 1 - ephemeralPortBase in ephemeralPortBase + int ordinal mod span)"

definition ephemeralPeerName :: "nat \<Rightarrow> string" where
  "ephemeralPeerName ordinal = ''ephemeral-'' @ itoa ordinal"

definition wildcardPeerName :: "nat \<Rightarrow> string" where
  "wildcardPeerName ordinal = ''wildcard-'' @ itoa ordinal"

section \<open>Printing\<close>

definition port_string :: "int \<Rightarrow> string" where
  "port_string p = (if p < 0 then ''-'' @ itoa (nat (- p)) else itoa (nat p))"

definition addr_String :: "addr \<Rightarrow> string" where
  "addr_String a =
     (case ip a of
        Some i \<Rightarrow> JoinHostPort (IP_String i) (port_string (port a))
      | None \<Rightarrow> JoinHostPort (peer a) (port_string (port a)))"

text \<open>The \<open>*net.TCPAddr\<close> a caller sees: the IP and the port.\<close>

definition tcpAddr :: "addr \<Rightarrow> netIP option \<times> int" where
  "tcpAddr a = (ip a, port a)"

definition errAddr :: "string \<Rightarrow> string \<Rightarrow> addr option" where
  "errAddr network s =
     (if s = [] then None
      else case splitAddr s of
        Inl e \<Rightarrow> Some \<lparr>a_network = network, peer = s, port = 0, ip = None\<rparr>
      | Inr (host, p, _) \<Rightarrow> Some \<lparr>a_network = network, peer = host, port = p, ip = None\<rparr>)"

definition addressFamily :: "string \<Rightarrow> string \<Rightarrow> nat" where
  "addressFamily network host =
     (if network = ''tcp6'' then 6
      else if network = ''tcp4'' then 4
      else case parseLiteralIP host of
        Some a \<Rightarrow> if Is6 a then 6 else 4
      | None \<Rightarrow> 4)"

section \<open>Properties\<close>

lemma itoa_zero: "itoa n = ''0'' \<longleftrightarrow> n = 0"
proof -
  have "itoa 0 = ''0''" by (simp add: itoa.simps digit_CHR)
  then show ?thesis by (metis itoa_inj)
qed

text \<open>The literal a \<open>net.IP\<close> stands for: an IPv4-mapped slice is the IPv4 address.\<close>

definition literal_of :: "netIP \<Rightarrow> netip" where
  "literal_of i = (if length i = 4 then Addr4 i else Unmap (Addr6 i []))"

lemma literal_of_cases:
  assumes "length i = 4 \<or> length i = 16"
  obtains (v4) a b c d where "literal_of i = Addr4 [a, b, c, d]"
  | (v6) "literal_of i = Addr6 i []" "length i = 16" "take 12 i \<noteq> v4_in_v6_prefix"
proof -
  have quad: "\<exists>a b c d. xs = [a, b, c, d]" if "length xs = 4" for xs :: bytes
    using that by (auto simp: length_Suc_conv numeral_eq_Suc)
  consider "length i = 4" | "length i = 16" "take 12 i = v4_in_v6_prefix" | "length i = 16" "take 12 i \<noteq> v4_in_v6_prefix"
    using assms by blast
  then show ?thesis
  proof cases
    case 1
    with quad [OF this] v4 show ?thesis by (auto simp: literal_of_def)
  next
    case 2
    with quad [of "drop 12 i"] v4 show ?thesis by (auto simp: literal_of_def)
  next
    case 3
    with v6 show ?thesis by (simp add: literal_of_def)
  qed
qed

lemma IP_String_literal: "IP_String i = Addr_String (literal_of i)"
  by (simp add: IP_String_def literal_of_def)

lemma IP_Equal_literal: "length i = 4 \<or> length i = 16 \<Longrightarrow> IP_Equal (AsSlice (literal_of i)) i"
  by (auto simp: literal_of_def IP_Equal_def)

lemma parse_literal:
  assumes "length i = 4 \<or> length i = 16"
  shows "parseLiteralIP (Addr_String (literal_of i)) = Some (literal_of i)"
  using assms
proof (cases rule: literal_of_cases)
  case v4
  then show ?thesis by (simp add: parseLiteralIP_def ParseAddr_v4)
next
  case v6
  with ParseAddr_v6 [of i "[]"] show ?thesis by (simp add: parseLiteralIP_def del: Addr_String.simps)
qed

text \<open>The port and, for an IPv6 address, the brackets keep the whole from being a literal itself.\<close>

lemma split_literal:
  assumes "length i = 4 \<or> length i = 16"
  shows "SplitHostPort (JoinHostPort (Addr_String (literal_of i)) (itoa n)) = Some (Addr_String (literal_of i), itoa n)
    \<and> ParseAddr (JoinHostPort (Addr_String (literal_of i)) (itoa n)) = None
    \<and> CHR '':'' \<in> set (JoinHostPort (Addr_String (literal_of i)) (itoa n))"
  using assms
proof (cases rule: literal_of_cases)
  case (v4 a b c d)
  have h: "set (string_of_v4 [a, b, c, d]) \<inter> {CHR '':'', CHR ''['', CHR '']''} = {}" by (rule string_of_v4_plain)
  then have "JoinHostPort (string_of_v4 [a, b, c, d]) (itoa n) = string_of_v4 [a, b, c, d] @ CHR '':'' # itoa n"
    by (simp add: JoinHostPort_def)
  with SplitHostPort_plain [OF h, of "itoa n"] itoa_plain [of n] show ?thesis
    by (auto simp: v4 ParseAddr_v4_port)
next
  case v6
  let ?h = "string_of_v6 i []"
  have h: "CHR '':'' \<in> set ?h" "CHR ''['' \<notin> set ?h" "CHR '']'' \<notin> set ?h"
    using v6_string_plain [OF v6(2)] v6_string_colon [OF v6(2,3)] by auto
  then have "JoinHostPort ?h (itoa n) = CHR ''['' # ?h @ CHR '']'' # CHR '':'' # itoa n" by (simp add: JoinHostPort_def)
  with SplitHostPort_bracket [OF h(2,3), of "itoa n"] itoa_plain [of n] show ?thesis
    by (simp add: v6(1,3) ParseAddr_bracket)
qed

text \<open>
  C39. The address a listener or a connection prints splits back into the literal it was given
  and its port, whether that is an IPv4 address, an IPv6 address in brackets with its longest run of
  zeros left out, or an IPv4 address in IPv6 form: it can be passed to \<open>Dial\<close>, and naming a peer
  by it means an address equal to the one it was given.
\<close>

theorem address_roundtrip:
  assumes "ip a = Some i" "length i = 4 \<or> length i = 16" "0 < port a" "port a \<le> maxPort"
  shows "splitAddr (addr_String a) = Inr (IP_String i, port a, True)
    \<and> peerName (addr_String a) = IP_String i
    \<and> (\<exists>x. parseLiteralIP (peerName (addr_String a)) = Some x \<and> IP_Equal (AsSlice x) i \<and> Addr_String x = IP_String i
          \<and> (Is4 x \<longleftrightarrow> length i = 4 \<or> take 12 i = v4_in_v6_prefix))"
proof -
  have p: "addr_String a = JoinHostPort (Addr_String (literal_of i)) (itoa (nat (port a)))"
    using assms by (simp add: addr_String_def IP_String_literal port_string_def)
  note s = split_literal [OF assms(2), of "nat (port a)"]
  have "splitAddr (addr_String a) = Inr (Addr_String (literal_of i), port a, True)"
    using s assms(3,4) unfolding p by (simp add: splitAddr_def parseLiteralIP_def itoa_nonempty itoa_zero Atoi_itoa)
  moreover have "Is4 (literal_of i) \<longleftrightarrow> length i = 4 \<or> take 12 i = v4_in_v6_prefix"
    by (simp add: literal_of_def)
  ultimately show ?thesis
    by (simp add: peerName_def parse_literal [OF assms(2)] IP_Equal_literal [OF assms(2)] IP_String_literal)
qed

theorem address_roundtrip_witness:
  "splitAddr (addr_String \<lparr>a_network = ''tcp'', peer = ''server'', port = 8080, ip = Some [198, 18, 0, 1]\<rparr>)
      = Inr (''198.18.0.1'', 8080, True)
    \<and> splitAddr (addr_String \<lparr>a_network = ''tcp6'', peer = ''server'', port = 443, ip = Some [0xfd, 0, 0, 0, 0, 0, 0, 0, 0, 0, 0, 0, 0, 0, 0, 1]\<rparr>)
      = Inr (''fd00::1'', 443, True)"
proof -
  have "IP_String [198, 18, 0, 1] = ''198.18.0.1''"
    by (simp add: IP_String_def string_of_v4_def itoa.simps digit_CHR)
  moreover have "IP_String [0xfd, 0, 0, 0, 0, 0, 0, 0, 0, 0, 0, 0, 0, 0, 0, 1] = ''fd00::1''"
  proof -
    have run: "zero_run [0xfd00, 0, 0, 0, 0, 0, 0, 1] = (1, 7)" by (simp add: zero_run_def zero_end_def upt_rec)
    have "hex_digit 15 = CHR ''f''" "hex_digit 13 = CHR ''d''" "hex_digit 0 = CHR ''0''" "hex_digit 1 = CHR ''1''"
      by code_simp+
    then have "hex_string 0xfd00 = ''fd00''" "hex_string 1 = ''1''" by (simp_all add: hex_string.simps)
    with run show ?thesis by (simp add: IP_String_def v4_in_v6_prefix_def string_of_v6_def)
  qed
  ultimately show ?thesis
    using address_roundtrip [of "\<lparr>a_network = ''tcp'', peer = ''server'', port = 8080, ip = Some [198, 18, 0, 1]\<rparr>"]
      address_roundtrip [of "\<lparr>a_network = ''tcp6'', peer = ''server'', port = 443, ip = Some [0xfd, 0, 0, 0, 0, 0, 0, 0, 0, 0, 0, 0, 0, 0, 0, 1]\<rparr>"]
    by (simp add: maxPort_def)
qed

end
