(* ===== verification/Errors.thy ===== *)
theory Errors
  imports Addr
begin

text \<open>
  The error values that leave netchaos (\<open>errors.go\<close>, the \<open>*_errno*.go\<close> files, the \<open>opError\<close>
  methods), what \<open>errors.Is\<close> answers about them, and the panics of invalid options.
\<close>

section \<open>Error values\<close>

datatype errno = ECONNREFUSED | EADDRINUSE | ECONNRESET | EPIPE

text \<open>
  \<open>UnsupportedNetwork m\<close> is an error that wraps the sentinel \<open>ErrUnsupportedNetwork\<close> with the
  message \<open>m\<close>. \<open>PlainError\<close> is an \<open>errors.New\<close> or \<open>fmt.Errorf\<close> value.
\<close>

datatype go_error =
    ErrUnsupportedNetwork
  | UnsupportedNetwork string
  | ErrConnectionRefused
  | ErrAddressInUse
  | ErrBacklogFull
  | NetErrClosed
  | ErrDeadlineExceeded
  | EOF
  | ErrClosedPipe
  | Errno errno
  | PlainError string
  | AddrErr addr_error
  | ContextCanceled
  | ContextDeadlineExceeded
  | OpError (op_op: string) (op_net: string) (op_source: "addr option") (op_addr: "addr option")
      (op_err: go_error)

text \<open>The build-time choice of \<open>errors_errno.go\<close> and its siblings: plan9 has no errno values.\<close>

definition errConnRefused :: "bool \<Rightarrow> go_error option" where
  "errConnRefused plan9 = (if plan9 then None else Some (Errno ECONNREFUSED))"

definition errAddrInUse :: "bool \<Rightarrow> go_error option" where
  "errAddrInUse plan9 = (if plan9 then None else Some (Errno EADDRINUSE))"

definition errConnReset :: "bool \<Rightarrow> go_error" where
  "errConnReset plan9 = (if plan9 then PlainError ''connection reset by peer'' else Errno ECONNRESET)"

definition errBrokenPipe :: "bool \<Rightarrow> go_error" where
  "errBrokenPipe plan9 = (if plan9 then PlainError ''broken pipe'' else Errno EPIPE)"

text \<open>The \<open>Is\<close> method of the setup errors: it matches the errno where there is one.\<close>

fun setupError_Is :: "bool \<Rightarrow> go_error \<Rightarrow> go_error \<Rightarrow> bool" where
  "setupError_Is plan9 ErrConnectionRefused target = (errConnRefused plan9 = Some target)"
| "setupError_Is plan9 ErrAddressInUse target = (errAddrInUse plan9 = Some target)"
| "setupError_Is plan9 e target = False"

text \<open>
  \<open>errors.Is\<close>: equality, the error's own \<open>Is\<close> method, then what it wraps.
\<close>

fun errors_Is :: "bool \<Rightarrow> go_error \<Rightarrow> go_error \<Rightarrow> bool" where
  "errors_Is plan9 (OpError op net source a e) target =
     (OpError op net source a e = target \<or> errors_Is plan9 e target)"
| "errors_Is plan9 (UnsupportedNetwork m) target =
     (UnsupportedNetwork m = target \<or> target = ErrUnsupportedNetwork)"
| "errors_Is plan9 e target = (e = target \<or> setupError_Is plan9 e target)"

text \<open>\<open>Timeout()\<close> of a \<open>*net.OpError\<close>: the wrapped error's own answer.\<close>

fun is_timeout :: "go_error \<Rightarrow> bool" where
  "is_timeout (OpError op net source a e) = is_timeout e"
| "is_timeout ErrDeadlineExceeded = True"
| "is_timeout ContextDeadlineExceeded = True"
| "is_timeout e = False"

section \<open>Networks\<close>

definition validateNetwork :: "string \<Rightarrow> go_error option" where
  "validateNetwork network =
     (if network \<in> {''tcp'', ''tcp4'', ''tcp6''} then None
      else if network \<in> {''udp'', ''udp4'', ''udp6''}
      then Some (UnsupportedNetwork ''udp support is out of scope for netchaos v1'')
      else Some (UnsupportedNetwork network))"

definition dialOpError :: "string \<Rightarrow> string \<Rightarrow> go_error \<Rightarrow> go_error" where
  "dialOpError network dialAddr err = OpError ''dial'' network None (errAddr network dialAddr) err"

definition listenOpError :: "string \<Rightarrow> string \<Rightarrow> go_error \<Rightarrow> go_error" where
  "listenOpError network laddr err = OpError ''listen'' network None (errAddr network laddr) err"

section \<open>Panics\<close>

text \<open>
  The panics of invalid arguments, by the message they carry: the caller they name and the
  offending values.
\<close>

datatype panic =
    PanicRate string float64
  | PanicLatencyMin string duration
  | PanicLatencyMax string duration
  | PanicLatencyOrder string duration duration
  | PanicBandwidth int
  | PanicPipeBound int
  | PanicBacklog int
  | PanicPeerEmpty string string string
  | PanicPeerSame string string
  | PanicNilOption string nat
  | PanicDialTimeout duration

end
