(* ===== verification/Faults.thy ===== *)
theory Faults
  imports Errors
begin

text \<open>
  The configuration: \<open>faultConfig\<close> of \<open>faults.go\<close>, \<open>networkConfig\<close> and the options of
  \<open>options.go\<close>, \<open>latency.go\<close>, \<open>loss.go\<close>, \<open>duplicate.go\<close>, \<open>corrupt.go\<close>, \<open>bandwidth.go\<close>,
  \<open>pipe.go\<close> and \<open>listener.go\<close>, their validation, and the live setters.
\<close>

section \<open>Fault configuration\<close>

record faultConfig =
  lossEnabled :: bool
  lossRate :: float64
  latencyEnabled :: bool
  latencyMin :: duration
  latencyMax :: duration
  bandwidthEnabled :: bool
  bandwidthBPS :: int
  duplicateEnabled :: bool
  duplicateRate :: float64
  corruptEnabled :: bool
  corruptRate :: float64

record partitionPair =
  peerA :: string
  peerB :: string

text \<open>\<open>networkConfig\<close> repeats the fields of \<open>faultConfig\<close>; the model extends the record.\<close>

record networkConfig = faultConfig +
  cfg_seed :: int
  cfg_traceEnabled :: bool
  staticPartitions :: "partitionPair list"
  pipeBoundEnabled :: bool
  cfg_pipeBound :: int
  listenerBacklogEnabled :: bool
  cfg_listenerBacklog :: int

definition noFaults :: faultConfig where
  "noFaults =
     \<lparr>lossEnabled = False, lossRate = Finite 0,
      latencyEnabled = False, latencyMin = 0, latencyMax = 0,
      bandwidthEnabled = False, bandwidthBPS = 0,
      duplicateEnabled = False, duplicateRate = Finite 0,
      corruptEnabled = False, corruptRate = Finite 0\<rparr>"

definition defaultSeed :: int where
  "defaultSeed = 1"

definition defaultPipeBound :: int where
  "defaultPipeBound = 64 * 1024"

definition listenerBacklogDefault :: int where
  "listenerBacklogDefault = 128"

text \<open>The zero \<open>networkConfig\<close> but for the default seed and tracing, as \<open>NewNetwork\<close> starts.\<close>

definition initialConfig :: networkConfig where
  "initialConfig = faultConfig.extend noFaults
     (networkConfig.fields defaultSeed True [] False 0 False 0)"

section \<open>Options\<close>

type_synonym netOption = "networkConfig \<Rightarrow> networkConfig"

definition WithSeed :: "int \<Rightarrow> netOption" where
  "WithSeed seed c = c\<lparr>cfg_seed := seed\<rparr>"

definition WithTrace :: "bool \<Rightarrow> netOption" where
  "WithTrace enabled c = c\<lparr>cfg_traceEnabled := enabled\<rparr>"

definition WithLatency :: "duration \<Rightarrow> duration \<Rightarrow> netOption" where
  "WithLatency dmin dmax c = c\<lparr>latencyEnabled := True, latencyMin := dmin, latencyMax := dmax\<rparr>"

definition WithPacketLoss :: "float64 \<Rightarrow> netOption" where
  "WithPacketLoss rate c = c\<lparr>lossEnabled := True, lossRate := rate\<rparr>"

definition WithBandwidth :: "int \<Rightarrow> netOption" where
  "WithBandwidth bytesPerSecond c = c\<lparr>bandwidthEnabled := True, bandwidthBPS := bytesPerSecond\<rparr>"

definition WithDuplication :: "float64 \<Rightarrow> netOption" where
  "WithDuplication rate c = c\<lparr>duplicateEnabled := True, duplicateRate := rate\<rparr>"

definition WithCorruption :: "float64 \<Rightarrow> netOption" where
  "WithCorruption rate c = c\<lparr>corruptEnabled := True, corruptRate := rate\<rparr>"

definition WithPartition :: "string \<Rightarrow> string \<Rightarrow> netOption" where
  "WithPartition a b c = c\<lparr>staticPartitions := staticPartitions c @ [\<lparr>peerA = a, peerB = b\<rparr>]\<rparr>"

definition WithPipeBound :: "int \<Rightarrow> netOption" where
  "WithPipeBound b c = c\<lparr>pipeBoundEnabled := True, cfg_pipeBound := b\<rparr>"

definition WithListenerBacklog :: "int \<Rightarrow> netOption" where
  "WithListenerBacklog b c = c\<lparr>listenerBacklogEnabled := True, cfg_listenerBacklog := b\<rparr>"

section \<open>Validation\<close>

text \<open>A validation function returns the panic it raises, if any.\<close>

definition validateLossRate :: "string \<Rightarrow> float64 \<Rightarrow> panic option" where
  "validateLossRate caller rate =
     (if rate = NaN \<or> flt rate (Finite 0) \<or> flt (Finite 1) rate
      then Some (PanicRate caller rate) else None)"

definition validateDuplicationRate :: "string \<Rightarrow> float64 \<Rightarrow> panic option" where
  "validateDuplicationRate caller rate =
     (if rate = NaN \<or> flt rate (Finite 0) \<or> flt (Finite 1) rate
      then Some (PanicRate caller rate) else None)"

definition validateCorruptionRate :: "string \<Rightarrow> float64 \<Rightarrow> panic option" where
  "validateCorruptionRate caller rate =
     (if rate = NaN \<or> flt rate (Finite 0) \<or> flt (Finite 1) rate
      then Some (PanicRate caller rate) else None)"

definition validateLatencyRange :: "string \<Rightarrow> duration \<Rightarrow> duration \<Rightarrow> panic option" where
  "validateLatencyRange caller dmin dmax =
     (if dmin < 0 then Some (PanicLatencyMin caller dmin)
      else if dmax < 0 then Some (PanicLatencyMax caller dmax)
      else if dmax < dmin then Some (PanicLatencyOrder caller dmin dmax)
      else None)"

definition validateBandwidthRate :: "int \<Rightarrow> panic option" where
  "validateBandwidthRate bps = (if bps \<le> 0 then Some (PanicBandwidth bps) else None)"

definition validatePipeBound :: "int \<Rightarrow> panic option" where
  "validatePipeBound b = (if b \<le> 0 then Some (PanicPipeBound b) else None)"

definition validateListenerBacklog :: "int \<Rightarrow> panic option" where
  "validateListenerBacklog b = (if b \<le> 0 then Some (PanicBacklog b) else None)"

definition validatePartitionPair :: "string \<Rightarrow> partitionPair \<Rightarrow> panic option" where
  "validatePartitionPair caller p =
     (if peerA p = [] \<or> peerB p = [] then Some (PanicPeerEmpty caller (peerA p) (peerB p))
      else if peerA p = peerB p then Some (PanicPeerSame caller (peerA p))
      else None)"

text \<open>The first panic of a sequence of checks.\<close>

fun first_panic :: "panic option list \<Rightarrow> panic option" where
  "first_panic [] = None"
| "first_panic (None # cs) = first_panic cs"
| "first_panic (Some p # cs) = Some p"

definition config_validate :: "networkConfig \<Rightarrow> panic option" where
  "config_validate c =
     first_panic (
       [if lossEnabled c then validateLossRate ''WithPacketLoss'' (lossRate c) else None,
        if latencyEnabled c then validateLatencyRange ''WithLatency'' (latencyMin c) (latencyMax c) else None,
        if bandwidthEnabled c then validateBandwidthRate (bandwidthBPS c) else None,
        if duplicateEnabled c then validateDuplicationRate ''WithDuplication'' (duplicateRate c) else None,
        if corruptEnabled c then validateCorruptionRate ''WithCorruption'' (corruptRate c) else None,
        if pipeBoundEnabled c then validatePipeBound (cfg_pipeBound c) else None,
        if listenerBacklogEnabled c then validateListenerBacklog (cfg_listenerBacklog c) else None]
       @ map (validatePartitionPair ''WithPartition'') (staticPartitions c))"

text \<open>\<open>NewNetwork\<close> applies the options in argument order; a nil option panics at its index.\<close>

fun applyOptions :: "nat \<Rightarrow> netOption option list \<Rightarrow> networkConfig \<Rightarrow> panic + networkConfig" where
  "applyOptions i [] c = Inr c"
| "applyOptions i (None # opts) c = Inl (PanicNilOption ''NewNetwork'' i)"
| "applyOptions i (Some f # opts) c = applyOptions (Suc i) opts (f c)"

section \<open>Live setters\<close>

definition set_latency :: "duration \<Rightarrow> duration \<Rightarrow> faultConfig \<Rightarrow> panic + faultConfig" where
  "set_latency dmin dmax f =
     (case validateLatencyRange ''SetLatency'' dmin dmax of
        Some p \<Rightarrow> Inl p
      | None \<Rightarrow> Inr (f\<lparr>latencyEnabled := True, latencyMin := dmin, latencyMax := dmax\<rparr>))"

definition set_packet_loss :: "float64 \<Rightarrow> faultConfig \<Rightarrow> panic + faultConfig" where
  "set_packet_loss rate f =
     (case validateLossRate ''SetPacketLoss'' rate of
        Some p \<Rightarrow> Inl p
      | None \<Rightarrow> Inr (f\<lparr>lossEnabled := True, lossRate := rate\<rparr>))"

definition set_duplication :: "float64 \<Rightarrow> faultConfig \<Rightarrow> panic + faultConfig" where
  "set_duplication rate f =
     (case validateDuplicationRate ''SetDuplication'' rate of
        Some p \<Rightarrow> Inl p
      | None \<Rightarrow> Inr (f\<lparr>duplicateEnabled := True, duplicateRate := rate\<rparr>))"

definition set_corruption :: "float64 \<Rightarrow> faultConfig \<Rightarrow> panic + faultConfig" where
  "set_corruption rate f =
     (case validateCorruptionRate ''SetCorruption'' rate of
        Some p \<Rightarrow> Inl p
      | None \<Rightarrow> Inr (f\<lparr>corruptEnabled := True, corruptRate := rate\<rparr>))"

end
