(* ===== verification/Partition.thy ===== *)
theory Partition
  imports Faults
begin

text \<open>
  The partition table of \<open>partition.go\<close>: the unordered pairs of peers that are partitioned and
  the channel every change of the table closes and replaces. Naming peers (the address book)
  is \<open>Addressing\<close>'s part; here pairs are already canonical.
\<close>

section \<open>Pairs\<close>

type_synonym pairKey = "string \<times> string"

definition newPairKey :: "string \<Rightarrow> string \<Rightarrow> pairKey" where
  "newPairKey x y = (if x \<le> y then (x, y) else (y, x))"

lemma newPairKey_commute: "newPairKey x y = newPairKey y x"
  by (auto simp: newPairKey_def)

lemma newPairKey_eq_iff:
  "newPairKey x y = newPairKey u v \<longleftrightarrow> (x = u \<and> y = v) \<or> (x = v \<and> y = u)"
  by (auto simp: newPairKey_def)

section \<open>The table\<close>

record partTable =
  partitions :: "pairKey set"
  partNotify :: nat

definition bumpPartNotifyLocked :: "partTable \<Rightarrow> partTable" where
  "bumpPartNotifyLocked t = t\<lparr>partNotify := Suc (partNotify t)\<rparr>"

definition partition_pair :: "pairKey \<Rightarrow> partTable \<Rightarrow> partTable" where
  "partition_pair k t =
     (if k \<in> partitions t then t
      else bumpPartNotifyLocked (t\<lparr>partitions := insert k (partitions t)\<rparr>))"

definition heal_pair :: "pairKey \<Rightarrow> partTable \<Rightarrow> partTable" where
  "heal_pair k t =
     (if k \<notin> partitions t then t
      else bumpPartNotifyLocked (t\<lparr>partitions := partitions t - {k}\<rparr>))"

definition isPartitioned :: "pairKey \<Rightarrow> partTable \<Rightarrow> bool" where
  "isPartitioned k t \<longleftrightarrow> k \<in> partitions t"

definition checkPartition :: "pairKey \<Rightarrow> partTable \<Rightarrow> bool \<times> nat" where
  "checkPartition k t = (k \<in> partitions t, partNotify t)"

section \<open>Laws\<close>

interpretation part_chan: gen_channel partNotify bumpPartNotifyLocked
  by unfold_locales (simp add: bumpPartNotifyLocked_def)

lemma partitions_bump [simp]: "partitions (bumpPartNotifyLocked t) = partitions t"
  by (simp add: bumpPartNotifyLocked_def)

lemma isPartitioned_partition [simp]:
  "isPartitioned k (partition_pair j t) \<longleftrightarrow> k = j \<or> isPartitioned k t"
  by (auto simp: isPartitioned_def partition_pair_def)

lemma isPartitioned_heal [simp]:
  "isPartitioned k (heal_pair j t) \<longleftrightarrow> k \<noteq> j \<and> isPartitioned k t"
  by (auto simp: isPartitioned_def heal_pair_def)

text \<open>A change of the table closes every channel taken before it.\<close>

lemma heal_closes:
  "isPartitioned k t \<Longrightarrow> chan_closed (partNotify t) (partNotify (heal_pair k t))"
  by (simp add: heal_pair_def isPartitioned_def chan_closed_def bumpPartNotifyLocked_def)

lemma partition_closes:
  "\<not> isPartitioned k t \<Longrightarrow> chan_closed (partNotify t) (partNotify (partition_pair k t))"
  by (simp add: partition_pair_def isPartitioned_def chan_closed_def bumpPartNotifyLocked_def)

lemma partNotify_mono:
  "partNotify t \<le> partNotify (partition_pair k t)" "partNotify t \<le> partNotify (heal_pair k t)"
  by (simp_all add: partition_pair_def heal_pair_def bumpPartNotifyLocked_def)

end
