(* ===== verification/Crypto.thy ===== *)
theory Crypto
  imports Prelude
begin

text \<open>
  The two generators of the standard library behind a stream: \<open>crypto/sha256\<close> (FIPS 180-4)
  and the ChaCha8 generator of \<open>math/rand/v2\<close> (the C2SP chacha8rand construction: four
  interleaved ChaCha8 blocks per refill, the key taken from the output every sixteen blocks).
  They are written out so that a derived stream is a closed, executable term; no property of
  the development depends on their cryptographic strength.
\<close>

section \<open>Byte order\<close>

definition be64 :: "u64 \<Rightarrow> bytes" where
  "be64 w = map (\<lambda>i. ucast (drop_bit (8 * (7 - i)) w)) [0..<8]"

definition be32 :: "u32 \<Rightarrow> bytes" where
  "be32 w = map (\<lambda>i. ucast (drop_bit (8 * (3 - i)) w)) [0..<4]"

definition be32_of :: "bytes \<Rightarrow> u32" where
  "be32_of bs = foldl (\<lambda>acc b. push_bit 8 acc OR ucast b) 0 bs"

definition le64_of :: "bytes \<Rightarrow> u64" where
  "le64_of bs = foldr (\<lambda>b acc. push_bit 8 acc OR ucast b) bs 0"

fun chunks :: "nat \<Rightarrow> nat \<Rightarrow> 'a list \<Rightarrow> 'a list list" where
  "chunks 0 k xs = []"
| "chunks (Suc n) k xs = take k xs # chunks n k (drop k xs)"

section \<open>SHA-256\<close>

text \<open>
  The constants of the standard: the first 32 bits of the fractional parts of the cube roots of
  the first 64 primes, and of the square roots of the first eight. \<open>root_floor k n\<close> is the
  \<open>k\<close>-th root of \<open>n\<close> rounded down, bit by bit, for roots of at most 36 bits.
\<close>

definition root_floor :: "nat \<Rightarrow> nat \<Rightarrow> nat" where
  "root_floor k n = foldr (\<lambda>i r. if (r + 2 ^ i) ^ k \<le> n then r + 2 ^ i else r) [0..<36] 0"

definition small_primes :: "nat list" where
  "small_primes = filter (\<lambda>n. list_all (\<lambda>d. n mod d \<noteq> 0) [2..<n]) [2..<312]"

definition sha_k :: "u32 list" where
  "sha_k = map (\<lambda>p. word_of_nat (root_floor 3 (p * 2 ^ 96))) small_primes"

definition sha_h0 :: "u32 list" where
  "sha_h0 = map (\<lambda>p. word_of_nat (root_floor 2 (p * 2 ^ 64))) (take 8 small_primes)"

definition rotr32 :: "nat \<Rightarrow> u32 \<Rightarrow> u32" where
  "rotr32 k w = drop_bit k w OR push_bit (32 - k) w"

definition rotl32 :: "nat \<Rightarrow> u32 \<Rightarrow> u32" where
  "rotl32 k w = push_bit k w OR drop_bit (32 - k) w"

text \<open>The message schedule, built from the back: the newest word is at the head.\<close>

definition sha_next_word :: "u32 list \<Rightarrow> u32" where
  "sha_next_word w =
     (let w2 = w ! 1; w7 = w ! 6; w15 = w ! 14; w16 = w ! 15;
          s0 = rotr32 7 w15 XOR rotr32 18 w15 XOR drop_bit 3 w15;
          s1 = rotr32 17 w2 XOR rotr32 19 w2 XOR drop_bit 10 w2
      in w16 + s0 + w7 + s1)"

fun sha_extend :: "nat \<Rightarrow> u32 list \<Rightarrow> u32 list" where
  "sha_extend 0 w = w"
| "sha_extend (Suc n) w = sha_extend n (sha_next_word w # w)"

fun sha_round :: "u32 \<times> u32 \<Rightarrow> u32 list \<Rightarrow> u32 list" where
  "sha_round (k, w) [a, b, c, d, e, f, g, h] =
     (let s1 = rotr32 6 e XOR rotr32 11 e XOR rotr32 25 e;
          ch = (e AND f) XOR (NOT e AND g);
          t1 = h + s1 + ch + k + w;
          s0 = rotr32 2 a XOR rotr32 13 a XOR rotr32 22 a;
          maj = (a AND b) XOR (a AND c) XOR (b AND c)
      in [t1 + (s0 + maj), a, b, c, d + t1, e, f, g])"
| "sha_round kw s = s"

definition sha_block :: "u32 list \<Rightarrow> bytes \<Rightarrow> u32 list" where
  "sha_block hs block =
     (let w = rev (sha_extend 48 (rev (map be32_of (chunks 16 4 block))))
      in map2 (+) hs (fold sha_round (zip sha_k w) hs))"

definition sha_pad :: "bytes \<Rightarrow> bytes" where
  "sha_pad m = m @ [0x80] @ replicate ((119 - length m mod 64) mod 64) 0
                 @ be64 (word_of_nat (8 * length m))"

definition sha256 :: "bytes \<Rightarrow> bytes" where
  "sha256 m =
     (let p = sha_pad m
      in concat (map be32 (foldl sha_block sha_h0 (chunks (length p div 64) 64 p))))"

section \<open>ChaCha8\<close>

text \<open>One of the four interleaved blocks: sixteen 32-bit words, eight rounds.\<close>

definition quarter :: "nat \<times> nat \<times> nat \<times> nat \<Rightarrow> u32 list \<Rightarrow> u32 list" where
  "quarter = (\<lambda>(ia, ib, ic, id) s.
     let a0 = s ! ia; b0 = s ! ib; c0 = s ! ic; d0 = s ! id;
         a1 = a0 + b0; d1 = rotl32 16 (d0 XOR a1);
         c1 = c0 + d1; b1 = rotl32 12 (b0 XOR c1);
         a2 = a1 + b1; d2 = rotl32 8 (d1 XOR a2);
         c2 = c1 + d2; b2 = rotl32 7 (b1 XOR c2)
     in s[ia := a2, ib := b2, ic := c2, id := d2])"

definition double_round :: "u32 list \<Rightarrow> u32 list" where
  "double_round s = fold quarter
     [(0, 4, 8, 12), (1, 5, 9, 13), (2, 6, 10, 14), (3, 7, 11, 15),
      (0, 5, 10, 15), (1, 6, 11, 12), (2, 7, 8, 13), (3, 4, 9, 14)] s"

text \<open>
  The key is four 64-bit words; only the key words are added back after the rounds.
\<close>

definition chacha_key_words :: "u64 list \<Rightarrow> u32 list" where
  "chacha_key_words seed = concat (map (\<lambda>x. [ucast x, ucast (drop_bit 32 x)]) seed)"

definition chacha_lane :: "u64 list \<Rightarrow> u32 \<Rightarrow> u32 list" where
  "chacha_lane seed counter =
     (let key = chacha_key_words seed;
          start = [0x61707865, 0x3320646e, 0x79622d32, 0x6b206574] @ key @ [counter, 0, 0, 0];
          out = (double_round ^^ 4) start
      in take 4 out @ map2 (+) (take 8 (drop 4 out)) key @ drop 12 out)"

definition chacha_block :: "u64 list \<Rightarrow> u32 \<Rightarrow> u64 list" where
  "chacha_block seed counter =
     (let lanes = map (\<lambda>i. chacha_lane seed (counter + word_of_nat i)) [0..<4]
      in concat (map (\<lambda>r.
           [ucast (lanes ! 0 ! r) OR push_bit 32 (ucast (lanes ! 1 ! r)),
            ucast (lanes ! 2 ! r) OR push_bit 32 (ucast (lanes ! 3 ! r))]) [0..<16]))"

text \<open>
  A key serves the counters 0, 4, 8 and 12, of 32 draws each; the last block gives up its
  final four words as the next key, so one key yields 124 draws.
\<close>

fun chacha_key :: "u64 list \<Rightarrow> nat \<Rightarrow> u64 list" where
  "chacha_key seed 0 = seed"
| "chacha_key seed (Suc e) = drop 28 (chacha_block (chacha_key seed e) 12)"

definition chacha8 :: "bytes \<Rightarrow> nat \<Rightarrow> u64" where
  "chacha8 key = (\<lambda>i.
     let seed = chacha_key (map le64_of (chunks 4 8 key)) (i div 124); j = i mod 124
     in chacha_block seed (word_of_nat (4 * (j div 32))) ! (j mod 32))"

end
