(* ===== verification/Rand.thy ===== *)
theory Rand
  imports Crypto
begin

text \<open>
  The seeded random streams of \<open>rand.go\<close>. A stream is the infinite sequence of raw 64-bit
  draws of its ChaCha8 generator together with the number of draws consumed so far; every
  derived value is computed from raw draws as the code does, Lemire's multiply-shift method
  with its rejection loop included.
\<close>

section \<open>Fault kinds, sides, streams\<close>

datatype faultKind = kindLoss | kindLatency | kindDuplicate | kindCorrupt

datatype connSide = sideDialer | sideAcceptor

instantiation connSide :: linorder
begin

definition less_eq_connSide :: "connSide \<Rightarrow> connSide \<Rightarrow> bool" where
  "less_eq_connSide x y \<longleftrightarrow> x = sideDialer \<or> y = sideAcceptor"

definition less_connSide :: "connSide \<Rightarrow> connSide \<Rightarrow> bool" where
  "less_connSide x y \<longleftrightarrow> x = sideDialer \<and> y = sideAcceptor"

instance
proof
  fix x y z :: connSide
  show "x < y \<longleftrightarrow> x \<le> y \<and> \<not> y \<le> x"
    by (cases x; cases y; simp add: less_eq_connSide_def less_connSide_def)
  show "x \<le> x" by (cases x) (simp_all add: less_eq_connSide_def)
  show "x \<le> y \<Longrightarrow> y \<le> z \<Longrightarrow> x \<le> z"
    by (cases x; cases y; cases z; simp add: less_eq_connSide_def)
  show "x \<le> y \<Longrightarrow> y \<le> x \<Longrightarrow> x = y"
    by (cases x; cases y; simp add: less_eq_connSide_def)
  show "x \<le> y \<or> y \<le> x" by (cases x) (simp_all add: less_eq_connSide_def)
qed

end

fun kind_byte :: "faultKind \<Rightarrow> u8" where
  "kind_byte kindLoss = 0"
| "kind_byte kindLatency = 1"
| "kind_byte kindDuplicate = 2"
| "kind_byte kindCorrupt = 3"

fun side_byte :: "connSide \<Rightarrow> u8" where
  "side_byte sideDialer = 0"
| "side_byte sideAcceptor = 1"

record stream =
  src :: "nat \<Rightarrow> u64"
  pos :: nat

definition stream_next :: "stream \<Rightarrow> u64 \<times> stream" where
  "stream_next s = (src s (pos s), s\<lparr>pos := Suc (pos s)\<rparr>)"

text \<open>
  The key of a stream hashes a fixed-width encoding of the master seed, the connection's
  ordinal, the writing side and the fault kind, after a domain-separation tag.
\<close>

definition derive_input :: "int \<Rightarrow> nat \<Rightarrow> connSide \<Rightarrow> faultKind \<Rightarrow> bytes" where
  "derive_input masterSeed ordinal side kind =
     map of_char ''nc1'' @ [0] @ be64 (word_of_int masterSeed) @ be64 (word_of_nat ordinal)
       @ [side_byte side, kind_byte kind]"

definition deriveStream :: "int \<Rightarrow> nat \<Rightarrow> connSide \<Rightarrow> faultKind \<Rightarrow> stream" where
  "deriveStream masterSeed ordinal side kind =
     \<lparr>src = chacha8 (sha256 (derive_input masterSeed ordinal side kind)), pos = 0\<rparr>"

section \<open>Derived values\<close>

text \<open>\<open>bits.Mul64\<close>: the 128-bit product as its high and low halves.\<close>

definition Mul64 :: "u64 \<Rightarrow> u64 \<Rightarrow> u64 \<times> u64" where
  "Mul64 x y = (word_of_nat (unat x * unat y div 2 ^ 64), x * y)"

definition bernoulli :: "float64 \<Rightarrow> stream \<Rightarrow> bool \<times> stream" where
  "bernoulli rate s =
     (let (draw, s') = stream_next s
      in if fle rate (Finite 0) then (False, s')
         else if fle (Finite 1) rate then (True, s')
         else (flt (Finite (of_nat (unat (drop_bit 11 draw)) / 2 ^ 53)) rate, s'))"

text \<open>
  The rejection loop has no bound of its own: on a source that never leaves the biased zone it
  would not return, which the model keeps as \<open>None\<close>.
\<close>

partial_function (option) bounded_loop ::
  "u64 \<Rightarrow> u64 \<Rightarrow> u64 \<Rightarrow> u64 \<Rightarrow> stream \<Rightarrow> (u64 \<times> stream) option" where
  "bounded_loop n thresh hi lo s =
     (if lo < thresh
      then let (x, s') = stream_next s; (hi', lo') = Mul64 x n
           in bounded_loop n thresh hi' lo' s'
      else Some (hi, s))"

declare bounded_loop.simps [code]

definition boundedUint64 :: "u64 \<Rightarrow> stream \<Rightarrow> (u64 \<times> stream) option" where
  "boundedUint64 n s =
     (let (x, s') = stream_next s; (hi, lo) = Mul64 x n
      in if lo < n then bounded_loop n (- n mod n) hi lo s' else Some (hi, s'))"

definition uniformDuration :: "duration \<Rightarrow> duration \<Rightarrow> stream \<Rightarrow> (duration \<times> stream) option" where
  "uniformDuration dmin dmax s =
     (let span = word_of_int (i64 (dmax - dmin)) + 1
      in map_option (\<lambda>(v, s'). (i64 (dmin + i64 (uint v)), s')) (boundedUint64 span s))"

definition corruptionSite :: "nat \<Rightarrow> stream \<Rightarrow> ((nat \<times> nat) \<times> stream) option" where
  "corruptionSite n s =
     do { (byteIndex, s1) \<leftarrow> boundedUint64 (word_of_nat n) s;
          (bitIndex, s2) \<leftarrow> boundedUint64 8 s1;
          Some ((unat byteIndex, unat bitIndex), s2) }"

section \<open>Arithmetic of the multiply-shift method\<close>

lemma unat_lt64: "unat (x :: u64) < 2 ^ 64"
  using unsigned_less [of x, where 'a = nat] by simp

lemma Mul64_halves:
  "unat (fst (Mul64 x y)) = unat x * unat y div 2 ^ 64"
  "unat (snd (Mul64 x y)) = unat x * unat y mod 2 ^ 64"
proof -
  have "unat x * unat y < 2 ^ 64 * 2 ^ 64"
    using unat_lt64 [of x] unat_lt64 [of y] by (rule mult_strict_mono) auto
  then have "unat x * unat y div 2 ^ 64 < 2 ^ 64"
    by (rule less_mult_imp_div_less)
  then show "unat (fst (Mul64 x y)) = unat x * unat y div 2 ^ 64"
    by (simp add: Mul64_def unat_of_nat)
  show "unat (snd (Mul64 x y)) = unat x * unat y mod 2 ^ 64"
    by (simp add: Mul64_def unat_word_ariths)
qed

lemma reject_threshold: "n \<noteq> 0 \<Longrightarrow> unat (- n mod n :: u64) = 2 ^ 64 mod unat n"
proof -
  assume "n \<noteq> 0"
  then have pos: "0 < unat n"
    by (simp add: unat_gt_0)
  have "(unat (- n) + unat n) mod 2 ^ 64 = 0"
    using unat_word_ariths(1) [of "- n" n] by simp
  then obtain q where q: "unat (- n) + unat n = 2 ^ 64 * q"
    by auto
  with pos unat_lt64 [of n] unat_lt64 [of "- n"] have "0 < q" "q < 2"
    by (cases q, simp_all)
  then have "q = 1" by simp
  with q have "unat (- n) = 2 ^ 64 - unat n"
    by simp
  then have "unat (- n mod n) = (2 ^ 64 - unat n) mod unat n"
    by (simp add: unat_mod)
  also have "\<dots> = 2 ^ 64 mod unat n"
    using unat_lt64 [of n] by (simp add: le_mod_geq)
  finally show ?thesis .
qed

definition draw_accepted :: "u64 \<Rightarrow> u64 \<Rightarrow> bool" where
  "draw_accepted n x \<longleftrightarrow> 2 ^ 64 mod unat n \<le> unat x * unat n mod 2 ^ 64"

definition draw_scaled :: "u64 \<Rightarrow> u64 \<Rightarrow> nat" where
  "draw_scaled n x = unat x * unat n div 2 ^ 64"

definition first_accepted :: "u64 \<Rightarrow> stream \<Rightarrow> nat \<Rightarrow> bool" where
  "first_accepted n s k \<longleftrightarrow>
     draw_accepted n (src s (pos s + k)) \<and> (\<forall>j < k. \<not> draw_accepted n (src s (pos s + j)))"

lemma accepted_iff:
  "n \<noteq> 0 \<Longrightarrow> draw_accepted n x \<longleftrightarrow> \<not> snd (Mul64 x n) < - n mod n"
  by (simp add: draw_accepted_def word_less_nat_alt reject_threshold Mul64_halves not_less)

lemma first_accepted_step:
  assumes "\<not> draw_accepted n (src s (pos s))"
  shows "first_accepted n s (Suc k) \<longleftrightarrow> first_accepted n (s\<lparr>pos := Suc (pos s)\<rparr>) k"
  using assms by (auto simp: first_accepted_def less_Suc_eq_0_disj)

lemma loop_first_accepted:
  assumes "n \<noteq> 0" "lo < - n mod n" "first_accepted n s k"
  shows "bounded_loop n (- n mod n) hi lo s
         = Some (fst (Mul64 (src s (pos s + k)) n), s\<lparr>pos := pos s + k + 1\<rparr>)"
  using assms(2,3)
proof (induction k arbitrary: s hi lo)
  case 0
  then have "\<not> snd (Mul64 (src s (pos s)) n) < - n mod n"
    using assms(1) by (simp add: first_accepted_def accepted_iff)
  with 0 show ?case
    by (simp add: bounded_loop.simps [of n _ hi lo] bounded_loop.simps [of n _ "fst (Mul64 (src s (pos s)) n)"] stream_next_def case_prod_beta)
next
  case (Suc k)
  then have na: "\<not> draw_accepted n (src s (pos s))"
    by (auto simp: first_accepted_def)
  then have lo': "snd (Mul64 (src s (pos s)) n) < - n mod n"
    using assms(1) by (simp add: accepted_iff)
  from na Suc.prems(2) have "first_accepted n (s\<lparr>pos := Suc (pos s)\<rparr>) k"
    by (simp add: first_accepted_step)
  from Suc.IH [OF lo' this] Suc.prems(1) show ?case
    by (simp add: bounded_loop.simps [of n _ hi lo] stream_next_def case_prod_beta)
qed

lemma loop_returns_accepted:
  assumes "bounded_loop n t hi lo s = Some (v, s')" "t = - n mod n" "n \<noteq> 0" "lo < t"
  shows "\<exists>k. first_accepted n s k"
proof -
  have "n \<noteq> 0 \<longrightarrow> t = - n mod n \<longrightarrow> lo < t \<longrightarrow> (\<exists>k. first_accepted n s k)"
  proof (rule bounded_loop.raw_induct
      [where P = "\<lambda>n t hi lo s r. n \<noteq> 0 \<longrightarrow> t = - n mod n \<longrightarrow> lo < t \<longrightarrow> (\<exists>k. first_accepted n s k)", OF _ assms(1)])
    fix f :: "u64 \<Rightarrow> u64 \<Rightarrow> u64 \<Rightarrow> u64 \<Rightarrow> stream \<Rightarrow> (u64 \<times> stream) option"
    fix n t hi lo :: u64 and s :: stream and r
    assume IH: "\<And>n t hi lo s r. f n t hi lo s = Some r \<Longrightarrow>
        n \<noteq> 0 \<longrightarrow> t = - n mod n \<longrightarrow> lo < t \<longrightarrow> (\<exists>k. first_accepted n s k)"
      and eq: "(if lo < t then let (x, s') = stream_next s; (hi', lo') = Mul64 x n in f n t hi' lo' s'
                else Some (hi, s)) = Some r"
    show "n \<noteq> 0 \<longrightarrow> t = - n mod n \<longrightarrow> lo < t \<longrightarrow> (\<exists>k. first_accepted n s k)"
    proof (intro impI)
      assume h: "n \<noteq> 0" "t = - n mod n" "lo < t"
      let ?m = "Mul64 (src s (pos s)) n" and ?s = "s\<lparr>pos := Suc (pos s)\<rparr>"
      from eq h have rec: "f n t (fst ?m) (snd ?m) ?s = Some r"
        by (simp add: stream_next_def case_prod_beta)
      show "\<exists>k. first_accepted n s k"
      proof (cases "draw_accepted n (src s (pos s))")
        case True
        then have "first_accepted n s 0" by (simp add: first_accepted_def)
        then show ?thesis ..
      next
        case False
        with h have "snd ?m < t" by (simp add: accepted_iff)
        with IH [OF rec] h obtain k where "first_accepted n ?s k" by blast
        with False have "first_accepted n s (Suc k)" by (simp add: first_accepted_step)
        then show ?thesis ..
      qed
    qed
  qed
  with assms show ?thesis by blast
qed

lemma first_accepted_exists:
  "(\<exists>k. draw_accepted n (src s (pos s + k))) \<longleftrightarrow> (\<exists>k. first_accepted n s k)"
  unfolding first_accepted_def
  using exists_least_iff [of "\<lambda>k. draw_accepted n (src s (pos s + k))"] by blast

lemma accepted_above: "n \<noteq> 0 \<Longrightarrow> \<not> snd (Mul64 x n) < n \<Longrightarrow> draw_accepted n x"
proof -
  assume "n \<noteq> 0" "\<not> snd (Mul64 x n) < n"
  moreover from \<open>n \<noteq> 0\<close> have "- n mod n < n"
    by (simp add: word_mod_less_divisor word_gt_0)
  ultimately show ?thesis by (simp add: accepted_iff)
qed

lemma first_accepted_unique: "first_accepted n s k \<Longrightarrow> first_accepted n s l \<Longrightarrow> k = l"
  unfolding first_accepted_def by (metis linorder_neqE_nat)

lemma boundedUint64_first:
  assumes "n \<noteq> 0" "first_accepted n s k"
  shows "boundedUint64 n s = Some (fst (Mul64 (src s (pos s + k)) n), s\<lparr>pos := pos s + k + 1\<rparr>)"
proof (cases k)
  case 0
  let ?m = "Mul64 (src s (pos s)) n"
  from 0 assms have "\<not> snd ?m < - n mod n"
    by (simp add: first_accepted_def accepted_iff)
  with 0 show ?thesis
    by (simp add: boundedUint64_def stream_next_def case_prod_beta bounded_loop.simps [of n _ "fst ?m"])
next
  case (Suc j)
  let ?m = "Mul64 (src s (pos s)) n" and ?s = "s\<lparr>pos := Suc (pos s)\<rparr>"
  from Suc assms have na: "\<not> draw_accepted n (src s (pos s))"
    by (auto simp: first_accepted_def)
  with assms accepted_above have "snd ?m < n" by blast
  moreover from na assms have "snd ?m < - n mod n" by (simp add: accepted_iff)
  moreover from na assms Suc have "first_accepted n ?s j" by (simp add: first_accepted_step)
  ultimately show ?thesis
    using loop_first_accepted [OF assms(1), of "snd ?m" ?s j "fst ?m"] Suc
    by (simp add: boundedUint64_def stream_next_def case_prod_beta)
qed

lemma boundedUint64_None:
  assumes "n \<noteq> 0" "\<nexists>k. first_accepted n s k"
  shows "boundedUint64 n s = None"
proof -
  let ?m = "Mul64 (src s (pos s)) n" and ?s = "s\<lparr>pos := Suc (pos s)\<rparr>"
  have na: "\<not> draw_accepted n (src s (pos s))"
    using assms(2) by (auto simp: first_accepted_def dest: spec [of _ 0])
  have none: "\<nexists>k. first_accepted n ?s k"
    using assms(2) first_accepted_step [OF na] by blast
  have lo: "snd ?m < n" "snd ?m < - n mod n"
    using na assms(1) accepted_above by (blast, simp add: accepted_iff)
  have "bounded_loop n (- n mod n) (fst ?m) (snd ?m) ?s = None"
  proof (rule ccontr)
    assume "bounded_loop n (- n mod n) (fst ?m) (snd ?m) ?s \<noteq> None"
    then obtain v s' where "bounded_loop n (- n mod n) (fst ?m) (snd ?m) ?s = Some (v, s')" by auto
    from loop_returns_accepted [OF this refl assms(1) lo(2)] none show False by blast
  qed
  with lo show ?thesis
    by (simp add: boundedUint64_def stream_next_def case_prod_beta)
qed

lemma boundedUint64_spec:
  assumes "n \<noteq> 0"
  shows "boundedUint64 n s = Some (v, s') \<longleftrightarrow>
    (\<exists>k. first_accepted n s k \<and> unat v = draw_scaled n (src s (pos s + k))
         \<and> s' = s\<lparr>pos := pos s + k + 1\<rparr>)"
proof (cases "\<exists>k. first_accepted n s k")
  case True
  then obtain k where k: "first_accepted n s k" ..
  have "unat v = draw_scaled n (src s (pos s + k)) \<longleftrightarrow> v = fst (Mul64 (src s (pos s + k)) n)"
    by (metis Mul64_halves(1) draw_scaled_def word_unat_eq_iff)
  with k boundedUint64_first [OF assms k] show ?thesis
    by (auto dest: first_accepted_unique [OF k])
next
  case False
  with boundedUint64_None [OF assms False] show ?thesis by auto
qed

lemma multiples_card:
  assumes "0 < (m :: nat)"
  shows "card {x. A \<le> x * m \<and> x * m < A + m * q} = q"
proof -
  have up: "B \<le> x * m \<longleftrightarrow> (B + (m - 1)) div m \<le> x" for B x
    using assms by (simp add: less_Suc_eq_le [symmetric] div_less_iff_less_mult) arith
  have "{x. A \<le> x * m \<and> x * m < A + m * q} = {(A + (m - 1)) div m ..< (A + m * q + (m - 1)) div m}"
    using up [of A] up [of "A + m * q"] by (auto simp: not_le [symmetric])
  moreover have "(A + m * q + (m - 1)) div m = (A + (m - 1)) div m + q"
    using assms by (metis add.assoc add.commute div_mult_self2 less_numeral_extra(3))
  ultimately show ?thesis by simp
qed

lemma card_u64:
  assumes "\<And>y. P y \<Longrightarrow> y < 2 ^ 64"
  shows "card {x :: u64. P (unat x)} = card {y. P y}"
proof -
  have "unat ` {x :: u64. P (unat x)} = {y. P y}"
  proof
    show "{y. P y} \<subseteq> unat ` {x :: u64. P (unat x)}"
    proof
      fix y assume "y \<in> {y. P y}"
      moreover from this assms have "unat (word_of_nat y :: u64) = y"
        by (simp add: unat_of_nat)
      ultimately show "y \<in> unat ` {x :: u64. P (unat x)}"
        by (metis (mono_tags) image_eqI mem_Collect_eq)
    qed
  qed auto
  moreover have "inj_on unat {x :: u64. P (unat x)}"
    by (simp add: inj_on_def word_unat_eq_iff)
  ultimately show ?thesis by (metis card_image)
qed

lemma div_mod_interval:
  assumes "t < (N :: nat)"
  shows "p div N = v \<and> t \<le> p mod N \<longleftrightarrow> v * N + t \<le> p \<and> p < v * N + N"
proof (cases "p div N = v")
  case True
  then have "p = v * N + p mod N" by (metis div_mult_mod_eq)
  moreover have "p mod N < N" using assms by simp
  ultimately show ?thesis using True by (metis add_less_cancel_left nat_add_left_cancel_le)
next
  case False
  then have "p < v * N \<or> v * N + N \<le> p"
    using assms div_less_iff_less_mult [of N p v] less_eq_div_iff_mult_less_eq [of N "Suc v" p]
    by auto
  with False show ?thesis by auto
qed

lemma bounded_unbiased:
  assumes "n \<noteq> 0" "v < unat n"
  shows "card {x. draw_accepted n x \<and> draw_scaled n x = v} = 2 ^ 64 div unat n"
proof -
  define m where "m = unat n"
  define t where "t = (2 ^ 64 :: nat) mod m"
  define q where "q = (2 ^ 64 :: nat) div m"
  have m: "0 < m" "v < m" using assms by (simp_all add: m_def unat_gt_0)
  have tq: "t + m * q = 2 ^ 64" by (simp add: t_def q_def)
  let ?S = "{x. v * 2 ^ 64 + t \<le> x * m \<and> x * m < v * 2 ^ 64 + t + m * q}"
  have mem: "draw_accepted n x \<and> draw_scaled n x = v \<longleftrightarrow> unat x \<in> ?S" for x
  proof -
    let ?p = "unat x * m"
    have "t < m" using m by (simp add: t_def)
    then have t: "t < 2 ^ 64" using unat_lt64 [of n] by (simp add: m_def)
    have "draw_accepted n x \<and> draw_scaled n x = v \<longleftrightarrow> t \<le> ?p mod 2 ^ 64 \<and> ?p div 2 ^ 64 = v"
      by (simp add: draw_accepted_def draw_scaled_def m_def t_def)
    also have "\<dots> \<longleftrightarrow> v * 2 ^ 64 + t \<le> ?p \<and> ?p < v * 2 ^ 64 + 2 ^ 64"
      using div_mod_interval [OF t] by (simp add: conj_commute)
    also have "\<dots> \<longleftrightarrow> unat x \<in> ?S" using tq by (simp add: add.assoc)
    finally show ?thesis .
  qed
  have "x < 2 ^ 64" if "x \<in> ?S" for x
  proof -
    from that have "x * m < (v + 1) * 2 ^ 64" using tq by simp
    also have "\<dots> \<le> m * 2 ^ 64" using m by (intro mult_right_mono) auto
    finally show ?thesis by (simp add: mult.commute)
  qed
  then have "card {x. draw_accepted n x \<and> draw_scaled n x = v} = card ?S"
    unfolding mem using card_u64 [of "\<lambda>y. y \<in> ?S"] by simp
  also have "\<dots> = q" by (rule multiples_card [OF m(1)])
  finally show ?thesis by (simp add: q_def m_def)
qed

lemma boundedUint64_bound:
  assumes "boundedUint64 n s = Some (v, s')" "n \<noteq> 0"
  shows "v < n"
proof -
  from assms obtain k where "unat v = draw_scaled n (src s (pos s + k))"
    using boundedUint64_spec by blast
  moreover have "draw_scaled n x < unat n" for x
    using unat_lt64 [of x] assms(2)
    by (simp add: draw_scaled_def div_less_iff_less_mult mult.commute [of "unat n"] unat_gt_0)
  ultimately show ?thesis by (simp add: word_less_nat_alt)
qed

lemma bernoulli_threshold:
  "bernoulli (Finite r) s =
     (unat (src s (pos s)) < 2048 * nat \<lceil>r * 2 ^ 53\<rceil>, s\<lparr>pos := Suc (pos s)\<rparr>)"
proof -
  let ?x = "src s (pos s)"
  have y: "unat (drop_bit 11 ?x) = unat ?x div 2048"
    by (simp add: drop_bit_eq_div unat_div)
  have "(of_nat (unat ?x div 2048) / 2 ^ 53 < r) \<longleftrightarrow> of_nat (unat ?x div 2048) < r * 2 ^ 53"
    by (simp add: divide_less_eq)
  also have "\<dots> \<longleftrightarrow> int (unat ?x div 2048) < \<lceil>r * 2 ^ 53\<rceil>"
    by (simp add: less_ceiling_iff)
  also have "\<dots> \<longleftrightarrow> unat ?x div 2048 < nat \<lceil>r * 2 ^ 53\<rceil>"
    by (simp add: zless_nat_eq_int_zless)
  also have "\<dots> \<longleftrightarrow> unat ?x < 2048 * nat \<lceil>r * 2 ^ 53\<rceil>"
    by (simp add: div_less_iff_less_mult mult.commute)
  finally have mid: "(of_nat (unat ?x div 2048) / 2 ^ 53 < r) \<longleftrightarrow> unat ?x < 2048 * nat \<lceil>r * 2 ^ 53\<rceil>" .
  have high: "unat ?x < 2048 * nat \<lceil>r * 2 ^ 53\<rceil>" if "1 \<le> r"
  proof -
    from that have "(2 ^ 53 :: int) \<le> \<lceil>r * 2 ^ 53\<rceil>"
      by (simp add: le_ceiling_iff)
    then have "nat (2 ^ 53) \<le> nat \<lceil>r * 2 ^ 53\<rceil>" by (rule nat_mono)
    with unat_lt64 [of ?x] show ?thesis by simp
  qed
  have low: "nat \<lceil>r * 2 ^ 53\<rceil> = 0" if "r \<le> 0"
    using that by (simp add: ceiling_le_zero mult_nonpos_nonneg)
  show ?thesis
    using mid high low by (auto simp: bernoulli_def stream_next_def y not_less)
qed


lemma boundedUint64_returns:
  assumes "n \<noteq> 0"
  shows "(\<exists>v s'. boundedUint64 n s = Some (v, s')) \<longleftrightarrow> (\<exists>k. draw_accepted n (src s (pos s + k)))"
proof -
  have "(\<exists>v s'. boundedUint64 n s = Some (v, s')) \<longleftrightarrow> (\<exists>k. first_accepted n s k)"
    using boundedUint64_first [OF assms] boundedUint64_None [OF assms] by (metis option.distinct(1))
  then show ?thesis by (simp add: first_accepted_exists)
qed

lemma boundedUint64_src:
  "boundedUint64 n s = Some (v, s') \<Longrightarrow> n \<noteq> 0 \<Longrightarrow> src s' = src s \<and> pos s < pos s'"
  by (auto simp: boundedUint64_spec)

lemma power_of_two_accepted: "2 ^ 64 mod unat n = 0 \<Longrightarrow> draw_accepted n x"
  by (simp add: draw_accepted_def)

lemma boundedUint64_one_draw:
  assumes "2 ^ 64 mod unat n = 0" "n \<noteq> 0"
  shows "boundedUint64 n s = Some (fst (Mul64 (src s (pos s)) n), s\<lparr>pos := Suc (pos s)\<rparr>)"
proof -
  from assms(1) have "first_accepted n s 0"
    by (simp add: first_accepted_def power_of_two_accepted)
  from boundedUint64_first [OF assms(2) this] show ?thesis by simp
qed

text \<open>The validated range of a latency: what \<open>validateLatencyRange\<close> lets through.\<close>

definition latency_range_ok :: "duration \<Rightarrow> duration \<Rightarrow> bool" where
  "latency_range_ok dmin dmax \<longleftrightarrow> 0 \<le> dmin \<and> dmin \<le> dmax \<and> dmax \<le> maxDuration"

definition duration_span :: "duration \<Rightarrow> duration \<Rightarrow> u64" where
  "duration_span dmin dmax = word_of_int (i64 (dmax - dmin)) + 1"

lemma uniformDuration_span:
  "uniformDuration dmin dmax s =
     map_option (\<lambda>(v, s'). (i64 (dmin + i64 (uint v)), s')) (boundedUint64 (duration_span dmin dmax) s)"
  by (simp add: uniformDuration_def duration_span_def)

lemma uint_u64_of_int: "0 \<le> k \<Longrightarrow> k < 2 ^ 64 \<Longrightarrow> uint (word_of_int k :: u64) = k"
  by (simp add: uint_word_of_int)

lemma duration_span_nat:
  assumes "latency_range_ok dmin dmax"
  shows "unat (duration_span dmin dmax) = nat (dmax - dmin) + 1"
proof -
  from assms have "duration_span dmin dmax = word_of_int (dmax - dmin + 1)"
    by (simp add: duration_span_def latency_range_ok_def i64_id minDuration_def)
  moreover from assms have "0 \<le> dmax - dmin + 1" "dmax - dmin + 1 < 2 ^ 64"
    by (auto simp: latency_range_ok_def maxDuration_def)
  ultimately have "uint (duration_span dmin dmax) = dmax - dmin + 1"
    by (simp only: uint_u64_of_int)
  moreover have "uint (duration_span dmin dmax) = int (unat (duration_span dmin dmax))"
    by simp
  moreover from assms have "dmin \<le> dmax" by (simp add: latency_range_ok_def)
  ultimately show ?thesis by linarith
qed

lemma duration_span_nonzero: "latency_range_ok dmin dmax \<Longrightarrow> duration_span dmin dmax \<noteq> 0"
  using duration_span_nat by fastforce

lemma uniformDuration_range:
  assumes "latency_range_ok dmin dmax" "uniformDuration dmin dmax s = Some (d, s')"
  shows "dmin \<le> d \<and> d \<le> dmax"
proof -
  from assms(2) obtain v where v: "boundedUint64 (duration_span dmin dmax) s = Some (v, s')"
    and d: "d = i64 (dmin + i64 (uint v))"
    by (auto simp: uniformDuration_span)
  from boundedUint64_bound [OF v duration_span_nonzero [OF assms(1)]]
  have "unat v \<le> nat (dmax - dmin)"
    using duration_span_nat [OF assms(1)] by (simp add: word_less_nat_alt)
  moreover have "uint v = int (unat v)" by simp
  moreover from assms(1) have range: "0 \<le> dmin" "dmin \<le> dmax" "dmax \<le> maxDuration"
    by (simp_all add: latency_range_ok_def)
  ultimately have uv: "0 \<le> uint v" "uint v \<le> dmax - dmin" by linarith+
  have "i64 (uint v) = uint v"
    using uv range by (intro i64_nonneg) linarith+
  moreover have "i64 (dmin + uint v) = dmin + uint v"
    using uv range by (intro i64_nonneg) linarith+
  ultimately show ?thesis using uv by (simp add: d)
qed

lemma uniformDuration_fixed:
  assumes "0 \<le> d" "d \<le> maxDuration"
  shows "uniformDuration d d s = Some (d, s\<lparr>pos := Suc (pos s)\<rparr>)"
proof -
  have span: "duration_span d d = 1"
    by (simp add: duration_span_def i64_def)
  then have "2 ^ 64 mod unat (duration_span d d) = 0" "duration_span d d \<noteq> 0"
    by simp_all
  from boundedUint64_one_draw [OF this, of s] show ?thesis
    using uniformDuration_range [of d d s] assms
    by (simp add: uniformDuration_span latency_range_ok_def span)
qed

lemma corruptionSite_bounds:
  assumes "corruptionSite n s = Some ((i, b), s')" "0 < n" "n < 2 ^ 64"
  shows "i < n \<and> b < 8"
proof -
  from assms(1) obtain v w s1 where v: "boundedUint64 (word_of_nat n) s = Some (v, s1)"
    and w: "boundedUint64 8 s1 = Some (w, s')" and ib: "i = unat v" "b = unat w"
    by (auto simp: corruptionSite_def split: Option.bind_splits)
  have un: "unat (word_of_nat n :: u64) = n" using assms(3) by (simp add: unat_of_nat)
  then have "(word_of_nat n :: u64) \<noteq> 0" using assms(2) by (metis less_numeral_extra(3) unat_0)
  from boundedUint64_bound [OF v this] boundedUint64_bound [OF w]
  show ?thesis using un by (simp add: ib word_less_nat_alt)
qed


section \<open>The derivation is injective\<close>

lemma be64_inj: "be64 v = be64 w \<longleftrightarrow> v = w"
proof
  assume eq: "be64 v = be64 w"
  show "v = w"
  proof (rule bit_word_eqI)
    fix n :: nat assume n: "n < LENGTH(64)"
    let ?i = "7 - n div 8"
    from n have i: "?i < 8" "8 * (7 - ?i) + n mod 8 = n" by simp_all
    have "be64 v ! ?i = be64 w ! ?i" by (simp only: eq)
    then have "(ucast (drop_bit (8 * (7 - ?i)) v) :: u8) = ucast (drop_bit (8 * (7 - ?i)) w)"
      using i(1) by (simp add: be64_def)
    then have "bit (ucast (drop_bit (8 * (7 - ?i)) v) :: u8) (n mod 8)
             = bit (ucast (drop_bit (8 * (7 - ?i)) w) :: u8) (n mod 8)" by (simp only:)
    then show "bit v n = bit w n"
      by (simp add: bit_simps i(2) del: diff_diff_cancel)
  qed
qed simp

lemma length_be64: "length (be64 w) = 8"
  by (simp add: be64_def)

lemma sint_u64_of_int: "sint (word_of_int k :: u64) = i64 k"
  by (simp add: i64_def signed_of_int)

lemma derive_input_inj:
  assumes "minDuration \<le> s" "s \<le> maxDuration" "minDuration \<le> s'" "s' \<le> maxDuration"
    and "o1 < 2 ^ 64" "o2 < 2 ^ 64"
    and eq: "derive_input s o1 sd k = derive_input s' o2 sd' k'"
  shows "s = s' \<and> o1 = o2 \<and> sd = sd' \<and> k = k'"
proof -
  from eq have "be64 (word_of_int s) = be64 (word_of_int s')"
    and "be64 (word_of_nat o1) = be64 (word_of_nat o2)"
    and tl: "side_byte sd = side_byte sd'" "kind_byte k = kind_byte k'"
    by (simp_all add: derive_input_def length_be64)
  then have ws: "(word_of_int s :: u64) = word_of_int s'" and wo: "(word_of_nat o1 :: u64) = word_of_nat o2"
    by (simp_all add: be64_inj)
  from arg_cong [OF ws, of sint] assms have "s = s'"
    by (simp only: sint_u64_of_int i64_id)
  moreover from arg_cong [OF wo, of unat] assms have "o1 = o2"
    by (simp add: unat_of_nat)
  moreover from tl(1) have "sd = sd'"
    by (cases sd; cases sd'; simp)
  moreover from tl(2) have "k = k'"
    by (cases k; cases k'; simp)
  ultimately show ?thesis by simp
qed

lemma derive_input_same_seed:
  fixes o1 o2 :: u64
  assumes "derive_input s (unat o1) sd k = derive_input s (unat o2) sd' k'"
  shows "o1 = o2 \<and> sd = sd' \<and> k = k'"
proof -
  from assms have "be64 (word_of_nat (unat o1)) = be64 (word_of_nat (unat o2))"
    "side_byte sd = side_byte sd'" "kind_byte k = kind_byte k'"
    by (simp_all add: derive_input_def length_be64)
  then show ?thesis by (cases sd; cases sd'; cases k; cases k'; simp add: be64_inj)
qed

section \<open>Properties\<close>

text \<open>
  A bounded draw consumes raw draws up to and including the first one outside the biased
  zone, and its value is that draw scaled; it returns exactly when such a draw exists.
\<close>

lemma bounded_draw_exact:
  assumes "n \<noteq> 0"
  shows "(boundedUint64 n s = Some (v, s') \<longleftrightarrow>
      (\<exists>k. first_accepted n s k \<and> unat v = draw_scaled n (src s (pos s + k))
           \<and> s' = s\<lparr>pos := pos s + k + 1\<rparr>))
    \<and> (boundedUint64 n s = None \<longleftrightarrow> (\<forall>k. \<not> draw_accepted n (src s (pos s + k))))"
proof
  have "(\<exists>v s'. boundedUint64 n s = Some (v, s')) \<longleftrightarrow> boundedUint64 n s \<noteq> None"
    by (cases "boundedUint64 n s") auto
  then show "boundedUint64 n s = None \<longleftrightarrow> (\<forall>k. \<not> draw_accepted n (src s (pos s + k)))"
    using boundedUint64_returns [OF assms, of s] by blast
qed (rule boundedUint64_spec [OF assms])

lemma bounded_draw_exact_witness:
  "boundedUint64 10 \<lparr>src = (\<lambda>i. if i = 0 then 0 else 9223372036854775809), pos = 0\<rparr>
     = Some (5, \<lparr>src = (\<lambda>i. if i = 0 then 0 else 9223372036854775809), pos = 2\<rparr>)"
  by (rule bounded_draw_exact [THEN conjunct1, THEN iffD2], simp, rule exI [of _ 1])
     (simp add: first_accepted_def draw_accepted_def draw_scaled_def)

text \<open>
  A latency draw for a validated range stays inside the range, and for a fixed latency it
  is that latency at the cost of exactly one raw draw.
\<close>

lemma latency_draw_in_range:
  assumes "latency_range_ok dmin dmax" "uniformDuration dmin dmax s = Some (d, s')"
  shows "dmin \<le> d \<and> d \<le> dmax \<and> (dmin = dmax \<longrightarrow> d = dmin \<and> s' = s\<lparr>pos := Suc (pos s)\<rparr>)"
proof -
  have "uniformDuration dmin dmin s = Some (dmin, s\<lparr>pos := Suc (pos s)\<rparr>)"
    using assms(1) by (intro uniformDuration_fixed) (simp_all add: latency_range_ok_def)
  with assms uniformDuration_range [OF assms] show ?thesis by auto
qed

lemma latency_draw_in_range_witness:
  "latency_range_ok 7 7 \<and> uniformDuration 7 7 \<lparr>src = (\<lambda>_. 42), pos = 3\<rparr> = Some (7, \<lparr>src = (\<lambda>_. 42), pos = 4\<rparr>)
   \<and> (7 :: int) \<le> 7"
proof -
  have "latency_range_ok 7 7" by (simp add: latency_range_ok_def maxDuration_def)
  moreover have "uniformDuration 7 7 \<lparr>src = (\<lambda>_. 42), pos = 3\<rparr> = Some (7, \<lparr>src = (\<lambda>_. 42), pos = 4\<rparr>)"
    using uniformDuration_fixed [of 7 "\<lparr>src = (\<lambda>_. 42), pos = 3\<rparr>"] by (simp add: maxDuration_def)
  moreover have "(7 :: int) \<le> 7"
    using latency_draw_in_range [OF calculation] by simp
  ultimately show ?thesis by simp
qed

text \<open>
  The streams of a run are keyed apart: two inputs to the key derivation coincide only for
  the same master seed, ordinal, side and fault kind.
\<close>

lemma derivation_injective:
  assumes "minDuration \<le> s" "s \<le> maxDuration" "minDuration \<le> s'" "s' \<le> maxDuration"
    and "o1 < 2 ^ 64" "o2 < 2 ^ 64"
  shows "derive_input s o1 sd k = derive_input s' o2 sd' k' \<longleftrightarrow> s = s' \<and> o1 = o2 \<and> sd = sd' \<and> k = k'"
  using derive_input_inj [OF assms] by auto

lemma derivation_injective_witness:
  "derive_input 7 0 sideDialer kindLoss \<noteq> derive_input 7 0 sideDialer kindLatency"
  using derivation_injective [of 7 7 0 0 sideDialer kindLoss sideDialer kindLatency]
  by (simp add: minDuration_def maxDuration_def)

text \<open>
  C38. A coin flip with a rate in range takes one raw draw and is true for exactly
  \<open>2048 * ceiling (rate * 2^53)\<close> of the raw values: never at rate 0, always at rate 1.
\<close>

theorem bernoulli_exact:
  "bernoulli (Finite r) s =
     (unat (src s (pos s)) < 2048 * nat \<lceil>r * 2 ^ 53\<rceil>, s\<lparr>pos := Suc (pos s)\<rparr>)"
  by (rule bernoulli_threshold)

text \<open>
  C37. Whatever comes after it, the first raw draw decides a bounded draw by itself in
  \<open>2^64 div n\<close> of its values for each result below the bound: the bounded draw is exactly
  uniform over the range, with no bias towards small values.
\<close>

theorem bounded_draw_uniform:
  assumes "n \<noteq> 0" "v < n"
  shows "card {x. boundedUint64 n \<lparr>src = case_nat x rest, pos = 0\<rparr>
                    = Some (v, \<lparr>src = case_nat x rest, pos = 1\<rparr>)} = 2 ^ 64 div unat n"
proof -
  have "boundedUint64 n \<lparr>src = case_nat x rest, pos = 0\<rparr> = Some (v, \<lparr>src = case_nat x rest, pos = 1\<rparr>)
      \<longleftrightarrow> draw_accepted n x \<and> draw_scaled n x = unat v" for x
    by (simp add: boundedUint64_spec [OF assms(1)] first_accepted_def) (auto simp: eq_commute)
  with bounded_unbiased [OF assms(1), of "unat v"] assms(2) show ?thesis
    by (simp add: word_less_nat_alt)
qed

theorem bounded_draw_uniform_witness:
  "card {x. boundedUint64 10 \<lparr>src = case_nat x (\<lambda>_. 0), pos = 0\<rparr>
              = Some (3, \<lparr>src = case_nat x (\<lambda>_. 0), pos = 1\<rparr>)} = 1844674407370955161"
  using bounded_draw_uniform [of 10 3 "\<lambda>_. 0"] by simp

end
