(* ===== verification/Bandwidth.thy ===== *)
theory Bandwidth
  imports Rand
begin

text \<open>
  The serialization delay of \<open>bandwidth.go\<close>: a 128-bit product and quotient on 64-bit halves,
  clamped to the largest duration.
\<close>

text \<open>
  \<open>bits.Div64\<close> divides the 128-bit \<open>hi:lo\<close> by \<open>y\<close>; it panics when \<open>y\<close> is zero or the
  quotient does not fit in 64 bits.
\<close>

definition Div64 :: "u64 \<Rightarrow> u64 \<Rightarrow> u64 \<Rightarrow> (u64 \<times> u64) option" where
  "Div64 hi lo y =
     (if y \<le> hi then None
      else let n = unat hi * 2 ^ 64 + unat lo
           in Some (word_of_nat (n div unat y), word_of_nat (n mod unat y)))"

definition second_ns :: int where
  "second_ns = 1000000000"

definition serializationDelay :: "int \<Rightarrow> int \<Rightarrow> duration option" where
  "serializationDelay sz bytesPerSecond =
     (let (hi, lo) = Mul64 (word_of_int sz) (word_of_int second_ns);
          divisor = word_of_int bytesPerSecond
      in if divisor \<le> hi then Some maxDuration
         else do { (q, r) \<leftarrow> Div64 hi lo divisor;
                   if word_of_int maxDuration < q then Some maxDuration
                   else Some (i64 (uint q)) })"

section \<open>The exact value\<close>

lemma serializationDelay_eq:
  assumes "0 \<le> sz" "sz < 2 ^ 63" "0 < bps" "bps < 2 ^ 63"
  shows "serializationDelay sz bps = Some (min (sz * second_ns div bps) maxDuration)"
proof -
  define n where "n = nat sz * 1000000000"
  define d where "d = nat bps"
  define hi where "hi = fst (Mul64 (word_of_int sz) (word_of_int second_ns))"
  define lo where "lo = snd (Mul64 (word_of_int sz) (word_of_int second_ns))"
  have us: "unat (word_of_int sz :: u64) = nat sz" "unat (word_of_int bps :: u64) = d"
    "unat (word_of_int second_ns :: u64) = 1000000000" "unat (word_of_int maxDuration :: u64) = 2 ^ 63 - 1"
    using assms uint_u64_of_int [of sz] uint_u64_of_int [of bps]
    by (simp_all add: d_def second_ns_def maxDuration_def flip: nat_uint_eq)
  have n: "unat hi = n div 2 ^ 64" "unat lo = n mod 2 ^ 64"
    by (simp_all add: hi_def lo_def Mul64_halves us n_def)
  define v where "v = n div d"
  have int_q: "int v = sz * second_ns div bps"
    using assms by (simp add: v_def n_def d_def second_ns_def zdiv_int)
  have d: "0 < d" "d < 2 ^ 64" using assms by (simp_all add: d_def)
  have fits: "word_of_int bps \<le> hi \<longleftrightarrow> 2 ^ 64 \<le> v"
  proof -
    have "word_of_int bps \<le> hi \<longleftrightarrow> d \<le> n div 2 ^ 64"
      by (simp add: word_le_nat_alt us n)
    also have "\<dots> \<longleftrightarrow> 2 ^ 64 \<le> v"
      using d by (simp add: v_def less_eq_div_iff_mult_less_eq mult.commute)
    finally show ?thesis .
  qed
  show ?thesis
  proof (cases "word_of_int bps \<le> hi")
    case True
    then have "2 ^ 64 \<le> v" by (simp only: fits)
    then have "maxDuration \<le> sz * second_ns div bps"
      unfolding int_q [symmetric] maxDuration_def by simp
    with True show ?thesis
      by (simp add: serializationDelay_def hi_def case_prod_beta)
  next
    case False
    then have small: "v < 2 ^ 64" by (simp add: fits)
    have "unat hi * 2 ^ 64 + unat lo = n"
      unfolding n by (rule div_mult_mod_eq)
    with False have div: "Div64 hi lo (word_of_int bps) = Some (word_of_nat v, word_of_nat (n mod d))"
      by (simp add: Div64_def us v_def)
    have uq: "unat (word_of_nat v :: u64) = v"
      using small by (simp add: unat_of_nat)
    then have cmp: "(word_of_int maxDuration :: u64) < word_of_nat v \<longleftrightarrow> maxDuration < int v"
      by (simp add: word_less_nat_alt us) (simp add: maxDuration_def)
    have uiq: "uint (word_of_nat v :: u64) = int v"
      using uq by (simp only: uint_nat)
    have "serializationDelay sz bps =
        (if maxDuration < int v then Some maxDuration else Some (i64 (int v)))"
      using False div cmp uiq
      by (simp add: serializationDelay_def hi_def [symmetric] lo_def [symmetric] case_prod_beta)
    then show ?thesis
      by (simp add: int_q [symmetric] i64_nonneg min_def)
  qed
qed

lemma serializationDelay_bounds:
  assumes "0 \<le> sz" "sz < 2 ^ 63" "0 < bps" "bps < 2 ^ 63"
  obtains d where "serializationDelay sz bps = Some d" "0 \<le> d" "d \<le> maxDuration"
  using serializationDelay_eq [OF assms] assms
  by (simp add: pos_imp_zdiv_nonneg_iff second_ns_def maxDuration_def)

section \<open>Properties\<close>

text \<open>
  The serialization delay is the exact quotient of size times one second by the rate,
  clamped to the largest duration: no wrap-around and no rounding of the product.
\<close>

lemma serialization_exact:
  assumes "0 \<le> sz" "sz < 2 ^ 63" "0 < bps" "bps < 2 ^ 63"
  shows "serializationDelay sz bps = Some (min (sz * second_ns div bps) maxDuration)"
  using assms by (rule serializationDelay_eq)

lemma serialization_exact_witness:
  "serializationDelay 1500 1000 = Some 1500000000
   \<and> serializationDelay (2 ^ 62) 1 = Some maxDuration"
  using serialization_exact [of 1500 1000] serialization_exact [of "2 ^ 62" 1]
  by (simp add: second_ns_def maxDuration_def)

end
