(* ===== verification/Pipe.thy ===== *)
theory Pipe
  imports Partition Bandwidth
begin

text \<open>
  One direction of a connection (\<open>pipe.go\<close>, \<open>latency.go\<close>, the recorder of \<open>trace.go\<close>): a
  bounded queue of whole writes with a latency line in front of it. Every operation here runs
  under the pipe's mutex in the source, so each is one function from the pipe's state to the
  next; what it reads outside the pipe (the clock, the partition table, the live fault
  configuration) is passed in as an \<open>env\<close>.
\<close>

section \<open>State\<close>

record env =
  env_now :: time
  env_parts :: partTable
  env_faults :: faultConfig

text \<open>One recorded decision (\<open>faultEvent\<close>).\<close>

record faultEvent =
  ev_seq :: nat
  ev_partitioned :: bool
  ev_dropped :: bool
  ev_duplicated :: bool
  ev_corrupted :: bool
  ev_drawn :: duration
  ev_serialized :: duration
  ev_effective :: duration
  ev_size :: nat
  ev_corruptByte :: nat
  ev_corruptBit :: nat

definition zeroEvent :: faultEvent where
  "zeroEvent =
     \<lparr>ev_seq = 0, ev_partitioned = False, ev_dropped = False, ev_duplicated = False,
      ev_corrupted = False, ev_drawn = 0, ev_serialized = 0, ev_effective = 0, ev_size = 0,
      ev_corruptByte = 0, ev_corruptBit = 0\<rparr>"

record faultPolicy =
  fp_network :: bool \<comment> \<open>whether \<open>network\<close> is not nil\<close>
  fp_pair :: pairKey
  fp_static :: faultConfig

text \<open>The two functions a pipe's \<open>deliver\<close> field ever holds.\<close>

datatype deliverFunc = PassThroughDeliver | FaultEvaluator faultPolicy

record pendingUnit =
  pu_data :: bytes
  releaseAt :: time

text \<open>
  \<open>notify\<close> is the current notification channel by its number, \<open>timer\<close> the instant the live
  timer fires at (\<open>None\<close> for a nil timer). The streams are \<open>None\<close> for a pipe created without
  fault wiring; \<open>trace\<close> is \<open>None\<close> without a recorder.
\<close>

record pipe =
  readable :: "bytes list"
  bufBytes :: int
  p_closed :: bool
  readClosed :: bool
  eofSeen :: bool
  notify :: nat
  bound :: int
  deliver :: deliverFunc
  partitionNetwork :: bool
  partitionPair :: pairKey
  loss :: "stream option"
  latency :: "stream option"
  duplicate :: "stream option"
  corrupt :: "stream option"
  trace :: "faultEvent list option"
  pending :: "pendingUnit list"
  timer :: "time option"
  busyUntil :: time
  arms :: nat

definition newPipe :: "int \<Rightarrow> pipe" where
  "newPipe b =
     \<lparr>readable = [], bufBytes = 0, p_closed = False, readClosed = False, eofSeen = False,
      notify = 0, bound = b, deliver = PassThroughDeliver, partitionNetwork = False,
      partitionPair = ([], []), loss = None, latency = None, duplicate = None, corrupt = None,
      trace = None, pending = [], timer = None, busyUntil = 0, arms = 0\<rparr>"

definition broadcastLocked :: "pipe \<Rightarrow> pipe" where
  "broadcastLocked p = p\<lparr>notify := Suc (notify p)\<rparr>"

definition charge :: "bytes \<Rightarrow> pipe \<Rightarrow> pipe" where
  "charge data p = p\<lparr>bufBytes := bufBytes p + int (length data)\<rparr>"

text \<open>The recorder numbers each event with its position.\<close>

definition record_event :: "faultEvent \<Rightarrow> pipe \<Rightarrow> pipe" where
  "record_event e p = p\<lparr>trace := map_option (\<lambda>evs. evs @ [e\<lparr>ev_seq := length evs\<rparr>]) (trace p)\<rparr>"

section \<open>Reading\<close>

text \<open>The channels a blocked operation waits on: a pipe's own, or the partition table's.\<close>

datatype chan = NotifyCh nat | PartCh nat

datatype 'a attempt = Done 'a "go_error option" | Wait chan

text \<open>
  The copy loop of \<open>tryRead\<close>: \<open>room\<close> is what is left of the caller's buffer. A chunk that
  does not fit is split and the loop ends with the buffer full.
\<close>

function consume :: "nat \<Rightarrow> bytes list \<Rightarrow> bytes \<times> bytes list" where
  "consume room [] = ([], [])"
| "consume room (chunk # q) =
     (if room = 0 then ([], chunk # q)
      else let copied = min room (length chunk)
           in if copied = length chunk
              then let (out, q') = consume (room - copied) q in (chunk @ out, q')
              else let (out, q') = consume (room - copied) (drop copied chunk # q)
                   in (take copied chunk @ out, q'))"
  by pat_completeness auto
termination
  by (relation "measures [\<lambda>(room, q). length q, \<lambda>(room, q). room]") auto

definition tryRead :: "env \<Rightarrow> nat \<Rightarrow> pipe \<Rightarrow> bytes attempt \<times> pipe" where
  "tryRead e len p =
     (if readClosed p then (Done [] (Some EOF), p)
      else
        let queued = readable p \<noteq> [];
            (out, q) = consume len (readable p);
            p1 = (if queued
                  then broadcastLocked (p\<lparr>readable := q, bufBytes := bufBytes p - int (length out)\<rparr>)
                  else p)
        in if queued \<and> (out \<noteq> [] \<or> len = 0) then (Done out None, p1)
           else if p_closed p1 \<and> pending p1 = [] then
             if eofSeen p1 then (Done [] (Some EOF), p1)
             else
               let (partitioned, ch) = checkPartition (partitionPair p1) (env_parts e)
               in if partitionNetwork p1 \<and> partitioned then (Wait (PartCh ch), p1)
                  else (Done [] (Some EOF), p1\<lparr>eofSeen := True\<rparr>)
           else (Wait (NotifyCh (notify p1)), p1))"

section \<open>The latency timer\<close>

definition armLatencyTimerLocked :: "env \<Rightarrow> pipe \<Rightarrow> pipe" where
  "armLatencyTimerLocked e p =
     (let p1 = p\<lparr>arms := Suc (arms p), timer := None\<rparr>
      in case pending p1 of
           [] \<Rightarrow> p1
         | u # us \<Rightarrow>
             let delay = time_sub (releaseAt u) (env_now e);
                 delay' = (if delay < 0 then 0 else delay)
             in p1\<lparr>timer := Some (time_add (env_now e) delay')\<rparr>)"

definition armLatencyForAppendLocked :: "env \<Rightarrow> pipe \<Rightarrow> pipe" where
  "armLatencyForAppendLocked e p =
     (if length (pending p) \<noteq> 1 then p else armLatencyTimerLocked e p)"

definition releaseDueLatency :: "env \<Rightarrow> pipe \<Rightarrow> pipe" where
  "releaseDueLatency e p =
     (if readClosed p then p
      else
        let due = takeWhile (\<lambda>u. releaseAt u \<le> env_now e) (pending p);
            p1 = p\<lparr>readable := readable p @ map pu_data due\<rparr>;
            p2 = (if due \<noteq> []
                  then broadcastLocked (p1\<lparr>pending := drop (length due) (pending p1)\<rparr>)
                  else p1)
        in armLatencyTimerLocked e p2)"

section \<open>Closing\<close>

definition close_pipe :: "pipe \<Rightarrow> pipe" where
  "close_pipe p = (if p_closed p then p else broadcastLocked (p\<lparr>p_closed := True\<rparr>))"

definition abort :: "pipe \<Rightarrow> pipe" where
  "abort p =
     (if readClosed p then p
      else broadcastLocked
             (p\<lparr>readClosed := True, p_closed := True, timer := None, pending := [],
                readable := [], bufBytes := 0\<rparr>))"

section \<open>Delivering without faults\<close>

definition passThroughDeliver :: "bytes \<Rightarrow> pipe \<Rightarrow> pipe" where
  "passThroughDeliver data p = broadcastLocked (p\<lparr>readable := readable p @ [data]\<rparr>)"

section \<open>Fields an operation leaves alone\<close>

lemma broadcast_frame [simp, frame_simps]:
  "readable (broadcastLocked p) = readable p" "bufBytes (broadcastLocked p) = bufBytes p"
  "p_closed (broadcastLocked p) = p_closed p" "readClosed (broadcastLocked p) = readClosed p"
  "eofSeen (broadcastLocked p) = eofSeen p" "notify (broadcastLocked p) = Suc (notify p)"
  "bound (broadcastLocked p) = bound p" "deliver (broadcastLocked p) = deliver p"
  "partitionNetwork (broadcastLocked p) = partitionNetwork p"
  "partitionPair (broadcastLocked p) = partitionPair p"
  "loss (broadcastLocked p) = loss p" "latency (broadcastLocked p) = latency p"
  "duplicate (broadcastLocked p) = duplicate p" "corrupt (broadcastLocked p) = corrupt p"
  "trace (broadcastLocked p) = trace p" "pending (broadcastLocked p) = pending p"
  "timer (broadcastLocked p) = timer p" "busyUntil (broadcastLocked p) = busyUntil p"
  "arms (broadcastLocked p) = arms p"
  by (simp_all add: broadcastLocked_def)

lemma record_frame [simp, frame_simps]:
  "readable (record_event e p) = readable p" "bufBytes (record_event e p) = bufBytes p"
  "p_closed (record_event e p) = p_closed p" "readClosed (record_event e p) = readClosed p"
  "eofSeen (record_event e p) = eofSeen p" "notify (record_event e p) = notify p"
  "bound (record_event e p) = bound p" "deliver (record_event e p) = deliver p"
  "partitionNetwork (record_event e p) = partitionNetwork p"
  "partitionPair (record_event e p) = partitionPair p"
  "loss (record_event e p) = loss p" "latency (record_event e p) = latency p"
  "duplicate (record_event e p) = duplicate p" "corrupt (record_event e p) = corrupt p"
  "pending (record_event e p) = pending p"
  "timer (record_event e p) = timer p" "busyUntil (record_event e p) = busyUntil p"
  "arms (record_event e p) = arms p"
  by (simp_all add: record_event_def)

lemma arm_frame [simp, frame_simps]:
  "readable (armLatencyTimerLocked e p) = readable p" "bufBytes (armLatencyTimerLocked e p) = bufBytes p"
  "p_closed (armLatencyTimerLocked e p) = p_closed p" "readClosed (armLatencyTimerLocked e p) = readClosed p"
  "eofSeen (armLatencyTimerLocked e p) = eofSeen p" "notify (armLatencyTimerLocked e p) = notify p"
  "bound (armLatencyTimerLocked e p) = bound p" "deliver (armLatencyTimerLocked e p) = deliver p"
  "partitionNetwork (armLatencyTimerLocked e p) = partitionNetwork p"
  "partitionPair (armLatencyTimerLocked e p) = partitionPair p"
  "loss (armLatencyTimerLocked e p) = loss p" "latency (armLatencyTimerLocked e p) = latency p"
  "duplicate (armLatencyTimerLocked e p) = duplicate p" "corrupt (armLatencyTimerLocked e p) = corrupt p"
  "trace (armLatencyTimerLocked e p) = trace p" "pending (armLatencyTimerLocked e p) = pending p"
  "busyUntil (armLatencyTimerLocked e p) = busyUntil p"
  by (simp_all add: armLatencyTimerLocked_def Let_def split: list.split)

lemma arm_append_frame [simp, frame_simps]:
  "readable (armLatencyForAppendLocked e p) = readable p" "bufBytes (armLatencyForAppendLocked e p) = bufBytes p"
  "p_closed (armLatencyForAppendLocked e p) = p_closed p" "readClosed (armLatencyForAppendLocked e p) = readClosed p"
  "eofSeen (armLatencyForAppendLocked e p) = eofSeen p" "notify (armLatencyForAppendLocked e p) = notify p"
  "bound (armLatencyForAppendLocked e p) = bound p" "deliver (armLatencyForAppendLocked e p) = deliver p"
  "partitionNetwork (armLatencyForAppendLocked e p) = partitionNetwork p"
  "partitionPair (armLatencyForAppendLocked e p) = partitionPair p"
  "loss (armLatencyForAppendLocked e p) = loss p" "latency (armLatencyForAppendLocked e p) = latency p"
  "duplicate (armLatencyForAppendLocked e p) = duplicate p" "corrupt (armLatencyForAppendLocked e p) = corrupt p"
  "trace (armLatencyForAppendLocked e p) = trace p" "pending (armLatencyForAppendLocked e p) = pending p"
  "busyUntil (armLatencyForAppendLocked e p) = busyUntil p"
  by (simp_all add: armLatencyForAppendLocked_def)

text \<open>The armed timer fires no later than the head's release, unless that has passed already.\<close>

definition timer_ok :: "time \<Rightarrow> pipe \<Rightarrow> bool" where
  "timer_ok now p \<longleftrightarrow>
     (case pending p of
        [] \<Rightarrow> True
      | u # us \<Rightarrow> (case timer p of None \<Rightarrow> False | Some t \<Rightarrow> t \<le> max now (releaseAt u)))"

lemma timer_ok_arm: "timer_ok (env_now e) (armLatencyTimerLocked e p)"
  by (auto simp: timer_ok_def armLatencyTimerLocked_def Let_def time_add_def time_sub_def
      maxDuration_def minDuration_def split: list.split)

lemma timer_ok_later: "timer_ok now p \<Longrightarrow> now \<le> now' \<Longrightarrow> timer_ok now' p"
  by (auto simp: timer_ok_def split: list.splits option.splits)

section \<open>The invariant\<close>

definition pipe_inv :: "pipe \<Rightarrow> bool" where
  "pipe_inv p \<longleftrightarrow>
     bufBytes p = total_len (readable p) + total_len (map pu_data (pending p))
     \<and> sorted (map releaseAt (pending p))
     \<and> (readClosed p \<longrightarrow> p_closed p \<and> readable p = [] \<and> pending p = [])
     \<and> (timer p = None \<longrightarrow> pending p = [])"

lemma pipe_inv_newPipe: "pipe_inv (newPipe b)"
  by (simp add: pipe_inv_def newPipe_def)

declare consume.simps(2) [simp del]

lemma consume_zero [simp]: "consume 0 q = ([], q)"
  by (cases q) (simp_all add: consume.simps(2))

lemma consume_fits:
  "0 < room \<Longrightarrow> length chunk \<le> room \<Longrightarrow>
     consume room (chunk # q) = (chunk @ fst (consume (room - length chunk) q), snd (consume (room - length chunk) q))"
  by (simp add: consume.simps(2) min_absorb2 case_prod_beta Let_def)

lemma consume_splits:
  "0 < room \<Longrightarrow> room < length chunk \<Longrightarrow> consume room (chunk # q) = (take room chunk, drop room chunk # q)"
  by (simp add: consume.simps(2) min_absorb1)

lemma consume_spec:
  "fst (consume room q) @ concat (snd (consume room q)) = concat q
   \<and> length (fst (consume room q)) = min room (length (concat q))
   \<and> (length (fst (consume room q)) < room \<longrightarrow> snd (consume room q) = [])"
proof (induction q arbitrary: room)
  case Nil
  then show ?case by simp
next
  case (Cons chunk q)
  consider "room = 0" | "0 < room" "length chunk \<le> room" | "0 < room" "room < length chunk"
    by linarith
  then show ?case
  proof cases
    case 1
    then show ?thesis by simp
  next
    case 2
    with Cons.IH [of "room - length chunk"] show ?thesis
      by (auto simp: consume_fits)
  next
    case 3
    then show ?thesis by (simp add: consume_splits)
  qed
qed

text \<open>
  A read that finds nothing but empty payloads drops them and goes on as if the queue had been
  empty.
\<close>

definition drop_empty :: "pipe \<Rightarrow> pipe" where
  "drop_empty p = (if readable p \<noteq> [] then broadcastLocked (p\<lparr>readable := []\<rparr>) else p)"

definition read_idle :: "env \<Rightarrow> pipe \<Rightarrow> bytes attempt \<times> pipe" where
  "read_idle e p =
     (if p_closed p \<and> pending p = []
      then if eofSeen p then (Done [] (Some EOF), p)
           else if partitionNetwork p \<and> isPartitioned (partitionPair p) (env_parts e)
           then (Wait (PartCh (partNotify (env_parts e))), p)
           else (Done [] (Some EOF), p\<lparr>eofSeen := True\<rparr>)
      else (Wait (NotifyCh (notify p)), p))"

lemma tryRead_closed: "readClosed p \<Longrightarrow> tryRead e len p = (Done [] (Some EOF), p)"
  by (simp add: tryRead_def)

lemma consume_empty_iff: "fst (consume len q) = [] \<longleftrightarrow> len = 0 \<or> concat q = []"
proof -
  define out L where "out = fst (consume len q)" and "L = concat q"
  have "length out = min len (length L)"
    unfolding out_def L_def using consume_spec by blast
  then have "length out = 0 \<longleftrightarrow> len = 0 \<or> length L = 0" by linarith
  then show ?thesis by (simp add: out_def [symmetric] L_def [symmetric])
qed

lemma tryRead_data:
  assumes "\<not> readClosed p" "concat (readable p) \<noteq> [] \<or> readable p \<noteq> [] \<and> len = 0"
  shows "tryRead e len p =
    (Done (fst (consume len (readable p))) None,
     broadcastLocked (p\<lparr>readable := snd (consume len (readable p)),
       bufBytes := bufBytes p - int (length (fst (consume len (readable p))))\<rparr>))"
proof -
  have "readable p \<noteq> []" using assms(2) by auto
  moreover have "fst (consume len (readable p)) \<noteq> [] \<or> len = 0"
    using assms(2) by (auto simp: consume_empty_iff)
  ultimately show ?thesis
    using assms(1) by (simp add: tryRead_def Let_def case_prod_beta)
qed

lemma tryRead_idle:
  assumes "\<not> readClosed p" "concat (readable p) = []" "readable p = [] \<or> len \<noteq> 0"
  shows "tryRead e len p = read_idle e (drop_empty p)"
proof -
  have e: "fst (consume len (readable p)) = []"
    using assms(2) by (simp add: consume_empty_iff)
  then have "readable p \<noteq> [] \<Longrightarrow> snd (consume len (readable p)) = []"
    using assms(3) consume_spec [of len "readable p"] by simp
  with assms e show ?thesis
    by (auto simp: tryRead_def read_idle_def drop_empty_def Let_def case_prod_beta
        checkPartition_def isPartitioned_def)
qed

lemma tryRead_cases:
  obtains "readClosed p"
  | "\<not> readClosed p" "concat (readable p) \<noteq> [] \<or> readable p \<noteq> [] \<and> len = 0"
  | "\<not> readClosed p" "concat (readable p) = []" "readable p = [] \<or> len \<noteq> 0"
  by blast

lemma drop_empty_frame [simp, frame_simps]:
  "readable (drop_empty p) = []" "bufBytes (drop_empty p) = bufBytes p"
  "p_closed (drop_empty p) = p_closed p" "readClosed (drop_empty p) = readClosed p"
  "eofSeen (drop_empty p) = eofSeen p" "pending (drop_empty p) = pending p"
  "partitionNetwork (drop_empty p) = partitionNetwork p" "timer (drop_empty p) = timer p"
  "partitionPair (drop_empty p) = partitionPair p" "deliver (drop_empty p) = deliver p"
  "bound (drop_empty p) = bound p" "trace (drop_empty p) = trace p"
  "loss (drop_empty p) = loss p" "latency (drop_empty p) = latency p"
  "duplicate (drop_empty p) = duplicate p" "corrupt (drop_empty p) = corrupt p"
  "busyUntil (drop_empty p) = busyUntil p" "notify p \<le> notify (drop_empty p)"
  by (simp_all add: drop_empty_def)

lemma read_idle_frame [simp, frame_simps]:
  "readable (snd (read_idle e p)) = readable p" "bufBytes (snd (read_idle e p)) = bufBytes p"
  "p_closed (snd (read_idle e p)) = p_closed p" "readClosed (snd (read_idle e p)) = readClosed p"
  "pending (snd (read_idle e p)) = pending p" "timer (snd (read_idle e p)) = timer p"
  "partitionNetwork (snd (read_idle e p)) = partitionNetwork p"
  "partitionPair (snd (read_idle e p)) = partitionPair p" "deliver (snd (read_idle e p)) = deliver p"
  "bound (snd (read_idle e p)) = bound p" "trace (snd (read_idle e p)) = trace p"
  "loss (snd (read_idle e p)) = loss p" "latency (snd (read_idle e p)) = latency p"
  "duplicate (snd (read_idle e p)) = duplicate p" "corrupt (snd (read_idle e p)) = corrupt p"
  "busyUntil (snd (read_idle e p)) = busyUntil p" "notify (snd (read_idle e p)) = notify p"
  by (simp_all add: read_idle_def)

section \<open>Every pipe operation keeps the invariant\<close>

lemma total_len_concat: "concat q = concat r \<Longrightarrow> total_len q = total_len r"
  by (simp add: total_len_def)

lemma tryRead_inv [inv_intros]: "pipe_inv p \<Longrightarrow> pipe_inv (snd (tryRead e len p))"
proof (cases rule: tryRead_cases [where p = p and len = len])
  case 1
  then show "pipe_inv p \<Longrightarrow> ?thesis" by (simp add: tryRead_closed)
next
  case 2
  let ?c = "consume len (readable p)"
  have "total_len (readable p) = int (length (fst ?c)) + total_len (snd ?c)"
    using consume_spec [of len "readable p"] by (metis total_len_def length_append of_nat_add)
  with 2 show "pipe_inv p \<Longrightarrow> ?thesis"
    by (auto simp: tryRead_data pipe_inv_def)
next
  case 3
  then show "pipe_inv p \<Longrightarrow> ?thesis"
    by (simp add: tryRead_idle pipe_inv_def total_len_def)
qed

lemma close_inv [inv_intros]: "pipe_inv p \<Longrightarrow> pipe_inv (close_pipe p)"
  by (simp add: close_pipe_def pipe_inv_def)

lemma abort_inv [inv_intros]: "pipe_inv p \<Longrightarrow> pipe_inv (abort p)"
  by (simp add: abort_def pipe_inv_def)

lemma arm_timer_None: "timer (armLatencyTimerLocked e p) = None \<longleftrightarrow> pending p = []"
  by (simp add: armLatencyTimerLocked_def Let_def split: list.split)

lemma sorted_map_dropWhile: "sorted (map f xs) \<Longrightarrow> sorted (map f (dropWhile P xs))"
  by (metis append_take_drop_id dropWhile_eq_drop map_append sorted_append)

definition due_units :: "time \<Rightarrow> pipe \<Rightarrow> pendingUnit list" where
  "due_units now p = takeWhile (\<lambda>u. releaseAt u \<le> now) (pending p)"

lemma release_eq:
  "\<not> readClosed p \<Longrightarrow>
   releaseDueLatency e p = armLatencyTimerLocked e
     (let p1 = p\<lparr>readable := readable p @ map pu_data (due_units (env_now e) p),
                 pending := dropWhile (\<lambda>u. releaseAt u \<le> env_now e) (pending p)\<rparr>
      in if due_units (env_now e) p = [] then p1 else broadcastLocked p1)"
proof -
  assume "\<not> readClosed p"
  moreover have "dropWhile (\<lambda>u. releaseAt u \<le> env_now e) (pending p) = pending p"
    if "due_units (env_now e) p = []"
    using that by (metis due_units_def append_Nil takeWhile_dropWhile_id)
  ultimately show ?thesis
    by (auto simp: releaseDueLatency_def Let_def due_units_def dropWhile_eq_drop)
qed

lemma release_frame:
  assumes "\<not> readClosed p"
  shows "readable (releaseDueLatency e p) = readable p @ map pu_data (due_units (env_now e) p)"
    "pending (releaseDueLatency e p) = dropWhile (\<lambda>u. releaseAt u \<le> env_now e) (pending p)"
    "bufBytes (releaseDueLatency e p) = bufBytes p" "p_closed (releaseDueLatency e p) = p_closed p"
    "readClosed (releaseDueLatency e p) = readClosed p" "eofSeen (releaseDueLatency e p) = eofSeen p"
    "notify (releaseDueLatency e p) = (if due_units (env_now e) p = [] then notify p else Suc (notify p))"
    "partitionNetwork (releaseDueLatency e p) = partitionNetwork p"
    "partitionPair (releaseDueLatency e p) = partitionPair p"
    "trace (releaseDueLatency e p) = trace p" "deliver (releaseDueLatency e p) = deliver p"
    "timer (releaseDueLatency e p) = None \<longleftrightarrow> pending (releaseDueLatency e p) = []"
  using assms by (simp_all add: release_eq Let_def arm_timer_None)

lemma pending_split: "due_units now p @ dropWhile (\<lambda>u. releaseAt u \<le> now) (pending p) = pending p"
  by (simp add: due_units_def)

lemma release_inv [inv_intros]: "pipe_inv p \<Longrightarrow> pipe_inv (releaseDueLatency e p)"
proof (cases "readClosed p")
  case True
  then show "pipe_inv p \<Longrightarrow> ?thesis" by (simp add: releaseDueLatency_def)
next
  case False
  have "total_len (map pu_data (pending p)) =
     total_len (map pu_data (due_units (env_now e) p))
     + total_len (map pu_data (dropWhile (\<lambda>u. releaseAt u \<le> env_now e) (pending p)))"
    by (metis map_append pending_split total_len_simps(3))
  with False show "pipe_inv p \<Longrightarrow> ?thesis"
    by (auto simp: pipe_inv_def release_frame sorted_map_dropWhile)
qed


end
