(* ===== verification/Delivery.thy ===== *)
theory Delivery
  imports Pipe
begin

text \<open>
  The one composed evaluator of \<open>faults.go\<close> and the write that calls it: partition, loss,
  bandwidth, latency, corruption, duplication, in that order, with the draw discipline of the
  source. \<open>None\<close> is a call that does not return normally: a nil stream is dereferenced, or a
  rejection loop never accepts a draw.
\<close>

section \<open>The draws\<close>

definition draw_bernoulli ::
  "bool \<Rightarrow> float64 \<Rightarrow> stream option \<Rightarrow> (bool \<times> stream option) option" where
  "draw_bernoulli enabled rate s =
     (if \<not> enabled then Some (False, s)
      else case s of
        None \<Rightarrow> None
      | Some st \<Rightarrow> let (b, st') = bernoulli rate st in Some (b, Some st'))"

definition draw_latency ::
  "bool \<Rightarrow> duration \<Rightarrow> duration \<Rightarrow> stream option \<Rightarrow> (duration \<times> stream option) option" where
  "draw_latency enabled dmin dmax s =
     (if \<not> enabled then Some (0, s)
      else case s of
        None \<Rightarrow> None
      | Some st \<Rightarrow> map_option (\<lambda>(d, st'). (d, Some st')) (uniformDuration dmin dmax st))"

record decision =
  dropped :: bool
  drawn :: duration
  duplicated :: bool
  corrupted :: bool

text \<open>Every configured drawing fault draws, whatever the faults before it decided.\<close>

definition draw_decision :: "faultConfig \<Rightarrow> pipe \<Rightarrow> (decision \<times> pipe) option" where
  "draw_decision cfg p =
     do { (dr, l) \<leftarrow> draw_bernoulli (lossEnabled cfg) (lossRate cfg) (loss p);
          (d, la) \<leftarrow> draw_latency (latencyEnabled cfg) (latencyMin cfg) (latencyMax cfg) (latency p);
          (du, ds) \<leftarrow> draw_bernoulli (duplicateEnabled cfg) (duplicateRate cfg) (duplicate p);
          (co, cs) \<leftarrow> draw_bernoulli (corruptEnabled cfg) (corruptRate cfg) (corrupt p);
          Some (\<lparr>dropped = dr, drawn = d, duplicated = du, corrupted = co\<rparr>,
                p\<lparr>loss := l, latency := la, duplicate := ds, corrupt := cs\<rparr>) }"

section \<open>The stages\<close>

definition flip_bit :: "nat \<Rightarrow> nat \<Rightarrow> bytes \<Rightarrow> bytes" where
  "flip_bit byteIndex bitIndex data = data[byteIndex := data ! byteIndex XOR push_bit bitIndex 1]"

text \<open>Corruption draws its site only for a unit that is corrupted and not empty.\<close>

definition corrupt_unit ::
  "bool \<Rightarrow> bytes \<Rightarrow> pipe \<Rightarrow> ((bytes \<times> nat \<times> nat) \<times> pipe) option" where
  "corrupt_unit corr data p =
     (if corr \<and> 0 < length data
      then do { st \<leftarrow> corrupt p;
                ((byteIndex, bitIndex), st') \<leftarrow> corruptionSite (length data) st;
                Some ((flip_bit byteIndex bitIndex data, byteIndex, bitIndex),
                      p\<lparr>corrupt := Some st'\<rparr>) }
      else Some ((data, 0, 0), p))"

definition throttle ::
  "faultConfig \<Rightarrow> time \<Rightarrow> nat \<Rightarrow> pipe \<Rightarrow> ((time \<times> duration) \<times> pipe) option" where
  "throttle cfg now len p =
     (if bandwidthEnabled cfg
      then do { delay \<leftarrow> serializationDelay (int len) (bandwidthBPS cfg);
                let base0 = (if now < busyUntil p then busyUntil p else now);
                    base = time_add base0 delay
                in Some ((base, time_sub base now), p\<lparr>busyUntil := base\<rparr>) }
      else Some ((now, 0), p))"

definition copies :: "bool \<Rightarrow> nat" where
  "copies dup = (if dup then 2 else 1)"

text \<open>Admit the unit, and its second copy when it is duplicated, to the readable queue.\<close>

definition admit_readable :: "bool \<Rightarrow> bytes \<Rightarrow> pipe \<Rightarrow> pipe" where
  "admit_readable dup data p =
     (let p1 = p\<lparr>readable := readable p @ [data]\<rparr>;
          p2 = (if dup
                then p1\<lparr>bufBytes := bufBytes p1 + int (length data),
                        readable := readable p1 @ [data]\<rparr>
                else p1)
      in broadcastLocked p2)"

text \<open>Admit the unit, and its second copy, to the latency line.\<close>

definition admit_pending :: "env \<Rightarrow> bool \<Rightarrow> bytes \<Rightarrow> time \<Rightarrow> pipe \<Rightarrow> pipe" where
  "admit_pending e dup data rel p =
     (let p1 = armLatencyForAppendLocked e (p\<lparr>pending := pending p @ [\<lparr>pu_data = data, releaseAt = rel\<rparr>]\<rparr>)
      in if dup
         then p1\<lparr>bufBytes := bufBytes p1 + int (length data),
                 pending := pending p1 @ [\<lparr>pu_data = data, releaseAt = rel\<rparr>]\<rparr>
         else p1)"

definition clamp_release :: "time \<Rightarrow> pendingUnit list \<Rightarrow> time" where
  "clamp_release rel us =
     (if us \<noteq> [] \<and> rel < releaseAt (last us) then releaseAt (last us) else rel)"

section \<open>The evaluator\<close>

definition current_config :: "faultPolicy \<Rightarrow> env \<Rightarrow> faultConfig" where
  "current_config fp e = (if fp_network fp then env_faults e else fp_static fp)"

definition discard :: "faultEvent \<Rightarrow> bytes \<Rightarrow> pipe \<Rightarrow> pipe" where
  "discard ev data p =
     broadcastLocked (record_event ev (p\<lparr>bufBytes := bufBytes p - int (length data)\<rparr>))"

text \<open>What happens to a unit that survives loss.\<close>

definition transmit :: "faultConfig \<Rightarrow> env \<Rightarrow> decision \<Rightarrow> bytes \<Rightarrow> pipe \<Rightarrow> pipe option" where
  "transmit cfg e d data0 p0 =
     do { ((data, cByte, cBit), p1) \<leftarrow> corrupt_unit (corrupted d) data0 p0;
          ((base, serialized), p2) \<leftarrow> throttle cfg (env_now e) (length data) p1;
          if \<not> latencyEnabled cfg \<and> \<not> bandwidthEnabled cfg
          then Some (admit_readable (duplicated d) data
                 (record_event (zeroEvent\<lparr>ev_duplicated := duplicated d, ev_corrupted := corrupted d,
                    ev_size := length data, ev_corruptByte := cByte, ev_corruptBit := cBit\<rparr>) p2))
          else
            let rel = clamp_release (time_add base (drawn d)) (pending p2)
            in Some (admit_pending e (duplicated d) data rel
                 (record_event (zeroEvent\<lparr>ev_drawn := drawn d, ev_serialized := serialized,
                    ev_effective := time_sub rel base, ev_duplicated := duplicated d,
                    ev_corrupted := corrupted d, ev_size := length data,
                    ev_corruptByte := cByte, ev_corruptBit := cBit\<rparr>) p2)) }"

definition evaluate :: "faultPolicy \<Rightarrow> env \<Rightarrow> bytes \<Rightarrow> pipe \<Rightarrow> pipe option" where
  "evaluate fp e data p =
     (if fp_network fp \<and> isPartitioned (fp_pair fp) (env_parts e)
      then Some (discard (zeroEvent\<lparr>ev_partitioned := True\<rparr>) data p)
      else
        let cfg = current_config fp e
        in do { (d, p1) \<leftarrow> draw_decision cfg p;
                if dropped d
                then Some (discard (zeroEvent\<lparr>ev_dropped := True, ev_drawn := drawn d,
                       ev_duplicated := duplicated d, ev_corrupted := corrupted d,
                       ev_size := length data\<rparr>) data p1)
                else transmit cfg e d data p1 })"

definition installFaultPolicy :: "faultPolicy \<Rightarrow> pipe \<Rightarrow> pipe" where
  "installFaultPolicy fp p =
     p\<lparr>partitionNetwork := fp_network fp, partitionPair := fp_pair fp, deliver := FaultEvaluator fp\<rparr>"

section \<open>Writing\<close>

definition run_deliver :: "env \<Rightarrow> bytes \<Rightarrow> pipe \<Rightarrow> pipe option" where
  "run_deliver e data p =
     (case deliver p of
        PassThroughDeliver \<Rightarrow> Some (passThroughDeliver data p)
      | FaultEvaluator fp \<Rightarrow> evaluate fp e data p)"

definition tryWrite :: "env \<Rightarrow> bytes \<Rightarrow> pipe \<Rightarrow> (nat attempt \<times> pipe) option" where
  "tryWrite e data p =
     (if p_closed p \<or> readClosed p then Some (Done 0 (Some ErrClosedPipe), p)
      else if bufBytes p = 0 \<or> bufBytes p + int (length data) \<le> bound p
      then map_option (Pair (Done (length data) None))
             (run_deliver e data (charge data p))
      else Some (Wait (NotifyCh (notify p)), p))"

section \<open>The invariant of a pipe under writes\<close>

text \<open>
  Between the charge and the delivery of a write the accounting is off by the write's length;
  \<open>accounted k\<close> says by how much.
\<close>

definition accounted :: "int \<Rightarrow> pipe \<Rightarrow> bool" where
  "accounted k p \<longleftrightarrow> bufBytes p = total_len (readable p) + total_len (map pu_data (pending p)) + k"

definition line_inv :: "pipe \<Rightarrow> bool" where
  "line_inv p \<longleftrightarrow>
     sorted (map releaseAt (pending p))
     \<and> (readClosed p \<longrightarrow> p_closed p \<and> readable p = [] \<and> pending p = [])
     \<and> (timer p = None \<longrightarrow> pending p = [])"

lemma pipe_inv_iff: "pipe_inv p \<longleftrightarrow> accounted 0 p \<and> line_inv p"
  by (auto simp: pipe_inv_def accounted_def line_inv_def)

lemma charge_frame [simp, frame_simps]:
  "readable (charge data p) = readable p" "bufBytes (charge data p) = bufBytes p + int (length data)"
  "p_closed (charge data p) = p_closed p" "readClosed (charge data p) = readClosed p"
  "eofSeen (charge data p) = eofSeen p" "notify (charge data p) = notify p"
  "bound (charge data p) = bound p" "deliver (charge data p) = deliver p"
  "partitionNetwork (charge data p) = partitionNetwork p"
  "partitionPair (charge data p) = partitionPair p"
  "loss (charge data p) = loss p" "latency (charge data p) = latency p"
  "duplicate (charge data p) = duplicate p" "corrupt (charge data p) = corrupt p"
  "trace (charge data p) = trace p" "pending (charge data p) = pending p"
  "timer (charge data p) = timer p" "busyUntil (charge data p) = busyUntil p"
  "arms (charge data p) = arms p"
  by (simp_all add: charge_def)

lemma charge_accounted: "accounted 0 p \<Longrightarrow> accounted (int (length data)) (charge data p)"
  by (simp add: accounted_def)

text \<open>The draws and the stages before admission touch streams and the link clock only.\<close>

definition same_queue :: "pipe \<Rightarrow> pipe \<Rightarrow> bool" where
  "same_queue p q \<longleftrightarrow>
     readable q = readable p \<and> bufBytes q = bufBytes p \<and> p_closed q = p_closed p
     \<and> readClosed q = readClosed p \<and> eofSeen q = eofSeen p \<and> notify q = notify p
     \<and> bound q = bound p \<and> deliver q = deliver p \<and> partitionNetwork q = partitionNetwork p
     \<and> partitionPair q = partitionPair p \<and> pending q = pending p \<and> timer q = timer p"

lemma same_queue_trans: "same_queue p q \<Longrightarrow> same_queue q r \<Longrightarrow> same_queue p r"
  by (simp add: same_queue_def)

lemma draw_decision_shape:
  assumes "draw_decision cfg p = Some (d, q)"
  obtains l la ds cs where "q = p\<lparr>loss := l, latency := la, duplicate := ds, corrupt := cs\<rparr>"
    "draw_bernoulli (lossEnabled cfg) (lossRate cfg) (loss p) = Some (dropped d, l)"
    "draw_latency (latencyEnabled cfg) (latencyMin cfg) (latencyMax cfg) (latency p) = Some (drawn d, la)"
    "draw_bernoulli (duplicateEnabled cfg) (duplicateRate cfg) (duplicate p) = Some (duplicated d, ds)"
    "draw_bernoulli (corruptEnabled cfg) (corruptRate cfg) (corrupt p) = Some (corrupted d, cs)"
  using assms that by (auto simp: draw_decision_def split: Option.bind_splits)

lemma draw_decision_frame:
  assumes "draw_decision cfg p = Some (d, q)"
  shows "same_queue p q" "trace q = trace p" "busyUntil q = busyUntil p"
  using assms by (auto elim!: draw_decision_shape simp: same_queue_def)

lemma corrupt_unit_frame:
  assumes "corrupt_unit corr data p = Some ((data', i, b), q)"
  shows "same_queue p q" "trace q = trace p" "busyUntil q = busyUntil p" "length data' = length data"
    "loss q = loss p" "latency q = latency p" "duplicate q = duplicate p"
  using assms by (auto simp: corrupt_unit_def same_queue_def flip_bit_def
      split: if_splits Option.bind_splits)

lemma throttle_frame:
  assumes "throttle cfg now len p = Some ((base, ser), q)"
  shows "same_queue p q" "trace q = trace p" "loss q = loss p" "latency q = latency p"
    "duplicate q = duplicate p" "corrupt q = corrupt p"
  using assms by (auto simp: throttle_def same_queue_def Let_def split: if_splits Option.bind_splits)

lemma accounted_same: "same_queue p q \<Longrightarrow> accounted k q \<longleftrightarrow> accounted k p"
  by (simp add: same_queue_def accounted_def)

lemma line_inv_same: "same_queue p q \<Longrightarrow> line_inv q \<longleftrightarrow> line_inv p"
  by (simp add: same_queue_def line_inv_def)

lemma discard_frame [simp, frame_simps]:
  "readable (discard ev data p) = readable p" "p_closed (discard ev data p) = p_closed p"
  "bufBytes (discard ev data p) = bufBytes p - int (length data)"
  "readClosed (discard ev data p) = readClosed p" "eofSeen (discard ev data p) = eofSeen p"
  "notify (discard ev data p) = Suc (notify p)" "pending (discard ev data p) = pending p"
  "timer (discard ev data p) = timer p" "loss (discard ev data p) = loss p"
  "latency (discard ev data p) = latency p" "duplicate (discard ev data p) = duplicate p"
  "corrupt (discard ev data p) = corrupt p" "busyUntil (discard ev data p) = busyUntil p"
  "bound (discard ev data p) = bound p" "deliver (discard ev data p) = deliver p"
  "partitionNetwork (discard ev data p) = partitionNetwork p"
  "partitionPair (discard ev data p) = partitionPair p"
  "trace (discard ev data p) = map_option (\<lambda>evs. evs @ [ev\<lparr>ev_seq := length evs\<rparr>]) (trace p)"
  by (simp_all add: discard_def) (simp add: record_event_def)

lemma copies_pos [simp]: "0 < copies dup"
  by (simp add: copies_def)

lemma admit_readable_frame [simp, frame_simps]:
  "readable (admit_readable dup data p) = readable p @ replicate (copies dup) data"
  "bufBytes (admit_readable dup data p) = bufBytes p + (if dup then int (length data) else 0)"
  "p_closed (admit_readable dup data p) = p_closed p"
  "readClosed (admit_readable dup data p) = readClosed p"
  "eofSeen (admit_readable dup data p) = eofSeen p"
  "notify (admit_readable dup data p) = Suc (notify p)"
  "pending (admit_readable dup data p) = pending p" "timer (admit_readable dup data p) = timer p"
  "loss (admit_readable dup data p) = loss p" "latency (admit_readable dup data p) = latency p"
  "duplicate (admit_readable dup data p) = duplicate p"
  "corrupt (admit_readable dup data p) = corrupt p" "trace (admit_readable dup data p) = trace p"
  "busyUntil (admit_readable dup data p) = busyUntil p"
  "bound (admit_readable dup data p) = bound p" "deliver (admit_readable dup data p) = deliver p"
  "partitionNetwork (admit_readable dup data p) = partitionNetwork p"
  "partitionPair (admit_readable dup data p) = partitionPair p"
  by (simp_all add: admit_readable_def Let_def copies_def numeral_2_eq_2)

lemma admit_pending_frame [simp, frame_simps]:
  "readable (admit_pending e dup data rel p) = readable p"
  "bufBytes (admit_pending e dup data rel p) = bufBytes p + (if dup then int (length data) else 0)"
  "p_closed (admit_pending e dup data rel p) = p_closed p"
  "readClosed (admit_pending e dup data rel p) = readClosed p"
  "eofSeen (admit_pending e dup data rel p) = eofSeen p"
  "notify (admit_pending e dup data rel p) = notify p"
  "pending (admit_pending e dup data rel p) =
     pending p @ replicate (copies dup) \<lparr>pu_data = data, releaseAt = rel\<rparr>"
  "loss (admit_pending e dup data rel p) = loss p"
  "latency (admit_pending e dup data rel p) = latency p"
  "duplicate (admit_pending e dup data rel p) = duplicate p"
  "corrupt (admit_pending e dup data rel p) = corrupt p"
  "trace (admit_pending e dup data rel p) = trace p"
  "busyUntil (admit_pending e dup data rel p) = busyUntil p"
  "bound (admit_pending e dup data rel p) = bound p"
  "deliver (admit_pending e dup data rel p) = deliver p"
  "partitionNetwork (admit_pending e dup data rel p) = partitionNetwork p"
  "partitionPair (admit_pending e dup data rel p) = partitionPair p"
  by (simp_all add: admit_pending_def Let_def copies_def numeral_2_eq_2)

lemma admit_pending_timer:
  "timer (admit_pending e dup data rel p) =
     (if pending p = [] then Some (time_add (env_now e) (max 0 (time_sub rel (env_now e)))) else timer p)"
  by (auto simp: admit_pending_def armLatencyForAppendLocked_def armLatencyTimerLocked_def Let_def max_def)

text \<open>The three ways a write ends.\<close>

lemma discard_accounted: "accounted (int (length data)) p \<Longrightarrow> accounted 0 (discard ev data p)"
  by (simp add: accounted_def)

lemma discard_line: "line_inv (discard ev data p) \<longleftrightarrow> line_inv p"
  by (simp add: line_inv_def)

lemma admit_readable_accounted:
  "accounted (int (length data)) p \<Longrightarrow> accounted 0 (admit_readable dup data p)"
  by (simp add: accounted_def copies_def numeral_2_eq_2)

lemma admit_readable_line:
  "line_inv p \<Longrightarrow> \<not> readClosed p \<Longrightarrow> line_inv (admit_readable dup data p)"
  by (simp add: line_inv_def)

lemma admit_pending_accounted:
  "accounted (int (length data)) p \<Longrightarrow> accounted 0 (admit_pending e dup data rel p)"
  by (simp add: accounted_def copies_def numeral_2_eq_2)

lemma clamp_release_last: "us \<noteq> [] \<Longrightarrow> releaseAt (last us) \<le> clamp_release rel us"
  by (simp add: clamp_release_def)

lemma clamp_release_ge: "rel \<le> clamp_release rel us"
  by (simp add: clamp_release_def)

lemma sorted_snoc_replicate:
  "sorted (map releaseAt us) \<Longrightarrow> (us \<noteq> [] \<Longrightarrow> releaseAt (last us) \<le> rel) \<Longrightarrow>
     sorted (map releaseAt (us @ replicate n \<lparr>pu_data = data, releaseAt = rel\<rparr>))"
  by (cases us rule: rev_cases) (auto simp: sorted_append intro: order_trans)

lemma admit_pending_line:
  assumes "line_inv p" "\<not> readClosed p" "pending p \<noteq> [] \<Longrightarrow> releaseAt (last (pending p)) \<le> rel"
  shows "line_inv (admit_pending e dup data rel p)"
  using assms sorted_snoc_replicate [of "pending p" rel "copies dup" data]
  by (auto simp: line_inv_def admit_pending_timer simp del: map_append)

lemma transmit_cases:
  assumes "transmit cfg e d data0 p0 = Some q"
  obtains data i b p1 base ser p2 where
    "corrupt_unit (corrupted d) data0 p0 = Some ((data, i, b), p1)"
    "throttle cfg (env_now e) (length data) p1 = Some ((base, ser), p2)"
    "\<not> latencyEnabled cfg" "\<not> bandwidthEnabled cfg"
    "q = admit_readable (duplicated d) data
           (record_event (zeroEvent\<lparr>ev_duplicated := duplicated d, ev_corrupted := corrupted d,
              ev_size := length data, ev_corruptByte := i, ev_corruptBit := b\<rparr>) p2)"
  | data i b p1 base ser p2 where
    "corrupt_unit (corrupted d) data0 p0 = Some ((data, i, b), p1)"
    "throttle cfg (env_now e) (length data) p1 = Some ((base, ser), p2)"
    "latencyEnabled cfg \<or> bandwidthEnabled cfg"
    "q = admit_pending e (duplicated d) data (clamp_release (time_add base (drawn d)) (pending p2))
           (record_event (zeroEvent\<lparr>ev_drawn := drawn d, ev_serialized := ser,
              ev_effective := time_sub (clamp_release (time_add base (drawn d)) (pending p2)) base,
              ev_duplicated := duplicated d, ev_corrupted := corrupted d, ev_size := length data,
              ev_corruptByte := i, ev_corruptBit := b\<rparr>) p2)"
  using assms unfolding transmit_def by (auto simp: Let_def split: Option.bind_splits if_splits)


lemma same_queue_inv:
  "same_queue p q \<Longrightarrow> accounted k p \<Longrightarrow> accounted k q"
  "same_queue p q \<Longrightarrow> line_inv p \<Longrightarrow> line_inv q"
  "same_queue p q \<Longrightarrow> \<not> readClosed p \<Longrightarrow> \<not> readClosed q"
  by (simp_all add: same_queue_def accounted_def line_inv_def)

lemma record_inv_simps [simp]:
  "accounted k (record_event ev p) = accounted k p" "line_inv (record_event ev p) = line_inv p"
  by (simp_all add: accounted_def line_inv_def)

lemma transmit_inv:
  assumes "transmit cfg e d data0 p = Some q" "accounted (int (length data0)) p" "line_inv p"
    "\<not> readClosed p"
  shows "pipe_inv q"
  using assms(1)
proof (cases rule: transmit_cases)
  case (1 data i b p1 base ser p2)
  have sq: "same_queue p p2"
    using corrupt_unit_frame(1) [OF 1(1)] throttle_frame(1) [OF 1(2)] by (rule same_queue_trans)
  moreover have "length data = length data0" using corrupt_unit_frame(4) [OF 1(1)] .
  ultimately have "accounted (int (length data)) p2" "line_inv p2" "\<not> readClosed p2"
    using assms(2-4) same_queue_inv by (metis, blast, blast)
  then show ?thesis
    unfolding 1(5) pipe_inv_iff by (intro conjI admit_readable_accounted admit_readable_line) simp_all
next
  case (2 data i b p1 base ser p2)
  have sq: "same_queue p p2"
    using corrupt_unit_frame(1) [OF 2(1)] throttle_frame(1) [OF 2(2)] by (rule same_queue_trans)
  moreover have "length data = length data0" using corrupt_unit_frame(4) [OF 2(1)] .
  ultimately have "accounted (int (length data)) p2" "line_inv p2" "\<not> readClosed p2"
    using assms(2-4) same_queue_inv by (metis, blast, blast)
  then show ?thesis
    unfolding 2(4) pipe_inv_iff
    by (intro conjI admit_pending_accounted admit_pending_line) (simp_all add: clamp_release_last)
qed

lemma evaluate_cases:
  assumes "evaluate fp e data p = Some q"
  obtains "fp_network fp" "isPartitioned (fp_pair fp) (env_parts e)"
      "q = discard (zeroEvent\<lparr>ev_partitioned := True\<rparr>) data p"
  | d p1 where "\<not> (fp_network fp \<and> isPartitioned (fp_pair fp) (env_parts e))"
      "draw_decision (current_config fp e) p = Some (d, p1)" "dropped d"
      "q = discard (zeroEvent\<lparr>ev_dropped := True, ev_drawn := drawn d, ev_duplicated := duplicated d,
             ev_corrupted := corrupted d, ev_size := length data\<rparr>) data p1"
  | d p1 where "\<not> (fp_network fp \<and> isPartitioned (fp_pair fp) (env_parts e))"
      "draw_decision (current_config fp e) p = Some (d, p1)" "\<not> dropped d"
      "transmit (current_config fp e) e d data p1 = Some q"
  using assms unfolding evaluate_def by (auto simp: Let_def split: Option.bind_splits if_splits)

lemma evaluate_inv:
  assumes "evaluate fp e data p = Some q" "accounted (int (length data)) p" "line_inv p"
    "\<not> readClosed p"
  shows "pipe_inv q"
  using assms(1)
proof (cases rule: evaluate_cases)
  case 1
  with assms show ?thesis by (simp add: pipe_inv_iff discard_accounted discard_line)
next
  case (2 d p1)
  from draw_decision_frame(1) [OF 2(2)] assms 2(4) show ?thesis
    by (simp add: pipe_inv_iff discard_accounted discard_line accounted_same line_inv_same)
next
  case (3 d p1)
  from draw_decision_frame(1) [OF 3(2)] have "same_queue p p1" .
  with assms have "accounted (int (length data)) p1" "line_inv p1" "\<not> readClosed p1"
    by (simp_all add: accounted_same line_inv_same) (simp add: same_queue_def)
  with 3(4) show ?thesis by (rule transmit_inv)
qed

lemma passThrough_inv:
  assumes "accounted (int (length data)) p" "line_inv p" "\<not> readClosed p"
  shows "pipe_inv (passThroughDeliver data p)"
  using assms by (simp add: passThroughDeliver_def pipe_inv_def accounted_def line_inv_def)

lemma tryWrite_cases:
  assumes "tryWrite e data p = Some (r, q)"
  obtains (closed) "p_closed p \<or> readClosed p" "r = Done 0 (Some ErrClosedPipe)" "q = p"
  | (admitted) "\<not> p_closed p" "\<not> readClosed p"
      "bufBytes p = 0 \<or> bufBytes p + int (length data) \<le> bound p"
      "r = Done (length data) None" "run_deliver e data (charge data p) = Some q"
  | (blocked) "\<not> p_closed p" "\<not> readClosed p" "bufBytes p \<noteq> 0"
      "bound p < bufBytes p + int (length data)" "r = Wait (NotifyCh (notify p))" "q = p"
proof -
  consider "p_closed p \<or> readClosed p"
    | "\<not> (p_closed p \<or> readClosed p)" "bufBytes p = 0 \<or> bufBytes p + int (length data) \<le> bound p"
    | "\<not> (p_closed p \<or> readClosed p)" "\<not> (bufBytes p = 0 \<or> bufBytes p + int (length data) \<le> bound p)"
    by blast
  then show ?thesis
  proof cases
    case 1
    with assms have "r = Done 0 (Some ErrClosedPipe)" "q = p" by (simp_all add: tryWrite_def)
    with 1 show ?thesis by (rule closed)
  next
    case 2
    with assms have "map_option (Pair (Done (length data) None)) (run_deliver e data (charge data p)) = Some (r, q)"
      by (simp only: tryWrite_def if_True if_False)
    then have "r = Done (length data) None" "run_deliver e data (charge data p) = Some q" by auto
    with 2 show ?thesis by (intro admitted) auto
  next
    case 3
    with assms have "r = Wait (NotifyCh (notify p))" "q = p"
      by (simp_all only: tryWrite_def if_False) auto
    with 3 show ?thesis by (intro blocked) auto
  qed
qed

lemma tryWrite_inv [inv_intros]:
  assumes "tryWrite e data p = Some (r, q)" "pipe_inv p"
  shows "pipe_inv q"
  using assms(1)
proof (cases rule: tryWrite_cases)
  case admitted
  from assms(2) have "accounted (int (length data)) (charge data p)" "line_inv (charge data p)"
    by (simp_all add: pipe_inv_iff charge_accounted line_inv_def)
  with admitted show ?thesis
    by (auto simp: run_deliver_def passThrough_inv evaluate_inv split: deliverFunc.splits)
qed (use assms(2) in simp_all)

section \<open>First in, first out\<close>

text \<open>
  The abstract contract: the bytes on their way to the reader are one sequence. A write
  appends what the faults let through, a read takes from the front, nothing else changes it.
\<close>

definition in_flight :: "pipe \<Rightarrow> bytes" where
  "in_flight p = concat (readable p) @ concat (map pu_data (pending p))"

definition unit_copies :: "bool \<Rightarrow> bytes \<Rightarrow> bytes" where
  "unit_copies dup data = (if dup then data @ data else data)"

text \<open>What a write adds: nothing when partitioned or lost, else the (corrupted) unit, once or twice.\<close>

definition admitted_bytes :: "env \<Rightarrow> bytes \<Rightarrow> pipe \<Rightarrow> bytes" where
  "admitted_bytes e data p =
     (case deliver p of
        PassThroughDeliver \<Rightarrow> data
      | FaultEvaluator fp \<Rightarrow>
          if fp_network fp \<and> isPartitioned (fp_pair fp) (env_parts e) then []
          else case draw_decision (current_config fp e) p of
            None \<Rightarrow> []
          | Some (d, p1) \<Rightarrow>
              if dropped d then []
              else case corrupt_unit (corrupted d) data p1 of
                None \<Rightarrow> []
              | Some ((data', _, _), _) \<Rightarrow> unit_copies (duplicated d) data')"

text \<open>
  The configuration a write is evaluated under never turns the latency line off while units
  are on it: the setters only enable.
\<close>

definition line_enabled :: "env \<Rightarrow> pipe \<Rightarrow> bool" where
  "line_enabled e p \<longleftrightarrow>
     pending p \<noteq> [] \<longrightarrow>
       (case deliver p of
          PassThroughDeliver \<Rightarrow> False
        | FaultEvaluator fp \<Rightarrow>
            latencyEnabled (current_config fp e) \<or> bandwidthEnabled (current_config fp e))"

lemma in_flight_same: "same_queue p q \<Longrightarrow> in_flight q = in_flight p"
  by (simp add: same_queue_def in_flight_def)

lemma in_flight_simps [simp]:
  "in_flight (charge data p) = in_flight p" "in_flight (discard ev data p) = in_flight p"
  "in_flight (record_event ev p) = in_flight p" "in_flight (broadcastLocked p) = in_flight p"
  "in_flight (drop_empty p) = concat (map pu_data (pending p))"
  "in_flight (snd (read_idle e p)) = in_flight p"
  by (simp_all add: in_flight_def)

lemma concat_copies: "concat (replicate (copies dup) data) = unit_copies dup data"
  by (simp add: copies_def unit_copies_def numeral_2_eq_2)

lemma in_flight_admit_pending:
  "in_flight (admit_pending e dup data rel p) = in_flight p @ unit_copies dup data"
  by (simp add: in_flight_def concat_copies)

lemma in_flight_admit_readable:
  "pending p = [] \<Longrightarrow> in_flight (admit_readable dup data p) = in_flight p @ unit_copies dup data"
  by (simp add: in_flight_def concat_copies)

lemma transmit_in_flight:
  assumes "transmit cfg e d data0 p = Some q"
    "pending p \<noteq> [] \<longrightarrow> latencyEnabled cfg \<or> bandwidthEnabled cfg"
    "corrupt_unit (corrupted d) data0 p = Some ((data, i, b), p1)"
  shows "in_flight q = in_flight p @ unit_copies (duplicated d) data"
  using assms(1)
proof (cases rule: transmit_cases)
  case (1 data' i' b' p1' base ser p2)
  have sq: "same_queue p p2"
    using corrupt_unit_frame(1) [OF 1(1)] throttle_frame(1) [OF 1(2)] by (rule same_queue_trans)
  have "data' = data" using 1(1) assms(3) by simp
  moreover from sq 1(3,4) assms(2) have "pending p2 = []" by (simp add: same_queue_def)
  ultimately show ?thesis
    using in_flight_same [OF sq] by (simp add: 1(5) in_flight_admit_readable)
next
  case (2 data' i' b' p1' base ser p2)
  have sq: "same_queue p p2"
    using corrupt_unit_frame(1) [OF 2(1)] throttle_frame(1) [OF 2(2)] by (rule same_queue_trans)
  have "data' = data" using 2(1) assms(3) by simp
  then show ?thesis
    using in_flight_same [OF sq] by (simp add: 2(4) in_flight_admit_pending)
qed

lemma draw_decision_charge:
  "draw_decision cfg (charge data p) = map_option (\<lambda>(d, q). (d, charge data q)) (draw_decision cfg p)"
  by (auto simp: draw_decision_def charge_def bind_eq_Some_conv split: Option.bind_split option.split)

lemma corrupt_unit_charge:
  "corrupt_unit co data0 (charge data p) = map_option (\<lambda>(d, q). (d, charge data q)) (corrupt_unit co data0 p)"
  by (auto simp: corrupt_unit_def charge_def split: Option.bind_split option.split)

lemma tryWrite_in_flight:
  assumes "tryWrite e data p = Some (Done n None, q)" "line_enabled e p"
  shows "in_flight q = in_flight p @ admitted_bytes e data p"
proof -
  from assms(1) have run: "run_deliver e data (charge data p) = Some q"
    by (cases rule: tryWrite_cases) auto
  show ?thesis
  proof (cases "deliver p")
    case PassThroughDeliver
    with assms(2) run show ?thesis
      by (auto simp: run_deliver_def passThroughDeliver_def in_flight_def line_enabled_def admitted_bytes_def)
  next
    case (FaultEvaluator fp)
    with run have "evaluate fp e data (charge data p) = Some q" by (simp add: run_deliver_def)
    then show ?thesis
    proof (cases rule: evaluate_cases)
      case 1
      with FaultEvaluator show ?thesis by (simp add: admitted_bytes_def)
    next
      case (2 d p1)
      with draw_decision_frame(1) [OF 2(2)] FaultEvaluator show ?thesis
        by (auto simp: admitted_bytes_def draw_decision_charge in_flight_same)
    next
      case (3 d p1)
      let ?cfg = "current_config fp e"
      from 3(2) obtain p0 where p0: "draw_decision ?cfg p = Some (d, p0)" "p1 = charge data p0"
        by (auto simp: draw_decision_charge)
      from 3(4) obtain data' i b p2 where c: "corrupt_unit (corrupted d) data p1 = Some ((data', i, b), p2)"
        by (cases rule: transmit_cases) auto
      then have c0: "\<exists>p2. corrupt_unit (corrupted d) data p0 = Some ((data', i, b), p2)"
        by (auto simp: p0 corrupt_unit_charge)
      have "pending p1 = pending p" using draw_decision_frame(1) [OF 3(2)] by (simp add: same_queue_def)
      with assms(2) FaultEvaluator
      have "pending p1 \<noteq> [] \<longrightarrow> latencyEnabled ?cfg \<or> bandwidthEnabled ?cfg"
        by (simp add: line_enabled_def)
      from transmit_in_flight [OF 3(4) this c] draw_decision_frame(1) [OF 3(2)]
      have "in_flight q = in_flight p @ unit_copies (duplicated d) data'"
        by (simp add: in_flight_same)
      with FaultEvaluator 3(1,3) p0 c0 show ?thesis
        by (auto simp: admitted_bytes_def)
    qed
  qed
qed

lemma release_in_flight: "in_flight (releaseDueLatency e p) = in_flight p"
proof (cases "readClosed p")
  case True
  then show ?thesis by (simp add: releaseDueLatency_def)
next
  case False
  have "concat (map pu_data (pending p)) = concat (map pu_data (due_units (env_now e) p))
      @ concat (map pu_data (dropWhile (\<lambda>u. releaseAt u \<le> env_now e) (pending p)))"
    by (metis concat_append map_append pending_split)
  with False show ?thesis by (simp add: in_flight_def release_frame)
qed

lemma close_in_flight: "in_flight (close_pipe p) = in_flight p"
  by (simp add: close_pipe_def in_flight_def)

lemma tryRead_in_flight:
  assumes "tryRead e len p = (r, q)"
  shows "in_flight p = (case r of Done out _ \<Rightarrow> out | Wait _ \<Rightarrow> []) @ in_flight q"
proof (cases rule: tryRead_cases [where p = p and len = len])
  case 1
  with assms show ?thesis by (auto simp: tryRead_closed)
next
  case 2
  have "concat (readable p) = fst (consume len (readable p)) @ concat (snd (consume len (readable p)))"
    using consume_spec by simp
  with 2 assms show ?thesis by (auto simp: tryRead_data in_flight_def)
next
  case 3
  then have "q = snd (read_idle e (drop_empty p))" "r = fst (read_idle e (drop_empty p))"
    using assms by (simp_all add: tryRead_idle)
  moreover have "case fst (read_idle e (drop_empty p)) of Done out _ \<Rightarrow> out = [] | Wait _ \<Rightarrow> True"
    by (simp add: read_idle_def)
  ultimately show ?thesis
    using 3 by (auto simp: in_flight_def split: attempt.splits)
qed

end
