(* ===== verification/Flow.thy ===== *)
theory Flow
  imports Delivery
begin

text \<open>
  One direction of a connection as a whole: every operation of \<open>pipe.go\<close> in any order and any
  number, with the clock, the partitions and the configuration changing between them. The
  theory relates the detailed model to three abstract ones: a first-in-first-out byte stream,
  a machine that consumes nothing but random draws, and the same pipe without a trace.
\<close>

section \<open>The operations of one direction, in any order\<close>

datatype pipe_op = OpWrite bytes | OpRead nat | OpTimer | OpClose | OpAbort

type_synonym pipe_label = "env \<times> pipe_op"

fun pipe_step :: "pipe_label \<Rightarrow> pipe \<Rightarrow> pipe option" where
  "pipe_step (e, OpWrite data) p = map_option snd (tryWrite e data p)"
| "pipe_step (e, OpRead len) p = Some (snd (tryRead e len p))"
| "pipe_step (e, OpTimer) p = Some (releaseDueLatency e p)"
| "pipe_step (e, OpClose) p = Some (close_pipe p)"
| "pipe_step (e, OpAbort) p = Some (abort p)"

text \<open>The bytes a read hands to its caller, and the bytes a write puts on the wire.\<close>

fun bytes_read :: "pipe_label \<Rightarrow> pipe \<Rightarrow> bytes" where
  "bytes_read (e, OpRead len) p = (case fst (tryRead e len p) of Done out _ \<Rightarrow> out | Wait _ \<Rightarrow> [])"
| "bytes_read (e, op) p = []"

fun bytes_written :: "pipe_label \<Rightarrow> pipe \<Rightarrow> bytes" where
  "bytes_written (e, OpWrite data) p =
     (case tryWrite e data p of Some (Done _ None, _) \<Rightarrow> admitted_bytes e data p | _ \<Rightarrow> [])"
| "bytes_written (e, op) p = []"

definition line_on :: "deliverFunc \<Rightarrow> env \<Rightarrow> bool" where
  "line_on dl e =
     (case dl of
        PassThroughDeliver \<Rightarrow> False
      | FaultEvaluator fp \<Rightarrow>
          latencyEnabled (current_config fp e) \<or> bandwidthEnabled (current_config fp e))"

text \<open>
  A run without aborts under configurations that never turn the latency line off once it is
  on, as the setters guarantee.
\<close>

definition fifo_good :: "pipe_label list \<Rightarrow> pipe \<Rightarrow> bool" where
  "fifo_good ls p \<longleftrightarrow>
     (\<forall>l \<in> set ls. snd l \<noteq> OpAbort)
     \<and> sorted (map (\<lambda>l. line_on (deliver p) (fst l)) ls)
     \<and> (pending p \<noteq> [] \<longrightarrow> (\<forall>l \<in> set ls. line_on (deliver p) (fst l)))"

lemma line_enabled_on: "line_enabled e p \<longleftrightarrow> (pending p \<noteq> [] \<longrightarrow> line_on (deliver p) e)"
  by (simp add: line_enabled_def line_on_def)

lemma same_queue_deliver: "same_queue p q \<Longrightarrow> deliver q = deliver p \<and> pending q = pending p \<and> bound q = bound p"
  by (simp add: same_queue_def)

lemma transmit_deliver:
  assumes "transmit cfg e d data0 p = Some q"
  shows "deliver q = deliver p \<and> bound q = bound p
    \<and> (pending p = [] \<longrightarrow> pending q \<noteq> [] \<longrightarrow> latencyEnabled cfg \<or> bandwidthEnabled cfg)"
  using assms
proof (cases rule: transmit_cases)
  case (1 data i b p1 base ser p2)
  have "same_queue p p2"
    using corrupt_unit_frame(1) [OF 1(1)] throttle_frame(1) [OF 1(2)] by (rule same_queue_trans)
  from same_queue_deliver [OF this] show ?thesis by (simp add: 1(5))
next
  case (2 data i b p1 base ser p2)
  have "same_queue p p2"
    using corrupt_unit_frame(1) [OF 2(1)] throttle_frame(1) [OF 2(2)] by (rule same_queue_trans)
  from same_queue_deliver [OF this] 2(3) show ?thesis by (simp add: 2(4))
qed

lemma tryWrite_deliver:
  assumes "tryWrite e data p = Some (r, q)"
  shows "deliver q = deliver p" "bound q = bound p"
    "pending p = [] \<Longrightarrow> pending q \<noteq> [] \<Longrightarrow> line_on (deliver p) e"
proof -
  have "deliver q = deliver p \<and> bound q = bound p
      \<and> (pending p = [] \<longrightarrow> pending q \<noteq> [] \<longrightarrow> line_on (deliver p) e)"
    using assms
  proof (cases rule: tryWrite_cases)
    case admitted
    show ?thesis
    proof (cases "deliver p")
      case PassThroughDeliver
      with admitted(5) show ?thesis by (auto simp: run_deliver_def passThroughDeliver_def)
    next
      case (FaultEvaluator fp)
      with admitted(5) have "evaluate fp e data (charge data p) = Some q" by (simp add: run_deliver_def)
      then show ?thesis
      proof (cases rule: evaluate_cases)
        case (2 d p1)
        with same_queue_deliver [OF draw_decision_frame(1) [OF 2(2)]] show ?thesis by simp
      next
        case (3 d p1)
        with same_queue_deliver [OF draw_decision_frame(1) [OF 3(2)]] transmit_deliver [OF 3(4)] FaultEvaluator
        show ?thesis by (auto simp: line_on_def)
      qed simp
    qed
  qed simp_all
  then show "deliver q = deliver p" "bound q = bound p"
    "pending p = [] \<Longrightarrow> pending q \<noteq> [] \<Longrightarrow> line_on (deliver p) e" by blast+
qed

lemma tryRead_frame:
  "pending (snd (tryRead e len p)) = pending p" "deliver (snd (tryRead e len p)) = deliver p"
  "bound (snd (tryRead e len p)) = bound p" "p_closed (snd (tryRead e len p)) = p_closed p"
  "readClosed (snd (tryRead e len p)) = readClosed p" "trace (snd (tryRead e len p)) = trace p"
  "timer (snd (tryRead e len p)) = timer p"
  "loss (snd (tryRead e len p)) = loss p" "latency (snd (tryRead e len p)) = latency p"
  "duplicate (snd (tryRead e len p)) = duplicate p" "corrupt (snd (tryRead e len p)) = corrupt p"
  "partitionNetwork (snd (tryRead e len p)) = partitionNetwork p"
  "partitionPair (snd (tryRead e len p)) = partitionPair p"
  by (cases rule: tryRead_cases [where p = p and len = len];
      simp add: tryRead_closed tryRead_data tryRead_idle)+

lemma release_deliver:
  "deliver (releaseDueLatency e p) = deliver p" "bound (releaseDueLatency e p) = bound p"
  "pending p = [] \<Longrightarrow> pending (releaseDueLatency e p) = []"
  "loss (releaseDueLatency e p) = loss p" "latency (releaseDueLatency e p) = latency p"
  "duplicate (releaseDueLatency e p) = duplicate p" "corrupt (releaseDueLatency e p) = corrupt p"
  "trace (releaseDueLatency e p) = trace p"
  by (auto simp: releaseDueLatency_def Let_def)

lemma close_frame [simp]:
  "deliver (close_pipe p) = deliver p" "pending (close_pipe p) = pending p"
  "bound (close_pipe p) = bound p" "readable (close_pipe p) = readable p"
  "loss (close_pipe p) = loss p" "latency (close_pipe p) = latency p"
  "duplicate (close_pipe p) = duplicate p" "corrupt (close_pipe p) = corrupt p"
  "trace (close_pipe p) = trace p" "timer (close_pipe p) = timer p"
  "bufBytes (close_pipe p) = bufBytes p" "readClosed (close_pipe p) = readClosed p"
  "p_closed (close_pipe p)" "eofSeen (close_pipe p) = eofSeen p"
  by (simp_all add: close_pipe_def)

lemma abort_frame [simp]:
  "deliver (abort p) = deliver p" "bound (abort p) = bound p"
  "loss (abort p) = loss p" "latency (abort p) = latency p"
  "duplicate (abort p) = duplicate p" "corrupt (abort p) = corrupt p"
  "trace (abort p) = trace p" "readClosed (abort p)"
  by (simp_all add: abort_def)

lemma pipe_step_deliver: "pipe_step l p = Some q \<Longrightarrow> deliver q = deliver p \<and> bound q = bound p"
  by (cases l; cases "snd l") (auto simp: tryWrite_deliver tryRead_frame release_deliver)

lemma pipe_step_pending:
  "pipe_step l p = Some q \<Longrightarrow> pending p = [] \<Longrightarrow> pending q \<noteq> [] \<Longrightarrow> line_on (deliver p) (fst l)"
  by (cases l; cases "snd l")
     (auto simp: tryWrite_deliver tryRead_frame release_deliver abort_def split: if_splits)

lemma pipe_step_fifo:
  assumes "pipe_step l p = Some q" "fifo_good (l # ls) p"
  shows "in_flight p @ bytes_written l p = bytes_read l p @ in_flight q"
proof -
  obtain e op where l: "l = (e, op)" by (cases l)
  show ?thesis
  proof (cases op)
    case (OpWrite data)
    with assms(1) l obtain r where w: "tryWrite e data p = Some (r, q)" by auto
    have en: "line_enabled e p" using assms(2) l by (auto simp: fifo_good_def line_enabled_on)
    from w show ?thesis
    proof (cases rule: tryWrite_cases)
      case admitted
      with w tryWrite_in_flight [OF _ en] l OpWrite show ?thesis by auto
    qed (use l OpWrite w in auto)
  next
    case (OpRead len)
    with assms(1) l have "tryRead e len p = (fst (tryRead e len p), q)" by (simp add: prod_eq_iff)
    from tryRead_in_flight [OF this] OpRead l show ?thesis by simp
  next
    case OpAbort
    with assms(2) l show ?thesis by (simp add: fifo_good_def)
  qed (use assms(1) l in \<open>auto simp: release_in_flight close_in_flight\<close>)
qed

lemma fifo_good_step:
  assumes "fifo_good (l # ls) p" "pipe_step l p = Some q"
  shows "fifo_good ls q"
  using assms pipe_step_deliver [OF assms(2)] pipe_step_pending [OF assms(2)]
  unfolding fifo_good_def by (cases "pending p = []") auto

interpretation pipe_fifo: fifo_system pipe_step fifo_good in_flight bytes_written bytes_read
  by unfold_locales (simp_all add: fifo_good_step pipe_step_fifo)


section \<open>The draws as a machine of their own\<close>

text \<open>
  What a unit's decision depends on: whether its pair is partitioned, the configuration of
  the faults that draw, and the length of the write. Neither the clock nor the bandwidth, the
  content, the readers or the trace are among it.
\<close>

record drawInput =
  in_partitioned :: bool
  in_faults :: faultConfig
  in_len :: nat

record drawState =
  ds_loss :: "stream option"
  ds_latency :: "stream option"
  ds_duplicate :: "stream option"
  ds_corrupt :: "stream option"
  ds_events :: "faultEvent list option"

definition drawing :: "faultConfig \<Rightarrow> faultConfig" where
  "drawing cfg = cfg\<lparr>bandwidthEnabled := False, bandwidthBPS := 0\<rparr>"

text \<open>An event without the two fields that are measured on the clock.\<close>

definition draw_view :: "faultEvent \<Rightarrow> faultEvent" where
  "draw_view ev = ev\<lparr>ev_serialized := 0, ev_effective := 0\<rparr>"

definition draw_abs :: "pipe \<Rightarrow> drawState" where
  "draw_abs p =
     \<lparr>ds_loss = loss p, ds_latency = latency p, ds_duplicate = duplicate p, ds_corrupt = corrupt p,
      ds_events = map_option (map draw_view) (trace p)\<rparr>"

definition ds_record :: "faultEvent \<Rightarrow> drawState \<Rightarrow> drawState" where
  "ds_record ev s = s\<lparr>ds_events := map_option (\<lambda>evs. evs @ [ev\<lparr>ev_seq := length evs\<rparr>]) (ds_events s)\<rparr>"

text \<open>The corruption site, as the abstract machine draws it.\<close>

definition draw_site :: "bool \<Rightarrow> nat \<Rightarrow> stream option \<Rightarrow> ((nat \<times> nat) \<times> stream option) option" where
  "draw_site co len cs =
     (if co \<and> 0 < len
      then do { st \<leftarrow> cs; (site, st') \<leftarrow> corruptionSite len st; Some (site, Some st') }
      else Some ((0, 0), cs))"

definition draw_unit :: "drawInput \<Rightarrow> drawState \<Rightarrow> drawState option" where
  "draw_unit i s =
     (if in_partitioned i then Some (ds_record (zeroEvent\<lparr>ev_partitioned := True\<rparr>) s)
      else
        let cfg = in_faults i in
        do { (dr, l) \<leftarrow> draw_bernoulli (lossEnabled cfg) (lossRate cfg) (ds_loss s);
             (d, la) \<leftarrow> draw_latency (latencyEnabled cfg) (latencyMin cfg) (latencyMax cfg) (ds_latency s);
             (du, ds) \<leftarrow> draw_bernoulli (duplicateEnabled cfg) (duplicateRate cfg) (ds_duplicate s);
             (co, cs) \<leftarrow> draw_bernoulli (corruptEnabled cfg) (corruptRate cfg) (ds_corrupt s);
             ((j, b), cs') \<leftarrow> draw_site (co \<and> \<not> dr) (in_len i) cs;
             Some (ds_record (zeroEvent\<lparr>ev_dropped := dr, ev_drawn := d, ev_duplicated := du,
                      ev_corrupted := co, ev_size := in_len i, ev_corruptByte := j, ev_corruptBit := b\<rparr>)
               \<lparr>ds_loss = l, ds_latency = la, ds_duplicate = ds, ds_corrupt = cs', ds_events = ds_events s\<rparr>) })"

fun draw_inputs :: "pipe_label \<Rightarrow> pipe \<Rightarrow> drawInput list" where
  "draw_inputs (e, OpWrite data) p =
     (case (tryWrite e data p, deliver p) of
        (Some (Done _ None, _), FaultEvaluator fp) \<Rightarrow>
          [\<lparr>in_partitioned = fp_network fp \<and> isPartitioned (fp_pair fp) (env_parts e),
            in_faults = drawing (current_config fp e), in_len = length data\<rparr>]
      | _ \<Rightarrow> [])"
| "draw_inputs (e, op) p = []"

lemma drawing_simps [simp]:
  "lossEnabled (drawing c) = lossEnabled c" "lossRate (drawing c) = lossRate c"
  "latencyEnabled (drawing c) = latencyEnabled c" "latencyMin (drawing c) = latencyMin c"
  "latencyMax (drawing c) = latencyMax c" "duplicateEnabled (drawing c) = duplicateEnabled c"
  "duplicateRate (drawing c) = duplicateRate c" "corruptEnabled (drawing c) = corruptEnabled c"
  "corruptRate (drawing c) = corruptRate c"
  by (simp_all add: drawing_def)

lemma draw_abs_sel [simp]:
  "ds_loss (draw_abs p) = loss p" "ds_latency (draw_abs p) = latency p"
  "ds_duplicate (draw_abs p) = duplicate p" "ds_corrupt (draw_abs p) = corrupt p"
  "ds_events (draw_abs p) = map_option (map draw_view) (trace p)"
  by (simp_all add: draw_abs_def)

lemma draw_abs_record:
  "draw_abs (record_event ev p) = ds_record (draw_view ev) (draw_abs p)"
  by (cases "trace p")
     (simp_all add: draw_abs_def ds_record_def draw_view_def record_event_def)

lemma draw_abs_cong:
  "loss q = loss p \<Longrightarrow> latency q = latency p \<Longrightarrow> duplicate q = duplicate p \<Longrightarrow> corrupt q = corrupt p \<Longrightarrow>
     trace q = trace p \<Longrightarrow> draw_abs q = draw_abs p"
  by (simp add: draw_abs_def)

lemma draw_abs_discard: "draw_abs (discard ev data p) = draw_abs (record_event ev p)"
  by (rule draw_abs_cong) (simp_all add: record_event_def)

lemma draw_abs_admit [simp]:
  "draw_abs (admit_readable dup data p) = draw_abs p"
  "draw_abs (admit_pending e dup data rel p) = draw_abs p"
  "draw_abs (charge data p) = draw_abs p"
  "draw_abs (passThroughDeliver data p) = draw_abs p"
  by (rule draw_abs_cong; simp add: passThroughDeliver_def)+

lemma corrupt_unit_site:
  assumes "corrupt_unit co data p = Some ((data', i, b), q)"
  shows "draw_site co (length data) (corrupt p) = Some ((i, b), corrupt q)"
  using assms by (auto simp: corrupt_unit_def draw_site_def split: Option.bind_splits if_splits)

lemma transmit_draw_abs:
  assumes "transmit cfg e d data p = Some q"
    and lat: "\<not> latencyEnabled cfg \<Longrightarrow> drawn d = 0"
  obtains i b cs where "draw_site (corrupted d) (length data) (corrupt p) = Some ((i, b), cs)"
    "draw_abs q = ds_record (zeroEvent\<lparr>ev_drawn := drawn d, ev_duplicated := duplicated d,
        ev_corrupted := corrupted d, ev_size := length data, ev_corruptByte := i, ev_corruptBit := b\<rparr>)
        (draw_abs (p\<lparr>corrupt := cs\<rparr>))"
  using assms(1)
proof (cases rule: transmit_cases)
  case (1 data' i b p1 base ser p2)
  note c = corrupt_unit_frame [OF 1(1)] note t = throttle_frame [OF 1(2)]
  have "draw_abs p2 = draw_abs (p\<lparr>corrupt := corrupt p1\<rparr>)"
    by (rule draw_abs_cong) (simp_all add: c t)
  with corrupt_unit_site [OF 1(1)] lat [OF 1(3)] show ?thesis
    by (intro that) (auto simp: 1(5) draw_abs_record draw_view_def zeroEvent_def c(4))
next
  case (2 data' i b p1 base ser p2)
  note c = corrupt_unit_frame [OF 2(1)] note t = throttle_frame [OF 2(2)]
  have "draw_abs p2 = draw_abs (p\<lparr>corrupt := corrupt p1\<rparr>)"
    by (rule draw_abs_cong) (simp_all add: c t)
  with corrupt_unit_site [OF 2(1)] show ?thesis
    by (intro that) (auto simp: 2(4) draw_abs_record draw_view_def zeroEvent_def c(4))
qed

lemma draw_latency_off: "draw_latency False dmin dmax s = Some (d, s') \<Longrightarrow> d = 0"
  by (simp add: draw_latency_def)

lemma evaluate_draw_abs:
  assumes "evaluate fp e data p = Some q"
  shows "draw_unit \<lparr>in_partitioned = fp_network fp \<and> isPartitioned (fp_pair fp) (env_parts e),
     in_faults = drawing (current_config fp e), in_len = length data\<rparr> (draw_abs p) = Some (draw_abs q)"
  using assms
proof (cases rule: evaluate_cases)
  case 1
  then show ?thesis
    by (simp add: draw_unit_def draw_abs_discard draw_abs_record draw_view_def zeroEvent_def)
next
  case (2 d p1)
  from 2(2) show ?thesis
  proof (rule draw_decision_shape)
    fix l la ds cs
    assume p1: "p1 = p\<lparr>loss := l, latency := la, duplicate := ds, corrupt := cs\<rparr>"
      and dr: "draw_bernoulli (lossEnabled (current_config fp e)) (lossRate (current_config fp e)) (loss p) = Some (dropped d, l)"
      "draw_latency (latencyEnabled (current_config fp e)) (latencyMin (current_config fp e)) (latencyMax (current_config fp e)) (latency p) = Some (drawn d, la)"
      "draw_bernoulli (duplicateEnabled (current_config fp e)) (duplicateRate (current_config fp e)) (duplicate p) = Some (duplicated d, ds)"
      "draw_bernoulli (corruptEnabled (current_config fp e)) (corruptRate (current_config fp e)) (corrupt p) = Some (corrupted d, cs)"
    have np: "(fp_network fp \<and> isPartitioned (fp_pair fp) (env_parts e)) = False" using 2(1) by simp
    from 2(3) dr show ?thesis
      by (simp add: draw_unit_def np 2(4) draw_abs_discard Let_def draw_abs_record draw_site_def)
         (simp add: draw_abs_def draw_view_def zeroEvent_def p1)
  qed
next
  case (3 d p1)
  from 3(2) show ?thesis
  proof (rule draw_decision_shape)
    fix l la ds cs
    assume p1: "p1 = p\<lparr>loss := l, latency := la, duplicate := ds, corrupt := cs\<rparr>"
      and dr: "draw_bernoulli (lossEnabled (current_config fp e)) (lossRate (current_config fp e)) (loss p) = Some (dropped d, l)"
      "draw_latency (latencyEnabled (current_config fp e)) (latencyMin (current_config fp e)) (latencyMax (current_config fp e)) (latency p) = Some (drawn d, la)"
      "draw_bernoulli (duplicateEnabled (current_config fp e)) (duplicateRate (current_config fp e)) (duplicate p) = Some (duplicated d, ds)"
      "draw_bernoulli (corruptEnabled (current_config fp e)) (corruptRate (current_config fp e)) (corrupt p) = Some (corrupted d, cs)"
    have "\<not> latencyEnabled (current_config fp e) \<Longrightarrow> drawn d = 0"
      using dr(2) draw_latency_off by simp
    from transmit_draw_abs [OF 3(4) this] obtain i b cs' where
      site: "draw_site (corrupted d) (length data) (corrupt p1) = Some ((i, b), cs')"
      and q: "draw_abs q = ds_record (zeroEvent\<lparr>ev_drawn := drawn d, ev_duplicated := duplicated d,
        ev_corrupted := corrupted d, ev_size := length data, ev_corruptByte := i, ev_corruptBit := b\<rparr>)
        (draw_abs (p1\<lparr>corrupt := cs'\<rparr>))" .
    from site have "draw_site (corrupted d) (length data) cs = Some ((i, b), cs')"
      by (simp add: p1)
    moreover have np: "(fp_network fp \<and> isPartitioned (fp_pair fp) (env_parts e)) = False" using 3(1) by simp
    ultimately show ?thesis
      using 3(3) dr by (simp add: draw_unit_def np Let_def q p1) (simp add: draw_abs_def zeroEvent_def)
  qed
qed

lemma pipe_step_draws:
  assumes "pipe_step l p = Some q"
  shows "run_steps draw_unit (draw_inputs l p) (draw_abs p) = Some (draw_abs q)"
proof -
  obtain e op where l: "l = (e, op)" by (cases l)
  show ?thesis
  proof (cases op)
    case (OpWrite data)
    with assms l obtain r where w: "tryWrite e data p = Some (r, q)" by auto
    from w show ?thesis
    proof (cases rule: tryWrite_cases)
      case admitted
      show ?thesis
      proof (cases "deliver p")
        case PassThroughDeliver
        with admitted(5) w admitted(4) l OpWrite show ?thesis by (auto simp: run_deliver_def)
      next
        case (FaultEvaluator fp)
        with admitted(5) have "evaluate fp e data (charge data p) = Some q" by (simp add: run_deliver_def)
        from evaluate_draw_abs [OF this] w admitted(4) l OpWrite FaultEvaluator show ?thesis
          by simp
      qed
    qed (use l OpWrite w in auto)
  qed (use assms l in \<open>auto intro!: draw_abs_cong simp: tryRead_frame release_deliver\<close>)
qed

interpretation pipe_draws: run_refinement pipe_step draw_unit draw_abs draw_inputs
  by unfold_locales (rule pipe_step_draws)


section \<open>The fault kinds do not disturb each other\<close>

text \<open>
  A drawing fault as a stage of the draw machine: its verdict and its stream after a unit
  depend on its own settings and its own stream only. Over a run, the sequence of its verdicts
  is a function of the sequence of its settings.
\<close>

fun stage_run ::
  "('c \<Rightarrow> stream option \<Rightarrow> ('d \<times> stream option) option) \<Rightarrow> 'd \<Rightarrow> 'c option list \<Rightarrow> stream option
     \<Rightarrow> ('d list \<times> stream option) option" where
  "stage_run stage none [] st = Some ([], st)"
| "stage_run stage none (c # cs) st =
     do { (v, st') \<leftarrow> (case c of None \<Rightarrow> Some (none, st) | Some c \<Rightarrow> stage c st);
          (vs, st'') \<leftarrow> stage_run stage none cs st';
          Some (v # vs, st'') }"

definition stage_inputs :: "(faultConfig \<Rightarrow> 'c) \<Rightarrow> drawInput list \<Rightarrow> 'c option list" where
  "stage_inputs setting is =
     map (\<lambda>i. if in_partitioned i then None else Some (setting (in_faults i))) is"

locale draw_stage =
  fixes stage :: "'c \<Rightarrow> stream option \<Rightarrow> ('d \<times> stream option) option"
    and none :: 'd
    and setting :: "faultConfig \<Rightarrow> 'c"
    and stream_of :: "drawState \<Rightarrow> stream option"
    and verdict :: "faultEvent \<Rightarrow> 'd"
  assumes stage_partitioned: "in_partitioned i \<Longrightarrow> draw_unit i s = Some t \<Longrightarrow>
      stream_of t = stream_of s
      \<and> (\<exists>ev. verdict ev = none \<and> ds_events t = map_option (\<lambda>evs. evs @ [ev]) (ds_events s))"
    and stage_unit: "\<not> in_partitioned i \<Longrightarrow> draw_unit i s = Some t \<Longrightarrow>
      \<exists>ev. stage (setting (in_faults i)) (stream_of s) = Some (verdict ev, stream_of t)
         \<and> ds_events t = map_option (\<lambda>evs. evs @ [ev]) (ds_events s)"
begin

lemma run_stage:
  "run_steps draw_unit is s = Some t \<Longrightarrow>
     \<exists>new. stage_run stage none (stage_inputs setting is) (stream_of s) = Some (map verdict new, stream_of t)
        \<and> ds_events t = map_option (\<lambda>evs. evs @ new) (ds_events s)"
proof (induction "is" arbitrary: s)
  case Nil
  then show ?case by (auto simp: stage_inputs_def option.map_ident intro: exI [of _ "[]"])
next
  case (Cons i "is")
  then obtain u where u: "draw_unit i s = Some u" "run_steps draw_unit is u = Some t"
    by (auto split: option.splits)
  from Cons.IH [OF u(2)] obtain new where
    new: "stage_run stage none (stage_inputs setting is) (stream_of u) = Some (map verdict new, stream_of t)"
    "ds_events t = map_option (\<lambda>evs. evs @ new) (ds_events u)" by blast
  obtain ev where ev: "ds_events u = map_option (\<lambda>evs. evs @ [ev]) (ds_events s)"
    "stage_run stage none (stage_inputs setting [i]) (stream_of s) = Some ([verdict ev], stream_of u)"
  proof (cases "in_partitioned i")
    case True
    from stage_partitioned [OF this u(1)] True that show ?thesis
      by (auto simp: stage_inputs_def)
  next
    case False
    from stage_unit [OF this u(1)] False that show ?thesis
      by (auto simp: stage_inputs_def)
  qed
  from ev(2) new(1)
  have "stage_run stage none (stage_inputs setting (i # is)) (stream_of s)
      = Some (map verdict (ev # new), stream_of t)"
    by (auto simp: stage_inputs_def split: Option.bind_splits option.splits if_splits)
  moreover have "ds_events t = map_option (\<lambda>evs. evs @ (ev # new)) (ds_events s)"
    using new(2) ev(1) by (cases "ds_events s") simp_all
  ultimately show ?case by blast
qed

lemma verdicts_independent:
  assumes "run_steps draw_unit is s = Some t" "run_steps draw_unit js u = Some v"
    and "stage_inputs setting is = stage_inputs setting js" "stream_of s = stream_of u"
    and "ds_events s = Some []" "ds_events u = Some []"
  shows "stream_of t = stream_of v
    \<and> map_option (map verdict) (ds_events t) = map_option (map verdict) (ds_events v)"
  using run_stage [OF assms(1)] run_stage [OF assms(2)] assms(3-6) by auto

end

lemma ds_record_sel [simp]:
  "ds_loss (ds_record ev s) = ds_loss s" "ds_latency (ds_record ev s) = ds_latency s"
  "ds_duplicate (ds_record ev s) = ds_duplicate s" "ds_corrupt (ds_record ev s) = ds_corrupt s"
  by (simp_all add: ds_record_def)

lemma ds_record_event:
  obtains n where "ds_events (ds_record ev s) = map_option (\<lambda>evs. evs @ [ev\<lparr>ev_seq := n\<rparr>]) (ds_events s)"
proof (cases "ds_events s")
  case (Some evs)
  then show ?thesis by (intro that [of "length evs"]) (simp add: ds_record_def)
qed (simp add: that ds_record_def)

lemma zeroEvent_sel [simp]:
  "\<not> ev_partitioned zeroEvent" "\<not> ev_dropped zeroEvent" "\<not> ev_duplicated zeroEvent"
  "\<not> ev_corrupted zeroEvent" "ev_drawn zeroEvent = 0" "ev_serialized zeroEvent = 0"
  "ev_effective zeroEvent = 0" "ev_size zeroEvent = 0" "ev_corruptByte zeroEvent = 0"
  "ev_corruptBit zeroEvent = 0"
  by (simp_all add: zeroEvent_def)

lemma draw_unit_partitioned:
  assumes "in_partitioned i" "draw_unit i s = Some t"
  obtains n where "ds_loss t = ds_loss s" "ds_latency t = ds_latency s"
    "ds_duplicate t = ds_duplicate s" "ds_corrupt t = ds_corrupt s"
    "ds_events t = map_option (\<lambda>evs. evs @ [zeroEvent\<lparr>ev_partitioned := True, ev_seq := n\<rparr>]) (ds_events s)"
proof -
  have t: "t = ds_record (zeroEvent\<lparr>ev_partitioned := True\<rparr>) s"
    using assms by (simp add: draw_unit_def)
  obtain n where "ds_events t = map_option (\<lambda>evs. evs @ [zeroEvent\<lparr>ev_partitioned := True, ev_seq := n\<rparr>]) (ds_events s)"
    unfolding t by (rule ds_record_event)
  with t that show ?thesis by simp
qed

text \<open>One unit past the partition gate: each fault's draw, and the event that reports them.\<close>

lemma draw_unit_event:
  assumes "\<not> in_partitioned i" "draw_unit i s = Some t"
  obtains ev cs where
    "ds_events t = map_option (\<lambda>evs. evs @ [ev]) (ds_events s)" "\<not> ev_partitioned ev"
    "draw_bernoulli (lossEnabled (in_faults i)) (lossRate (in_faults i)) (ds_loss s)
       = Some (ev_dropped ev, ds_loss t)"
    "draw_latency (latencyEnabled (in_faults i)) (latencyMin (in_faults i)) (latencyMax (in_faults i)) (ds_latency s)
       = Some (ev_drawn ev, ds_latency t)"
    "draw_bernoulli (duplicateEnabled (in_faults i)) (duplicateRate (in_faults i)) (ds_duplicate s)
       = Some (ev_duplicated ev, ds_duplicate t)"
    "draw_bernoulli (corruptEnabled (in_faults i)) (corruptRate (in_faults i)) (ds_corrupt s)
       = Some (ev_corrupted ev, cs)"
    "draw_site (ev_corrupted ev \<and> \<not> ev_dropped ev) (in_len i) cs
       = Some ((ev_corruptByte ev, ev_corruptBit ev), ds_corrupt t)"
    "ev_size ev = in_len i"
proof -
  obtain dr l d la du ds co cs j b cs' where r:
    "draw_bernoulli (lossEnabled (in_faults i)) (lossRate (in_faults i)) (ds_loss s) = Some (dr, l)"
    "draw_latency (latencyEnabled (in_faults i)) (latencyMin (in_faults i)) (latencyMax (in_faults i)) (ds_latency s) = Some (d, la)"
    "draw_bernoulli (duplicateEnabled (in_faults i)) (duplicateRate (in_faults i)) (ds_duplicate s) = Some (du, ds)"
    "draw_bernoulli (corruptEnabled (in_faults i)) (corruptRate (in_faults i)) (ds_corrupt s) = Some (co, cs)"
    "draw_site (co \<and> \<not> dr) (in_len i) cs = Some ((j, b), cs')"
    "t = ds_record (zeroEvent\<lparr>ev_dropped := dr, ev_drawn := d, ev_duplicated := du,
                    ev_corrupted := co, ev_size := in_len i, ev_corruptByte := j, ev_corruptBit := b\<rparr>)
             \<lparr>ds_loss = l, ds_latency = la, ds_duplicate = ds, ds_corrupt = cs', ds_events = ds_events s\<rparr>"
    using assms unfolding draw_unit_def by (auto simp: Let_def split: Option.bind_splits)
  let ?ev = "zeroEvent\<lparr>ev_dropped := dr, ev_drawn := d, ev_duplicated := du,
                    ev_corrupted := co, ev_size := in_len i, ev_corruptByte := j, ev_corruptBit := b\<rparr>"
  let ?s = "\<lparr>ds_loss = l, ds_latency = la, ds_duplicate = ds, ds_corrupt = cs', ds_events = ds_events s\<rparr>"
  obtain n where "ds_events (ds_record ?ev ?s) = map_option (\<lambda>evs. evs @ [?ev\<lparr>ev_seq := n\<rparr>]) (ds_events ?s)"
    by (rule ds_record_event)
  with r show ?thesis
    by (intro that [of "?ev\<lparr>ev_seq := n\<rparr>" cs]) simp_all
qed

interpretation loss_stage: draw_stage "\<lambda>(en, rate). draw_bernoulli en rate" False
  "\<lambda>c. (lossEnabled c, lossRate c)" ds_loss ev_dropped
proof
  fix i s t assume "in_partitioned i" "draw_unit i s = Some t"
  then show "ds_loss t = ds_loss s
      \<and> (\<exists>ev. ev_dropped ev = False \<and> ds_events t = map_option (\<lambda>evs. evs @ [ev]) (ds_events s))"
    by (rule draw_unit_partitioned) (auto intro!: exI)
next
  fix i s t assume "\<not> in_partitioned i" "draw_unit i s = Some t"
  then show "\<exists>ev. (case (lossEnabled (in_faults i), lossRate (in_faults i)) of (en, rate) \<Rightarrow> draw_bernoulli en rate) (ds_loss s)
       = Some (ev_dropped ev, ds_loss t) \<and> ds_events t = map_option (\<lambda>evs. evs @ [ev]) (ds_events s)"
    by (rule draw_unit_event) auto
qed

interpretation latency_stage: draw_stage "\<lambda>(en, dmin, dmax). draw_latency en dmin dmax" 0
  "\<lambda>c. (latencyEnabled c, latencyMin c, latencyMax c)" ds_latency ev_drawn
proof
  fix i s t assume "in_partitioned i" "draw_unit i s = Some t"
  then show "ds_latency t = ds_latency s
      \<and> (\<exists>ev. ev_drawn ev = 0 \<and> ds_events t = map_option (\<lambda>evs. evs @ [ev]) (ds_events s))"
    by (rule draw_unit_partitioned) (auto intro!: exI)
next
  fix i s t assume "\<not> in_partitioned i" "draw_unit i s = Some t"
  then show "\<exists>ev. (case (latencyEnabled (in_faults i), latencyMin (in_faults i), latencyMax (in_faults i)) of
         (en, dmin, dmax) \<Rightarrow> draw_latency en dmin dmax) (ds_latency s)
       = Some (ev_drawn ev, ds_latency t) \<and> ds_events t = map_option (\<lambda>evs. evs @ [ev]) (ds_events s)"
    by (rule draw_unit_event) auto
qed

interpretation duplicate_stage: draw_stage "\<lambda>(en, rate). draw_bernoulli en rate" False
  "\<lambda>c. (duplicateEnabled c, duplicateRate c)" ds_duplicate ev_duplicated
proof
  fix i s t assume "in_partitioned i" "draw_unit i s = Some t"
  then show "ds_duplicate t = ds_duplicate s
      \<and> (\<exists>ev. ev_duplicated ev = False \<and> ds_events t = map_option (\<lambda>evs. evs @ [ev]) (ds_events s))"
    by (rule draw_unit_partitioned) (auto intro!: exI)
next
  fix i s t assume "\<not> in_partitioned i" "draw_unit i s = Some t"
  then show "\<exists>ev. (case (duplicateEnabled (in_faults i), duplicateRate (in_faults i)) of (en, rate) \<Rightarrow> draw_bernoulli en rate) (ds_duplicate s)
       = Some (ev_duplicated ev, ds_duplicate t) \<and> ds_events t = map_option (\<lambda>evs. evs @ [ev]) (ds_events s)"
    by (rule draw_unit_event) auto
qed


section \<open>No wakeup is missed\<close>

text \<open>
  A reader or a writer that cannot proceed waits on the channel it read under the same lock.
  \<open>read_blocked\<close> and \<open>write_blocked\<close> say, in terms of the queue, that an attempt would be told
  to wait on the pipe's own channel.
\<close>

definition read_blocked :: "nat \<Rightarrow> pipe \<Rightarrow> bool" where
  "read_blocked len p \<longleftrightarrow>
     \<not> readClosed p \<and> readable p = [] \<and> \<not> (p_closed p \<and> pending p = [])"

definition write_blocked :: "nat \<Rightarrow> pipe \<Rightarrow> bool" where
  "write_blocked len p \<longleftrightarrow>
     \<not> p_closed p \<and> \<not> readClosed p \<and> 0 < bufBytes p \<and> bound p < bufBytes p + int len"

lemma tryRead_blocked:
  "read_blocked len p \<Longrightarrow> tryRead e len p = (Wait (NotifyCh (notify p)), p)"
  by (auto simp: read_blocked_def tryRead_idle read_idle_def drop_empty_def)

lemma tryRead_wait:
  assumes "tryRead e len p = (Wait (NotifyCh g), q)"
  shows "read_blocked len q \<and> notify q = g"
  using assms
  by (cases rule: tryRead_cases [where p = p and len = len])
     (auto simp: tryRead_closed tryRead_data tryRead_idle read_idle_def read_blocked_def split: if_splits)

lemma pipe_inv_buf: "pipe_inv p \<Longrightarrow> 0 \<le> bufBytes p"
  by (simp add: pipe_inv_def)

lemma tryWrite_blocked_iff:
  assumes "pipe_inv p"
  shows "tryWrite e data p = Some (Wait ch, q) \<longleftrightarrow>
     write_blocked (length data) p \<and> ch = NotifyCh (notify p) \<and> q = p"
  using pipe_inv_buf [OF assms] by (auto simp: tryWrite_def write_blocked_def not_le)

lemma transmit_notify:
  assumes "transmit cfg e d data0 p = Some q"
  shows "notify p \<le> notify q
    \<and> (notify q = notify p \<longrightarrow> readable q = readable p \<and> p_closed q = p_closed p
         \<and> readClosed q = readClosed p \<and> bufBytes p \<le> bufBytes q)
    \<and> (pending p \<noteq> [] \<longrightarrow> pending q \<noteq> [])"
  using assms
proof (cases rule: transmit_cases)
  case (1 data i b p1 base ser p2)
  have "same_queue p p2"
    using corrupt_unit_frame(1) [OF 1(1)] throttle_frame(1) [OF 1(2)] by (rule same_queue_trans)
  then show ?thesis by (simp add: 1(5) same_queue_def)
next
  case (2 data i b p1 base ser p2)
  have "same_queue p p2"
    using corrupt_unit_frame(1) [OF 2(1)] throttle_frame(1) [OF 2(2)] by (rule same_queue_trans)
  then show ?thesis by (simp add: 2(4) same_queue_def)
qed

lemma evaluate_notify:
  assumes "evaluate fp e data p = Some q"
  shows "notify p \<le> notify q
    \<and> (notify q = notify p \<longrightarrow> readable q = readable p \<and> p_closed q = p_closed p
         \<and> readClosed q = readClosed p \<and> bufBytes p \<le> bufBytes q)
    \<and> (pending p \<noteq> [] \<longrightarrow> pending q \<noteq> [])"
  using assms
proof (cases rule: evaluate_cases)
  case (2 d p1)
  then show ?thesis using draw_decision_frame(1) [OF 2(2)] by (simp add: same_queue_def)
next
  case (3 d p1)
  then show ?thesis
    using draw_decision_frame(1) [OF 3(2)] transmit_notify [OF 3(4)] by (simp add: same_queue_def)
qed simp

text \<open>
  An operation that does not replace the channel leaves alone what blocked attempts depend on.
\<close>

definition quiet :: "pipe \<Rightarrow> pipe \<Rightarrow> bool" where
  "quiet p q \<longleftrightarrow> readable q = readable p \<and> p_closed q = p_closed p \<and> readClosed q = readClosed p
     \<and> bufBytes p \<le> bufBytes q \<and> (p_closed p \<longrightarrow> pending q = pending p)
     \<and> (pending p \<noteq> [] \<longrightarrow> pending q \<noteq> [])"

lemma tryWrite_quiet:
  assumes "tryWrite e data p = Some (r, q)"
  shows "notify p \<le> notify q \<and> (notify q = notify p \<longrightarrow> quiet p q)"
  using assms
proof (cases rule: tryWrite_cases)
  case admitted
  show ?thesis
  proof (cases "deliver p")
    case PassThroughDeliver
    with admitted(5) show ?thesis by (auto simp: run_deliver_def passThroughDeliver_def quiet_def)
  next
    case (FaultEvaluator fp)
    with admitted(5) have "evaluate fp e data (charge data p) = Some q" by (simp add: run_deliver_def)
    from evaluate_notify [OF this] admitted(1) show ?thesis by (auto simp: quiet_def)
  qed
qed (simp_all add: quiet_def)

lemma tryRead_quiet:
  "notify p \<le> notify (snd (tryRead e len p))
   \<and> (notify (snd (tryRead e len p)) = notify p \<longrightarrow> quiet p (snd (tryRead e len p)))"
  by (cases rule: tryRead_cases [where p = p and len = len])
     (auto simp: tryRead_closed tryRead_data tryRead_idle quiet_def drop_empty_def)

lemma release_quiet:
  "notify p \<le> notify (releaseDueLatency e p)
   \<and> (notify (releaseDueLatency e p) = notify p \<longrightarrow> quiet p (releaseDueLatency e p))"
proof (cases "readClosed p")
  case True
  then show ?thesis by (simp add: releaseDueLatency_def quiet_def)
next
  case False
  then show ?thesis
    using pending_split [of "env_now e" p]
    by (cases "due_units (env_now e) p") (simp_all add: release_frame quiet_def del: dropWhile_eq_Nil_conv)
qed

lemma pipe_step_quiet:
  assumes "pipe_step l p = Some q"
  shows "notify p \<le> notify q \<and> (notify q = notify p \<longrightarrow> quiet p q)"
proof -
  obtain e op where l: "l = (e, op)" by (cases l)
  show ?thesis
  proof (cases op)
    case (OpRead len)
    with assms l tryRead_quiet [of p e len] show ?thesis by simp
  next
    case OpTimer
    with assms l release_quiet [of p e] show ?thesis by simp
  qed (use assms l in \<open>auto dest: tryWrite_quiet simp: close_pipe_def abort_def quiet_def split: if_splits\<close>)
qed

lemma pipe_step_bound: "pipe_step l p = Some q \<Longrightarrow> bound q = bound p"
  by (simp add: pipe_step_deliver)

interpretation pipe_chan: gen_channel notify broadcastLocked
  by unfold_locales simp

interpretation readers: wait_channel notify broadcastLocked pipe_step read_blocked
proof unfold_locales
  fix l s t w
  assume "pipe_step l s = Some t" "notify t = notify s" "read_blocked w s"
  with pipe_step_quiet [of l s t] show "read_blocked w t"
    by (auto simp: read_blocked_def quiet_def)
qed (simp add: pipe_step_quiet)

interpretation writers: wait_channel notify broadcastLocked pipe_step write_blocked
proof unfold_locales
  fix l s t w
  assume "pipe_step l s = Some t" "notify t = notify s" "write_blocked w s"
  with pipe_step_quiet [of l s t] pipe_step_bound [of l s t] show "write_blocked w t"
    by (auto simp: write_blocked_def quiet_def)
qed (simp add: pipe_step_quiet)


section \<open>End of stream\<close>

text \<open>Once a reader has seen the end of the stream, nothing can make it see anything else.\<close>

definition at_eof :: "pipe \<Rightarrow> bool" where
  "at_eof p \<longleftrightarrow> readClosed p \<or> (eofSeen p \<and> p_closed p \<and> readable p = [] \<and> pending p = [])"

lemma at_eof_read: "at_eof p \<Longrightarrow> tryRead e len p = (Done [] (Some EOF), p)"
  by (auto simp: at_eof_def tryRead_closed tryRead_def)

lemma tryRead_eof:
  assumes "tryRead e len p = (Done out (Some err), q)"
  shows "err = EOF \<and> out = [] \<and> at_eof q \<and> (\<not> readClosed p \<longrightarrow> p_closed p \<and> in_flight p = [])"
  using assms
  by (cases rule: tryRead_cases [where p = p and len = len])
     (auto simp: tryRead_closed tryRead_data tryRead_idle read_idle_def at_eof_def in_flight_def
       split: if_splits)

lemma at_eof_step: "at_eof p \<Longrightarrow> pipe_step l p = Some q \<Longrightarrow> at_eof q"
proof -
  assume eof: "at_eof p" and step: "pipe_step l p = Some q"
  obtain e op where l: "l = (e, op)" by (cases l)
  have "p_closed p \<or> readClosed p" using eof by (auto simp: at_eof_def)
  then have w: "tryWrite e data p = Some (Done 0 (Some ErrClosedPipe), p)" for data
    by (auto simp: tryWrite_def)
  have r: "at_eof (releaseDueLatency e p)"
    using eof by (cases "readClosed p") (auto simp: at_eof_def releaseDueLatency_def Let_def)
  show ?thesis
  proof (cases op)
    case OpClose
    with eof step l show ?thesis by (auto simp: close_pipe_def at_eof_def split: if_splits)
  next
    case OpAbort
    with step l show ?thesis by (auto simp: at_eof_def)
  qed (use eof step l w r at_eof_read [OF eof] in auto)
qed

lemma at_eof_run: "at_eof p \<Longrightarrow> run_steps pipe_step ls p = Some q \<Longrightarrow> at_eof q"
  using run_steps_inv [of pipe_step ls p q at_eof] at_eof_step by blast

section \<open>A closed direction drains\<close>

text \<open>Reading with a buffer of \<open>len\<close> until an error or a wait, at most \<open>fuel\<close> times.\<close>

fun read_all :: "env \<Rightarrow> nat \<Rightarrow> nat \<Rightarrow> pipe \<Rightarrow> bytes \<times> go_error option" where
  "read_all e len 0 p = ([], None)"
| "read_all e len (Suc fuel) p =
     (case tryRead e len p of
        (Done out None, q) \<Rightarrow> (let (rest, err) = read_all e len fuel q in (out @ rest, err))
      | (Done out (Some err), q) \<Rightarrow> (out, Some err)
      | (Wait _, q) \<Rightarrow> ([], None))"

definition eof_held :: "env \<Rightarrow> pipe \<Rightarrow> bool" where
  "eof_held e p \<longleftrightarrow> \<not> eofSeen p \<and> partitionNetwork p \<and> isPartitioned (partitionPair p) (env_parts e)"

lemma read_all_drains:
  assumes "p_closed p" "\<not> readClosed p" "pending p = []" "\<not> eof_held e p" "0 < len"
    and "length (concat (readable p)) < fuel"
  shows "read_all e len fuel p = (concat (readable p), Some EOF)"
  using assms
proof (induction fuel arbitrary: p)
  case 0
  then show ?case by simp
next
  case (Suc fuel)
  show ?case
  proof (cases "concat (readable p) = []")
    case True
    with Suc.prems have "tryRead e len p = read_idle e (drop_empty p)" by (simp add: tryRead_idle)
    with Suc.prems True show ?thesis
      by (auto simp: read_idle_def eof_held_def)
  next
    case False
    let ?c = "consume len (readable p)"
    let ?q = "broadcastLocked (p\<lparr>readable := snd ?c, bufBytes := bufBytes p - int (length (fst ?c))\<rparr>)"
    have r: "tryRead e len p = (Done (fst ?c) None, ?q)"
      using False Suc.prems(2) by (intro tryRead_data) auto
    have split: "fst ?c @ concat (snd ?c) = concat (readable p)" using consume_spec by blast
    have "fst ?c \<noteq> []" using False Suc.prems(5) by (simp add: consume_empty_iff)
    then have "0 < length (fst ?c)" by simp
    moreover have "length (concat (readable p)) = length (fst ?c) + length (concat (snd ?c))"
      by (simp only: split [symmetric] length_append)
    ultimately have "length (concat (snd ?c)) < fuel" using Suc.prems(6) by linarith
    then have "read_all e len fuel ?q = (concat (readable ?q), Some EOF)"
      using Suc.prems by (intro Suc.IH) (simp_all add: eof_held_def)
    with r split show ?thesis by simp
  qed
qed

lemma release_all:
  assumes "\<forall>u \<in> set (pending p). releaseAt u \<le> env_now e" "\<not> readClosed p"
  shows "pending (releaseDueLatency e p) = []" "concat (readable (releaseDueLatency e p)) = in_flight p"
proof -
  have "due_units (env_now e) p = pending p"
    using assms(1) by (simp add: due_units_def takeWhile_eq_all_conv)
  with assms(2) pending_split [of "env_now e" p]
  show "pending (releaseDueLatency e p) = []" "concat (readable (releaseDueLatency e p)) = in_flight p"
    by (simp_all add: release_frame in_flight_def del: dropWhile_eq_Nil_conv)
qed

section \<open>Back-pressure\<close>

text \<open>
  With writes of at most \<open>m\<close> bytes, a direction holds at most the larger of its bound and one
  write, plus one duplicated copy.
\<close>

definition fill_bound :: "nat \<Rightarrow> pipe \<Rightarrow> bool" where
  "fill_bound m p \<longleftrightarrow> bufBytes p \<le> max (bound p) (int m) + int m"

lemma transmit_buf:
  assumes "transmit cfg e d data p = Some q"
  shows "bufBytes q = bufBytes p + (if duplicated d then int (length data) else 0)"
  using assms
proof (cases rule: transmit_cases)
  case (1 data' i b p1 base ser p2)
  have "same_queue p p2"
    using corrupt_unit_frame(1) [OF 1(1)] throttle_frame(1) [OF 1(2)] by (rule same_queue_trans)
  with corrupt_unit_frame(4) [OF 1(1)] show ?thesis by (simp add: 1(5) same_queue_def)
next
  case (2 data' i b p1 base ser p2)
  have "same_queue p p2"
    using corrupt_unit_frame(1) [OF 2(1)] throttle_frame(1) [OF 2(2)] by (rule same_queue_trans)
  with corrupt_unit_frame(4) [OF 2(1)] show ?thesis by (simp add: 2(4) same_queue_def)
qed

lemma tryWrite_buf:
  assumes "tryWrite e data p = Some (Done n None, q)"
  shows "n = length data" "bufBytes q \<le> bufBytes p + 2 * int (length data)"
    "bufBytes p = 0 \<or> bufBytes p + int (length data) \<le> bound p"
proof -
  from assms have "n = length data \<and> bufBytes q \<le> bufBytes p + 2 * int (length data)
    \<and> (bufBytes p = 0 \<or> bufBytes p + int (length data) \<le> bound p)"
  proof (cases rule: tryWrite_cases)
    case admitted
    have "bufBytes q \<le> bufBytes p + 2 * int (length data)"
    proof (cases "deliver p")
      case PassThroughDeliver
      with admitted(5) show ?thesis by (auto simp: run_deliver_def passThroughDeliver_def)
    next
      case (FaultEvaluator fp)
      with admitted(5) have "evaluate fp e data (charge data p) = Some q" by (simp add: run_deliver_def)
      then show ?thesis
      proof (cases rule: evaluate_cases)
        case (2 d p1)
        then show ?thesis using draw_decision_frame(1) [OF 2(2)] by (simp add: same_queue_def)
      next
        case (3 d p1)
        then show ?thesis
          using draw_decision_frame(1) [OF 3(2)] transmit_buf [OF 3(4)] by (simp add: same_queue_def)
      qed simp
    qed
    with admitted show ?thesis by simp
  qed simp_all
  then show "n = length data" "bufBytes q \<le> bufBytes p + 2 * int (length data)"
    "bufBytes p = 0 \<or> bufBytes p + int (length data) \<le> bound p" by blast+
qed

lemma fill_bound_step:
  assumes "pipe_step l p = Some q" "fill_bound m p" "\<forall>data. snd l = OpWrite data \<longrightarrow> length data \<le> m"
  shows "fill_bound m q"
proof -
  obtain e op where l: "l = (e, op)" by (cases l)
  have b: "bound q = bound p" using pipe_step_bound [OF assms(1)] .
  show ?thesis
  proof (cases op)
    case (OpWrite data)
    with assms(1) l obtain r where w: "tryWrite e data p = Some (r, q)" by auto
    have m: "int (length data) \<le> int m" using assms(3) l OpWrite by simp
    from w show ?thesis
    proof (cases rule: tryWrite_cases)
      case admitted
      with w have "tryWrite e data p = Some (Done (length data) None, q)" by simp
      from tryWrite_buf(2,3) [OF this] m b show ?thesis
        unfolding fill_bound_def by linarith
    qed (use assms(2) in simp_all)
  next
    case (OpRead len)
    have "bufBytes (snd (tryRead e len p)) \<le> bufBytes p"
      by (cases rule: tryRead_cases [where p = p and len = len])
         (simp_all add: tryRead_closed tryRead_data tryRead_idle)
    with OpRead assms(1,2) l b show ?thesis by (auto simp: fill_bound_def)
  next
    case OpTimer
    have "bufBytes (releaseDueLatency e p) = bufBytes p"
      by (simp add: releaseDueLatency_def Let_def)
    with OpTimer assms(1,2) l b show ?thesis by (auto simp: fill_bound_def)
  next
    case OpClose
    with assms(1) l have "q = close_pipe p" by simp
    with assms(2) show ?thesis by (simp add: fill_bound_def)
  next
    case OpAbort
    with assms(1) l have q: "q = abort p" by simp
    show ?thesis
    proof (cases "readClosed p")
      case True
      with q assms(2) show ?thesis by (simp add: abort_def)
    next
      case False
      then have "bufBytes (abort p) = 0" by (simp add: abort_def)
      with q show ?thesis by (simp add: fill_bound_def)
    qed
  qed
qed

lemma fill_bound_run:
  assumes "run_steps pipe_step ls p = Some q" "fill_bound m p"
    and "\<And>e data. (e, OpWrite data) \<in> set ls \<Longrightarrow> length data \<le> m"
  shows "fill_bound m q"
proof (rule run_steps_inv [where P = "fill_bound m", OF assms(1,2)])
  fix l u v
  assume "l \<in> set ls" "fill_bound m u" "pipe_step l u = Some v"
  moreover have "\<forall>data. snd l = OpWrite data \<longrightarrow> length data \<le> m"
    using assms(3) calculation(1) by (metis prod.collapse)
  ultimately show "fill_bound m v" by (metis fill_bound_step)
qed

section \<open>The timer\<close>

text \<open>
  \<open>timer_ok\<close> holds whatever happens, as long as the clock does not run backwards: a unit on
  the line always has a timer that fires in time.
\<close>

lemma timer_ok_same:
  "timer_ok now p \<Longrightarrow> pending q = pending p \<Longrightarrow> timer q = timer p \<Longrightarrow> timer_ok now q"
  by (cases "pending p") (simp_all add: timer_ok_def)

lemma transmit_timer:
  assumes "transmit cfg e d data0 p = Some q" "timer_ok (env_now e) p"
  shows "timer_ok (env_now e) q"
  using assms(1)
proof (cases rule: transmit_cases)
  case (1 data i b p1 base ser p2)
  have "same_queue p p2"
    using corrupt_unit_frame(1) [OF 1(1)] throttle_frame(1) [OF 1(2)] by (rule same_queue_trans)
  with assms(2) show ?thesis by (auto simp: 1(5) same_queue_def intro: timer_ok_same)
next
  case (2 data i b p1 base ser p2)
  have sq: "same_queue p p2"
    using corrupt_unit_frame(1) [OF 2(1)] throttle_frame(1) [OF 2(2)] by (rule same_queue_trans)
  show ?thesis
  proof (cases "pending p")
    case Nil
    have "time_add (env_now e) (max 0 (time_sub r (env_now e))) \<le> max (env_now e) r" for r
      by (auto simp: time_add_def time_sub_def minDuration_def maxDuration_def)
    with Nil sq show ?thesis
      by (auto simp: 2(4) timer_ok_def admit_pending_timer same_queue_def copies_def numeral_2_eq_2)
  next
    case (Cons u us)
    with sq assms(2) show ?thesis
      by (auto simp: 2(4) timer_ok_def admit_pending_timer same_queue_def split: option.splits)
  qed
qed

lemma tryWrite_timer:
  assumes "tryWrite e data p = Some (r, q)" "timer_ok (env_now e) p"
  shows "timer_ok (env_now e) q"
  using assms(1)
proof (cases rule: tryWrite_cases)
  case admitted
  show ?thesis
  proof (cases "deliver p")
    case PassThroughDeliver
    with admitted(5) assms(2) show ?thesis
      by (auto simp: run_deliver_def passThroughDeliver_def intro: timer_ok_same)
  next
    case (FaultEvaluator fp)
    with admitted(5) have "evaluate fp e data (charge data p) = Some q" by (simp add: run_deliver_def)
    then show ?thesis
    proof (cases rule: evaluate_cases)
      case 1
      with assms(2) show ?thesis by (auto intro: timer_ok_same)
    next
      case (2 d p1)
      then show ?thesis using draw_decision_frame(1) [OF 2(2)] assms(2)
        by (auto simp: same_queue_def intro: timer_ok_same)
    next
      case (3 d p1)
      have "timer_ok (env_now e) p1"
        using draw_decision_frame(1) [OF 3(2)] assms(2)
        by (auto simp: same_queue_def intro: timer_ok_same)
      from transmit_timer [OF 3(4) this] show ?thesis .
    qed
  qed
qed (use assms(2) in simp_all)

lemma pipe_step_timer:
  assumes "pipe_step l p = Some q" "timer_ok now p" "now \<le> env_now (fst l)"
  shows "timer_ok (env_now (fst l)) q"
proof -
  obtain e op where l: "l = (e, op)" by (cases l)
  from assms(2,3) l have ok: "timer_ok (env_now e) p" by (auto intro: timer_ok_later)
  have r: "timer_ok (env_now e) (releaseDueLatency e p)"
    using ok timer_ok_arm by (auto simp: releaseDueLatency_def Let_def)
  show ?thesis
  proof (cases op)
    case (OpRead len)
    with assms(1) l ok show ?thesis by (auto simp: tryRead_frame intro: timer_ok_same)
  next
    case OpAbort
    with assms(1) l ok show ?thesis by (auto simp: abort_def timer_ok_def)
  qed (use assms(1) l ok r in \<open>auto simp: tryWrite_timer intro: timer_ok_same\<close>)
qed

lemma pipe_run_timer:
  "run_steps pipe_step ls p = Some q \<Longrightarrow> timer_ok now p \<Longrightarrow>
     sorted (now # map (\<lambda>l. env_now (fst l)) ls) \<Longrightarrow>
     timer_ok (last (now # map (\<lambda>l. env_now (fst l)) ls)) q"
proof (induction ls arbitrary: p now)
  case Nil
  then show ?case by simp
next
  case (Cons l ls)
  then obtain u where u: "pipe_step l p = Some u" "run_steps pipe_step ls u = Some q"
    by (auto split: option.splits)
  with Cons.prems have "timer_ok (env_now (fst l)) u" by (intro pipe_step_timer) auto
  from Cons.IH [OF u(2) this] Cons.prems(3) show ?case by simp
qed

text \<open>Exactly the due units are released, the earlier ones first.\<close>

lemma sorted_split:
  "sorted (map f us) \<Longrightarrow> takeWhile (\<lambda>u. f u \<le> (t :: 'a :: linorder)) us = filter (\<lambda>u. f u \<le> t) us
     \<and> dropWhile (\<lambda>u. f u \<le> t) us = filter (\<lambda>u. t < f u) us"
proof (induction us)
  case (Cons u us)
  show ?case
  proof (cases "f u \<le> t")
    case False
    with Cons.prems have "\<forall>x \<in> set us. t < f x" by auto
    with False show ?thesis 
      by (auto intro!: sym [OF filter_True] sym [OF filter_False])
  qed (use Cons in auto)
qed simp

lemma release_exact:
  assumes "pipe_inv p" "\<not> readClosed p"
  shows "readable (releaseDueLatency e p)
      = readable p @ map pu_data (filter (\<lambda>u. releaseAt u \<le> env_now e) (pending p))
    \<and> pending (releaseDueLatency e p) = filter (\<lambda>u. env_now e < releaseAt u) (pending p)"
  using assms
  by (simp add: release_frame due_units_def sorted_split pipe_inv_def)


section \<open>Tracing changes nothing else\<close>

definition untraced :: "pipe \<Rightarrow> pipe" where
  "untraced p = p\<lparr>trace := None\<rparr>"

lemma untraced_sel [simp]:
  "readable (untraced p) = readable p" "bufBytes (untraced p) = bufBytes p"
  "p_closed (untraced p) = p_closed p" "readClosed (untraced p) = readClosed p"
  "eofSeen (untraced p) = eofSeen p" "notify (untraced p) = notify p"
  "bound (untraced p) = bound p" "deliver (untraced p) = deliver p"
  "partitionNetwork (untraced p) = partitionNetwork p"
  "partitionPair (untraced p) = partitionPair p"
  "loss (untraced p) = loss p" "latency (untraced p) = latency p"
  "duplicate (untraced p) = duplicate p" "corrupt (untraced p) = corrupt p"
  "pending (untraced p) = pending p" "timer (untraced p) = timer p"
  "busyUntil (untraced p) = busyUntil p" "arms (untraced p) = arms p"
  by (simp_all add: untraced_def)

lemma untraced_record: "untraced (record_event ev p) = untraced p"
  "record_event ev (untraced p) = untraced p"
  by (simp_all add: untraced_def record_event_def)

lemma untraced_arm:
  "armLatencyTimerLocked e (untraced p) = untraced (armLatencyTimerLocked e p)"
  by (simp add: untraced_def armLatencyTimerLocked_def Let_def split: list.split)

lemma untraced_admit:
  "admit_readable dup data (untraced p) = untraced (admit_readable dup data p)"
  "admit_pending e dup data rel (untraced p) = untraced (admit_pending e dup data rel p)"
  by (simp_all add: untraced_def admit_readable_def admit_pending_def broadcastLocked_def Let_def
      armLatencyForAppendLocked_def armLatencyTimerLocked_def split: list.split)

lemma untraced_record_admit:
  "untraced (admit_readable dup data (record_event ev p)) = untraced (admit_readable dup data p)"
  "untraced (admit_pending e dup data rel (record_event ev p)) = untraced (admit_pending e dup data rel p)"
  by (simp_all add: untraced_record flip: untraced_admit)

lemma untraced_draw:
  "draw_decision cfg (untraced p) = map_option (\<lambda>(d, q). (d, untraced q)) (draw_decision cfg p)"
  by (auto simp: draw_decision_def untraced_def split: Option.bind_split option.split)

lemma untraced_corrupt:
  "corrupt_unit co data (untraced p) = map_option (\<lambda>(d, q). (d, untraced q)) (corrupt_unit co data p)"
  by (auto simp: corrupt_unit_def untraced_def split: Option.bind_split option.split)

lemma untraced_throttle:
  "throttle cfg now len (untraced p) = map_option (\<lambda>(d, q). (d, untraced q)) (throttle cfg now len p)"
  by (auto simp: throttle_def untraced_def Let_def split: Option.bind_split option.split)

lemma untraced_discard:
  "discard ev data (untraced p) = untraced (discard ev data p)"
  by (simp add: discard_def untraced_def record_event_def broadcastLocked_def)

lemma untraced_transmit:
  "transmit cfg e d data (untraced p) = map_option untraced (transmit cfg e d data p)"
  by (auto simp: transmit_def untraced_corrupt untraced_throttle untraced_record untraced_record_admit untraced_admit
      Let_def split: Option.bind_split option.split)

lemma untraced_evaluate:
  "evaluate fp e data (untraced p) = map_option untraced (evaluate fp e data p)"
  by (auto simp: evaluate_def untraced_draw untraced_discard untraced_transmit Let_def
      split: Option.bind_split option.split)

lemma untraced_charge: "charge data (untraced p) = untraced (charge data p)"
  by (simp add: charge_def untraced_def)

lemma untraced_ops:
  "passThroughDeliver data (untraced p) = untraced (passThroughDeliver data p)"
  "close_pipe (untraced p) = untraced (close_pipe p)" "abort (untraced p) = untraced (abort p)"
  by (simp_all add: passThroughDeliver_def close_pipe_def abort_def broadcastLocked_def untraced_def)

lemma untraced_tryWrite:
  "tryWrite e data (untraced p) = map_option (\<lambda>(r, q). (r, untraced q)) (tryWrite e data p)"
  by (auto simp: tryWrite_def run_deliver_def untraced_charge untraced_evaluate option.map_comp comp_def
      untraced_ops split: deliverFunc.split)

lemma untraced_tryRead:
  "tryRead e len (untraced p) = (fst (tryRead e len p), untraced (snd (tryRead e len p)))"
  by (auto simp: tryRead_def untraced_def broadcastLocked_def Let_def case_prod_beta)

lemma untraced_step: "pipe_step l (untraced p) = map_option untraced (pipe_step l p)"
proof -
  obtain e op where l: "l = (e, op)" by (cases l)
  have "releaseDueLatency e (untraced p) = untraced (releaseDueLatency e p)"
    by (auto simp: releaseDueLatency_def Let_def untraced_arm broadcastLocked_def
        armLatencyTimerLocked_def untraced_def split: list.split)
  with l show ?thesis
    by (cases op) (auto simp: untraced_tryWrite untraced_tryRead option.map_comp comp_def case_prod_beta untraced_ops)
qed

lemma untraced_run:
  "run_steps pipe_step ls (untraced p) = map_option untraced (run_steps pipe_step ls p)"
  by (induction ls arbitrary: p) (auto simp: untraced_step split: option.split)

lemma untraced_bytes_read: "bytes_read l (untraced p) = bytes_read l p"
  by (cases l; cases "snd l") (auto simp: untraced_tryRead)

lemma untraced_collect:
  "collect pipe_step bytes_read ls (untraced p) = collect pipe_step bytes_read ls p"
  by (induction ls arbitrary: p) (auto simp: untraced_step untraced_bytes_read split: option.split)

section \<open>The blocking loops\<close>

text \<open>
  \<open>pipe.read\<close> and \<open>pipe.write\<close> try, wait on the channel the attempt gave and try again. A
  schedule lists the instants they try at, each with what others do to the pipe until the next;
  \<open>None\<close> when the loop has not returned by the end of it, its channel still open or its last
  attempt not yet made.
\<close>

definition woken :: "chan \<Rightarrow> env \<Rightarrow> pipe \<Rightarrow> bool" where
  "woken ch e p = (case ch of
     NotifyCh g \<Rightarrow> chan_closed g (notify p) | PartCh g \<Rightarrow> chan_closed g (partNotify (env_parts e)))"

fun pipe_read ::
  "(env \<times> pipe_label list) list \<Rightarrow> nat \<Rightarrow> pipe \<Rightarrow> ((bytes \<times> go_error option) \<times> pipe) option" where
  "pipe_read [] len p = None"
| "pipe_read ((e, ls) # sched) len p =
     (case tryRead e len p of
        (Done out err, q) \<Rightarrow> Some ((out, err), q)
      | (Wait ch, q) \<Rightarrow>
          (case run_steps pipe_step ls q of
             None \<Rightarrow> None
           | Some t \<Rightarrow> if sched \<noteq> [] \<and> woken ch (fst (hd sched)) t then pipe_read sched len t else None))"

fun pipe_write ::
  "(env \<times> pipe_label list) list \<Rightarrow> bytes \<Rightarrow> pipe \<Rightarrow> ((nat \<times> go_error option) \<times> pipe) option" where
  "pipe_write [] data p = None"
| "pipe_write ((e, ls) # sched) data p =
     (case tryWrite e data p of
        None \<Rightarrow> None
      | Some (Done n err, q) \<Rightarrow> Some ((n, err), q)
      | Some (Wait ch, q) \<Rightarrow>
          (case run_steps pipe_step ls q of
             None \<Rightarrow> None
           | Some t \<Rightarrow> if sched \<noteq> [] \<and> woken ch (fst (hd sched)) t then pipe_write sched data t else None))"

text \<open>Such a loop is a run of the direction, so what holds of every run holds across it.\<close>

lemma run_steps_attempt:
  "pipe_step l p = Some q \<Longrightarrow> run_steps pipe_step ls q = Some t \<Longrightarrow>
     run_steps pipe_step ms t = Some u \<Longrightarrow> run_steps pipe_step (l # ls @ ms) p = Some u"
  by (simp add: run_steps_append del: pipe_step.simps)

lemma pipe_read_run:
  "pipe_read sched len p = Some (r, q) \<Longrightarrow> \<exists>ls. run_steps pipe_step ls p = Some q"
proof (induction sched len p rule: pipe_read.induct)
  case (2 e ls sched len p)
  show ?case
  proof (cases "tryRead e len p")
    case (Pair a u)
    then have step: "pipe_step (e, OpRead len) p = Some u" by simp
    show ?thesis
    proof (cases a)
      case (Done out err)
      with 2 Pair step show ?thesis by (intro exI [of _ "[(e, OpRead len)]"]) simp
    next
      case (Wait ch)
      with 2 Pair obtain t where t: "run_steps pipe_step ls u = Some t" "pipe_read sched len t = Some (r, q)"
        by (auto split: option.splits if_splits)
      with 2 Pair Wait have "\<exists>ms. run_steps pipe_step ms t = Some q" by (auto split: if_splits)
      with step t(1) show ?thesis using run_steps_attempt by blast
    qed
  qed
qed simp

lemma pipe_write_run:
  "pipe_write sched data p = Some (r, q) \<Longrightarrow> \<exists>ls. run_steps pipe_step ls p = Some q"
proof (induction sched data p rule: pipe_write.induct)
  case (2 e ls sched data p)
  then obtain a u where w: "tryWrite e data p = Some (a, u)" by (auto split: option.splits)
  then have step: "pipe_step (e, OpWrite data) p = Some u" by simp
  show ?case
  proof (cases a)
    case (Done out err)
    with 2 w step show ?thesis by (intro exI [of _ "[(e, OpWrite data)]"]) simp
  next
    case (Wait ch)
    with 2 w obtain t where t: "run_steps pipe_step ls u = Some t" "pipe_write sched data t = Some (r, q)"
      by (auto split: option.splits if_splits)
    with 2 w Wait have "\<exists>ms. run_steps pipe_step ms t = Some q" by (auto split: if_splits)
    with step t(1) show ?thesis using run_steps_attempt by blast
  qed
qed simp

end
