(* ===== verification/Deadline.thy ===== *)
theory Deadline
  imports Prelude
begin

text \<open>
  The deadline of one direction of a connection (\<open>deadline.go\<close>): the instant, the timer that
  announces it, and the generation channel closed on every change. Each operation runs under
  the deadline's mutex and is one function here.
\<close>

section \<open>State and operations\<close>

text \<open>
  \<open>dl_t\<close> is the zero instant when no deadline is set; \<open>dl_timer\<close> is the instant the timer fires
  at, \<open>None\<close> for a nil timer. A fired timer is not reset to nil, as in the source.
\<close>

record deadline =
  dl_t :: time
  dl_timer :: "time option"
  dl_gen :: nat

definition newDeadline :: deadline where
  "newDeadline = \<lparr>dl_t = 0, dl_timer = None, dl_gen = 0\<rparr>"

definition deadline_channel :: "deadline \<Rightarrow> nat" where
  "deadline_channel d = dl_gen d"

definition expired :: "time \<Rightarrow> deadline \<Rightarrow> bool" where
  "expired now d \<longleftrightarrow> dl_t d \<noteq> 0 \<and> \<not> now < dl_t d"

definition bumpLocked :: "deadline \<Rightarrow> deadline" where
  "bumpLocked d = d\<lparr>dl_gen := Suc (dl_gen d)\<rparr>"

definition deadline_set :: "time \<Rightarrow> time \<Rightarrow> deadline \<Rightarrow> deadline" where
  "deadline_set now t d =
     (let d1 = bumpLocked (d\<lparr>dl_timer := None, dl_t := t\<rparr>)
      in if t = 0 \<or> \<not> now < t then d1
         else d1\<lparr>dl_timer := Some (time_add now (time_sub t now))\<rparr>)"

text \<open>The timer's callback.\<close>

definition deadline_fire :: "deadline \<Rightarrow> deadline" where
  "deadline_fire d = bumpLocked d"

definition deadline_stop :: "deadline \<Rightarrow> deadline" where
  "deadline_stop d = d\<lparr>dl_timer := None\<rparr>"

section \<open>What happens to a deadline over time\<close>

datatype dl_event = DlSet time | DlFire | DlStop

text \<open>
  A step at the instant \<open>now\<close>. The timer fires only when its instant has come.
\<close>

fun dl_step :: "time \<times> dl_event \<Rightarrow> deadline \<Rightarrow> deadline option" where
  "dl_step (now, DlSet t) d = Some (deadline_set now t d)"
| "dl_step (now, DlFire) d =
     (case dl_timer d of
        None \<Rightarrow> None
      | Some t \<Rightarrow> if t \<le> now then Some (deadline_fire d) else None)"
| "dl_step (now, DlStop) d = Some (deadline_stop d)"

interpretation dl_chan: gen_channel dl_gen bumpLocked
  by unfold_locales (simp add: bumpLocked_def)

lemma expired_set: "expired now (deadline_set now t d) \<longleftrightarrow> t \<noteq> 0 \<and> t \<le> now"
  by (auto simp: expired_def deadline_set_def bumpLocked_def Let_def)

lemma set_wakes: "chan_closed (dl_gen d) (dl_gen (deadline_set now t d))"
  by (simp add: chan_closed_def deadline_set_def bumpLocked_def Let_def)

lemma expired_stop [simp]: "expired now (deadline_stop d) = expired now d"
  by (simp add: expired_def deadline_stop_def)

lemma expired_fire [simp]: "expired now (deadline_fire d) = expired now d"
  by (simp add: expired_def deadline_fire_def bumpLocked_def)

lemma expired_mono: "expired now d \<Longrightarrow> now \<le> now' \<Longrightarrow> expired now' d"
  by (simp add: expired_def)

lemma dl_gen_mono: "dl_step l d = Some d' \<Longrightarrow> dl_gen d \<le> dl_gen d'"
  by (cases l; cases "snd l")
     (auto simp: deadline_set_def deadline_fire_def deadline_stop_def bumpLocked_def Let_def
       split: option.splits if_splits)

section \<open>A deadline is announced\<close>

text \<open>
  A waiter took the channel \<open>g\<close> while the deadline had not passed. \<open>dl_armed g d\<close> is what it
  relies on until it is woken: either its channel has been closed, or a set deadline has a live
  timer that fires no later than the deadline.
\<close>

definition dl_armed :: "nat \<Rightarrow> deadline \<Rightarrow> bool" where
  "dl_armed g d \<longleftrightarrow>
     chan_closed g (dl_gen d)
     \<or> dl_t d = 0 \<or> (\<exists>t. dl_timer d = Some t \<and> t \<le> dl_t d)"

text \<open>
  The timer is live for an unexpired deadline: what \<open>set\<close> establishes, what firing keeps for the
  waiters of before, and what only \<open>stop\<close> (the connection's own close) gives up.
\<close>

lemma dl_armed_set: "dl_armed g (deadline_set now t d) \<or> t \<le> now"
  by (auto simp: dl_armed_def deadline_set_def bumpLocked_def Let_def time_add_def time_sub_def
      maxDuration_def minDuration_def)

lemma dl_armed_step:
  assumes "dl_armed g d" "g \<le> dl_gen d" "dl_step (now, ev) d = Some d'" "ev \<noteq> DlStop"
  shows "dl_armed g d'"
proof (cases ev)
  case (DlSet t)
  with assms(2,3) show ?thesis
    by (auto simp: dl_armed_def chan_closed_def deadline_set_def bumpLocked_def Let_def)
next
  case DlFire
  with assms(2,3) show ?thesis
    by (auto simp: dl_armed_def chan_closed_def deadline_fire_def bumpLocked_def
        split: option.splits if_splits)
qed (use assms(4) in simp)

lemma dl_armed_run:
  assumes "run_steps dl_step ls d = Some d'" "dl_armed g d" "g \<le> dl_gen d"
    and "\<forall>l \<in> set ls. snd l \<noteq> DlStop"
  shows "dl_armed g d' \<and> g \<le> dl_gen d'"
proof (rule run_steps_inv [where P = "\<lambda>d. dl_armed g d \<and> g \<le> dl_gen d", OF assms(1)])
  show "dl_armed g d \<and> g \<le> dl_gen d" using assms(2,3) by simp
next
  fix l u v
  assume "l \<in> set ls" "dl_armed g u \<and> g \<le> dl_gen u" "dl_step l u = Some v"
  with assms(4) show "dl_armed g v \<and> g \<le> dl_gen v"
    using dl_armed_step [of g u "fst l" "snd l" v] dl_gen_mono [of l u v] by auto
qed

text \<open>
  When the deadline has passed and the waiter's channel is still open, the timer has come due
  and firing it closes the channel: the waiter cannot sleep through its deadline.
\<close>

lemma dl_armed_wakes:
  assumes "dl_armed g d" "g \<le> dl_gen d" "expired now d"
  shows "chan_closed g (dl_gen d)
    \<or> (\<exists>d'. dl_step (now, DlFire) d = Some d' \<and> chan_closed g (dl_gen d'))"
  using assms by (auto simp: dl_armed_def expired_def chan_closed_def deadline_fire_def bumpLocked_def)

end
