(* ===== verification/Listener.thy ===== *)
theory Listener
  imports Errors
begin

text \<open>
  The listener of \<open>listener.go\<close>: the bounded accept queue, the slots claimed by dials that have
  not filled them yet, and the closed flag. Connections are referred to by number; closing the
  connections a closed listener gives up is the caller's part and is returned as a list.
\<close>

section \<open>State and operations\<close>

record listener =
  l_addr :: addr
  incoming :: "nat list"
  l_cap :: int
  l_closed :: bool
  reserved :: int

definition newListener :: "addr \<Rightarrow> int \<Rightarrow> listener" where
  "newListener a backlog =
     \<lparr>l_addr = a, incoming = [], l_cap = backlog, l_closed = False, reserved = 0\<rparr>"

definition reserve :: "listener \<Rightarrow> go_error option \<times> listener" where
  "reserve l =
     (if l_closed l then (Some ErrConnectionRefused, l)
      else if l_cap l \<le> int (length (incoming l)) + reserved l then (Some ErrBacklogFull, l)
      else (None, l\<lparr>reserved := reserved l + 1\<rparr>))"

text \<open>
  \<open>fill\<close> gives the connections it closes instead of queueing. \<open>None\<close> is a send on a full
  channel, which would block for ever with the listener's mutex held.
\<close>

definition fill :: "nat \<Rightarrow> listener \<Rightarrow> (nat list \<times> listener) option" where
  "fill c l =
     (let l1 = l\<lparr>reserved := reserved l - 1\<rparr>
      in if l_closed l1 then Some ([c], l1)
         else if int (length (incoming l1)) < l_cap l1
         then Some ([], l1\<lparr>incoming := incoming l1 @ [c]\<rparr>)
         else None)"

definition enqueue :: "nat \<Rightarrow> listener \<Rightarrow> (go_error option \<times> nat list \<times> listener) option" where
  "enqueue c l =
     (case reserve l of
        (Some err, l1) \<Rightarrow> Some (Some err, [], l1)
      | (None, l1) \<Rightarrow> map_option (Pair None) (fill c l1))"

text \<open>
  \<open>Accept\<close> selects between the queue and the closed channel; when both are ready either may be
  taken. The outcomes are listed; an empty list is an \<open>Accept\<close> that waits.
\<close>

datatype accepted = Accepted nat | AcceptError go_error

definition listener_opError :: "string \<Rightarrow> go_error \<Rightarrow> listener \<Rightarrow> go_error" where
  "listener_opError op err l = OpError op (a_network (l_addr l)) None (Some (l_addr l)) err"

definition accept_outcomes :: "listener \<Rightarrow> (accepted \<times> listener) list" where
  "accept_outcomes l =
     (case incoming l of [] \<Rightarrow> [] | c # cs \<Rightarrow> [(Accepted c, l\<lparr>incoming := cs\<rparr>)])
     @ (if l_closed l then [(AcceptError (listener_opError ''accept'' NetErrClosed l), l)] else [])"

text \<open>The two critical parts of \<open>Close\<close>: the flag, then the drain of the queue.\<close>

definition listener_mark_closed :: "listener \<Rightarrow> bool \<times> listener" where
  "listener_mark_closed l = (if l_closed l then (False, l) else (True, l\<lparr>l_closed := True\<rparr>))"

definition listener_drain :: "listener \<Rightarrow> nat list \<times> listener" where
  "listener_drain l = (incoming l, l\<lparr>incoming := []\<rparr>)"

section \<open>The backlog\<close>

definition listener_inv :: "listener \<Rightarrow> bool" where
  "listener_inv l \<longleftrightarrow>
     0 \<le> reserved l \<and> (\<not> l_closed l \<longrightarrow> int (length (incoming l)) + reserved l \<le> l_cap l)"

datatype l_op = LReserve | LFill nat | LAccept accepted | LMarkClosed | LDrain

text \<open>
  The operations in any order. A fill only follows a reserve of its own, so it needs a claimed
  slot; an \<open>Accept\<close> that returns \<open>r\<close> takes the outcome \<open>r\<close> of \<open>accept_outcomes\<close>.
\<close>

fun l_step :: "l_op \<Rightarrow> listener \<Rightarrow> listener option" where
  "l_step LReserve l = Some (snd (reserve l))"
| "l_step (LFill c) l = (if 0 < reserved l then map_option snd (fill c l) else None)"
| "l_step (LAccept r) l = map_of (accept_outcomes l) r"
| "l_step LMarkClosed l = Some (snd (listener_mark_closed l))"
| "l_step LDrain l = (if l_closed l then Some (snd (listener_drain l)) else None)"

lemma l_accept:
  "l_step (LAccept (Accepted c)) l = Some l' \<longleftrightarrow> (\<exists>cs. incoming l = c # cs \<and> l' = l\<lparr>incoming := cs\<rparr>)"
  "l_step (LAccept (AcceptError e)) l = Some l' \<longleftrightarrow> l_closed l \<and> e = listener_opError ''accept'' NetErrClosed l \<and> l' = l"
  by (auto simp: accept_outcomes_def split: list.splits if_splits)

lemma l_step_cases [consumes 1, case_names reserve fill accepted refused mark drain]:
  assumes "l_step op l = Some l'"
  obtains "op = LReserve" "l' = snd (reserve l)"
  | c cs where "op = LFill c" "0 < reserved l" "fill c l = Some (cs, l')"
  | c cs where "op = LAccept (Accepted c)" "incoming l = c # cs" "l' = l\<lparr>incoming := cs\<rparr>"
  | e where "op = LAccept (AcceptError e)" "l_closed l" "e = listener_opError ''accept'' NetErrClosed l" "l' = l"
  | "op = LMarkClosed" "l' = snd (listener_mark_closed l)"
  | "op = LDrain" "l_closed l" "l' = snd (listener_drain l)"
proof (cases op)
  case (LAccept x)
  with assms that(3,4) show ?thesis by (cases x) (auto simp: l_accept simp del: l_step.simps)
qed (use assms that in \<open>auto split: if_splits\<close>)

lemmas l_defs = reserve_def fill_def listener_mark_closed_def listener_drain_def Let_def

lemma listener_inv_new: "0 < b \<Longrightarrow> listener_inv (newListener a b)"
  by (simp add: listener_inv_def newListener_def)

lemma l_step_inv [inv_intros]: "listener_inv l \<Longrightarrow> l_step op l = Some l' \<Longrightarrow> listener_inv l'"
  by (erule l_step_cases) (auto simp: listener_inv_def l_defs split: if_splits)

text \<open>The contract between \<open>reserve\<close> and \<open>fill\<close>: a claimed slot is there when it is filled.\<close>

lemma fill_never_blocks:
  assumes "listener_inv l" "0 < reserved l"
  shows "\<exists>cs l'. fill c l = Some (cs, l')"
  using assms by (auto simp: fill_def listener_inv_def Let_def)

lemma reserve_success:
  "reserve l = (None, l') \<longleftrightarrow>
     \<not> l_closed l \<and> int (length (incoming l)) + reserved l < l_cap l \<and> l' = l\<lparr>reserved := reserved l + 1\<rparr>"
  by (auto simp: reserve_def)

text \<open>A closed listener queues nothing and refuses every dial, for good.\<close>

lemma l_step_closed: "l_closed l \<Longrightarrow> l_step op l = Some l' \<Longrightarrow> l_closed l' \<and> length (incoming l') \<le> length (incoming l)"
  by (erule l_step_cases) (auto simp: l_defs split: if_splits)

section \<open>Connections are accepted in the order they were filled\<close>

fun l_ins :: "l_op \<Rightarrow> listener \<Rightarrow> nat list" where
  "l_ins (LFill c) l = (if l_closed l then [] else [c])"
| "l_ins op l = []"

text \<open>What an \<open>Accept\<close> hands out is what it returns; a \<open>Close\<close> takes the rest.\<close>

fun l_outs :: "l_op \<Rightarrow> listener \<Rightarrow> nat list" where
  "l_outs (LAccept (Accepted c)) l = [c]"
| "l_outs LDrain l = incoming l"
| "l_outs op l = []"

lemma l_step_fifo: "l_step op l = Some l' \<Longrightarrow> incoming l @ l_ins op l = l_outs op l @ incoming l'"
  by (erule l_step_cases) (auto simp: l_defs split: if_splits)

interpretation accept_queue: fifo_system l_step "\<lambda>ls l. True" incoming l_ins l_outs
  by unfold_locales (simp_all add: l_step_fifo)

section \<open>Properties\<close>

lemma l_step_cap: "l_step op l = Some l' \<Longrightarrow> l_cap l' = l_cap l"
  by (erule l_step_cases) (auto simp: l_defs split: if_splits)

lemma l_run_inv:
  "run_steps l_step ops l = Some l' \<Longrightarrow> listener_inv l \<Longrightarrow> listener_inv l' \<and> l_cap l' = l_cap l"
proof (induction ops arbitrary: l)
  case (Cons op ops)
  then obtain l1 where l1: "l_step op l = Some l1" "run_steps l_step ops l1 = Some l'"
    by (auto split: option.splits)
  from Cons.IH [OF l1(2) l_step_inv [OF Cons.prems(2) l1(1)]] l_step_cap [OF l1(1)] show ?case by simp
qed simp

text \<open>
  C16. The contract of \<open>reserve\<close> and \<open>fill\<close>, after any operations on a new listener with backlog
  \<open>b\<close>, whatever dials, accepts and the two phases of a \<open>Close\<close> come in whatever order. While it is
  open, the queue and the claimed slots together never exceed the backlog; filling a claimed slot
  never blocks on the full queue; the connections \<open>Accept\<close> returned, and those a \<open>Close\<close> took,
  are the ones filled in, in that order, up to the ones still queued; and once closed the listener
  refuses every dial, and an \<open>Accept\<close> with nothing left to take reports \<open>net.ErrClosed\<close> instead of
  waiting.
\<close>

theorem backlog_contract:
  assumes "0 < b" and "run_steps l_step ops (newListener a b) = Some l"
  shows "(l_closed l \<or> int (length (incoming l)) + reserved l \<le> b)
    \<and> (0 < reserved l \<longrightarrow> fill c l \<noteq> None)
    \<and> collect l_step l_ins ops (newListener a b) = collect l_step l_outs ops (newListener a b) @ incoming l
    \<and> (l_closed l \<longrightarrow> reserve l = (Some ErrConnectionRefused, l)
        \<and> (incoming l = [] \<longrightarrow> map fst (accept_outcomes l) = [AcceptError (listener_opError ''accept'' NetErrClosed l)]))"
proof -
  have inv: "listener_inv l" "l_cap l = b"
    using l_run_inv [OF assms(2) listener_inv_new [OF assms(1)]] by (simp_all add: newListener_def)
  then have "l_closed l \<or> int (length (incoming l)) + reserved l \<le> b" by (auto simp: listener_inv_def)
  moreover have "0 < reserved l \<longrightarrow> fill c l \<noteq> None" using fill_never_blocks [OF inv(1)] by fastforce
  moreover have "collect l_step l_ins ops (newListener a b)
      = collect l_step l_outs ops (newListener a b) @ incoming l"
    using accept_queue.run_fifo [OF TrueI assms(2)] by (simp add: newListener_def)
  ultimately show ?thesis by (auto simp: reserve_def accept_outcomes_def)
qed

definition exampleAddr :: addr where
  "exampleAddr = \<lparr>a_network = ''tcp'', peer = ''s'', port = 80, ip = None\<rparr>"

theorem backlog_contract_witness:
  "\<exists>l. run_steps l_step [LReserve, LReserve, LFill 7, LReserve, LAccept (Accepted 7), LFill 9] (newListener exampleAddr 2) = Some l
     \<and> incoming l = [9] \<and> collect l_step l_ins [LReserve, LReserve, LFill 7, LReserve, LAccept (Accepted 7), LFill 9] (newListener exampleAddr 2)
       = collect l_step l_outs [LReserve, LReserve, LFill 7, LReserve, LAccept (Accepted 7), LFill 9] (newListener exampleAddr 2) @ [9]"
proof -
  let ?ops = "[LReserve, LReserve, LFill 7, LReserve, LAccept (Accepted 7), LFill 9]"
  let ?l = "\<lparr>l_addr = exampleAddr, incoming = [9], l_cap = 2, l_closed = False, reserved = 0\<rparr>"
  have "run_steps l_step ?ops (newListener exampleAddr 2) = Some ?l"
    by (simp add: reserve_def fill_def newListener_def accept_outcomes_def Let_def)
  with backlog_contract [of 2 ?ops exampleAddr ?l 0] show ?thesis by simp
qed

end
