(* ===== verification/Conn.thy ===== *)
theory Conn
  imports Flow Deadline Listener
begin

text \<open>
  Connections (\<open>conn.go\<close>, \<open>reset.go\<close>): the two ends over two crossed pipes. Pipes and
  connections are shared and mutable, so they live in a store and are referred to by number.
  \<open>Read\<close> and \<open>Write\<close> take no lock over their whole iteration: each is a machine whose steps are
  the source's atomic sections, and other operations may change the store between them.
\<close>

section \<open>State\<close>

record conn =
  c_local :: addr
  c_remote :: addr
  c_network :: string
  c_ordinal :: u64
  c_side :: connSide
  readPipe :: nat
  writePipe :: nat
  c_closed :: bool
  c_reset :: bool
  c_nw :: bool \<comment> \<open>whether \<open>nw\<close> is not nil\<close>
  c_pair :: pairKey
  rd :: deadline
  wd :: deadline

text \<open>
  What the connections of a network share: the clock, the partition table, the live fault
  configuration, the reset registry (a missing key is a nil slice), and the heap.
\<close>

record store =
  clock :: time
  parts :: partTable
  faults :: faultConfig
  resetTargets :: "pairKey \<Rightarrow> nat list"
  pipes :: "nat \<Rightarrow> pipe"
  conns :: "nat \<Rightarrow> conn"
  next_pipe :: nat
  next_conn :: nat

definition env_of :: "'a store_scheme \<Rightarrow> env" where
  "env_of s = \<lparr>env_now = clock s, env_parts = parts s, env_faults = faults s\<rparr>"

definition upd_pipe :: "nat \<Rightarrow> (pipe \<Rightarrow> pipe) \<Rightarrow> 'a store_scheme \<Rightarrow> 'a store_scheme" where
  "upd_pipe i f s = s\<lparr>pipes := (pipes s)(i := f (pipes s i))\<rparr>"

definition upd_conn :: "nat \<Rightarrow> (conn \<Rightarrow> conn) \<Rightarrow> 'a store_scheme \<Rightarrow> 'a store_scheme" where
  "upd_conn c f s = s\<lparr>conns := (conns s)(c := f (conns s c))\<rparr>"

section \<open>Making a pair\<close>

definition directionPipe :: "int \<Rightarrow> int \<Rightarrow> u64 \<Rightarrow> connSide \<Rightarrow> bool \<Rightarrow> pipe" where
  "directionPipe b seed ordinal side traceEnabled =
     (newPipe b)\<lparr>loss := Some (deriveStream seed (unat ordinal) side kindLoss),
                 latency := Some (deriveStream seed (unat ordinal) side kindLatency),
                 duplicate := Some (deriveStream seed (unat ordinal) side kindDuplicate),
                 corrupt := Some (deriveStream seed (unat ordinal) side kindCorrupt),
                 trace := (if traceEnabled then Some [] else None)\<rparr>"

definition newConn :: "addr \<Rightarrow> addr \<Rightarrow> string \<Rightarrow> u64 \<Rightarrow> connSide \<Rightarrow> nat \<Rightarrow> nat \<Rightarrow> conn" where
  "newConn l r network ordinal side rp wp =
     \<lparr>c_local = l, c_remote = r, c_network = network, c_ordinal = ordinal, c_side = side,
      readPipe = rp, writePipe = wp, c_closed = False, c_reset = False, c_nw = False,
      c_pair = ([], []), rd = newDeadline, wd = newDeadline\<rparr>"

text \<open>The client is connection \<open>next_conn\<close>, the server the one after it.\<close>

definition newConnPairWithSeedAndTrace ::
  "addr \<Rightarrow> addr \<Rightarrow> u64 \<Rightarrow> string \<Rightarrow> int \<Rightarrow> int \<Rightarrow> bool \<Rightarrow> 'a store_scheme \<Rightarrow> (nat \<times> nat) \<times> 'a store_scheme"
where
  "newConnPairWithSeedAndTrace clientAddr serverAddr ordinal network b seed traceEnabled s =
     (let clientToServer = next_pipe s; serverToClient = Suc (next_pipe s);
          client = next_conn s; server = Suc (next_conn s)
      in ((client, server),
          s\<lparr>pipes := (pipes s)(clientToServer := directionPipe b seed ordinal sideDialer traceEnabled,
                               serverToClient := directionPipe b seed ordinal sideAcceptor traceEnabled),
            conns := (conns s)(client := newConn clientAddr serverAddr network ordinal sideDialer
                                           serverToClient clientToServer,
                               server := newConn serverAddr clientAddr network ordinal sideAcceptor
                                           clientToServer serverToClient),
            next_pipe := Suc (Suc (next_pipe s)), next_conn := Suc (Suc (next_conn s))\<rparr>))"

definition newConnPairWithSeed ::
  "addr \<Rightarrow> addr \<Rightarrow> u64 \<Rightarrow> string \<Rightarrow> int \<Rightarrow> int \<Rightarrow> 'a store_scheme \<Rightarrow> (nat \<times> nat) \<times> 'a store_scheme" where
  "newConnPairWithSeed clientAddr serverAddr ordinal network b seed =
     newConnPairWithSeedAndTrace clientAddr serverAddr ordinal network b seed True"

definition newConnPairWithBound ::
  "addr \<Rightarrow> addr \<Rightarrow> u64 \<Rightarrow> string \<Rightarrow> int \<Rightarrow> 'a store_scheme \<Rightarrow> (nat \<times> nat) \<times> 'a store_scheme" where
  "newConnPairWithBound clientAddr serverAddr ordinal network b =
     newConnPairWithSeed clientAddr serverAddr ordinal network b defaultSeed"

definition newConnPair ::
  "addr \<Rightarrow> addr \<Rightarrow> u64 \<Rightarrow> string \<Rightarrow> 'a store_scheme \<Rightarrow> (nat \<times> nat) \<times> 'a store_scheme" where
  "newConnPair clientAddr serverAddr ordinal network =
     newConnPairWithBound clientAddr serverAddr ordinal network defaultPipeBound"

section \<open>Reading and writing\<close>

definition conn_opError :: "conn \<Rightarrow> string \<Rightarrow> go_error \<Rightarrow> go_error" where
  "conn_opError c op err = OpError op (c_network c) (Some (c_local c)) (Some (c_remote c)) err"

text \<open>
  Where an operation stands in its loop. \<open>AtWait ch g\<close> is the \<open>select\<close> at its end: the channel the
  pipe gave and the deadline's channel taken at the top of the iteration.
\<close>

datatype 'a pc =
    AtClosed | AtReset | AtChannel
  | AtExpired nat | AtTry nat
  | AtPostClosed 'a go_error | AtPostReset 'a go_error
  | AtPostExpired chan nat
  | AtWait chan nat
  | Returned 'a "go_error option"

definition chan_ready :: "nat \<Rightarrow> chan \<Rightarrow> 'a store_scheme \<Rightarrow> bool" where
  "chan_ready i ch s =
     (case ch of
        NotifyCh g \<Rightarrow> chan_closed g (notify (pipes s i))
      | PartCh g \<Rightarrow> chan_closed g (partNotify (parts s)))"

fun read_step ::
  "bool \<Rightarrow> nat \<Rightarrow> nat \<Rightarrow> bytes pc \<Rightarrow> 'a store_scheme \<Rightarrow> bytes pc \<times> 'a store_scheme" where
  "read_step plan9 len c AtClosed s =
     (if c_closed (conns s c)
      then (Returned [] (Some (conn_opError (conns s c) ''read'' NetErrClosed)), s) else (AtReset, s))"
| "read_step plan9 len c AtReset s =
     (if c_reset (conns s c)
      then (Returned [] (Some (conn_opError (conns s c) ''read'' (errConnReset plan9))), s)
      else (AtChannel, s))"
| "read_step plan9 len c AtChannel s = (AtExpired (deadline_channel (rd (conns s c))), s)"
| "read_step plan9 len c (AtExpired g) s =
     (if expired (clock s) (rd (conns s c))
      then (Returned [] (Some (conn_opError (conns s c) ''read'' ErrDeadlineExceeded)), s)
      else (AtTry g, s))"
| "read_step plan9 len c (AtTry g) s =
     (let (r, p) = tryRead (env_of s) len (pipes s (readPipe (conns s c)));
          s' = upd_pipe (readPipe (conns s c)) (\<lambda>_. p) s
      in case r of
           Done out None \<Rightarrow> (Returned out None, s')
         | Done out (Some err) \<Rightarrow> (AtPostClosed out err, s')
         | Wait ch \<Rightarrow> (AtWait ch g, s'))"
| "read_step plan9 len c (AtPostClosed out err) s =
     (if c_closed (conns s c)
      then (Returned [] (Some (conn_opError (conns s c) ''read'' NetErrClosed)), s)
      else (AtPostReset out err, s))"
| "read_step plan9 len c (AtPostReset out err) s =
     (if c_reset (conns s c)
      then (Returned [] (Some (conn_opError (conns s c) ''read'' (errConnReset plan9))), s)
      else (Returned out (Some err), s))"
| "read_step plan9 len c (AtWait ch g) s =
     (if chan_ready (readPipe (conns s c)) ch s \<or> chan_closed g (dl_gen (rd (conns s c)))
         \<or> c_closed (conns s c) \<or> c_reset (conns s c)
      then (AtClosed, s) else (AtWait ch g, s))"
| "read_step plan9 len c pc s = (pc, s)"

text \<open>A write works on its own copy of the caller's bytes, which is what a value is here.\<close>

fun write_step ::
  "bool \<Rightarrow> bytes \<Rightarrow> nat \<Rightarrow> nat pc \<Rightarrow> 'a store_scheme \<Rightarrow> (nat pc \<times> 'a store_scheme) option" where
  "write_step plan9 data c AtClosed s = Some
     (if c_closed (conns s c)
      then (Returned 0 (Some (conn_opError (conns s c) ''write'' NetErrClosed)), s) else (AtReset, s))"
| "write_step plan9 data c AtReset s = Some
     (if c_reset (conns s c)
      then (Returned 0 (Some (conn_opError (conns s c) ''write'' (errConnReset plan9))), s)
      else (AtChannel, s))"
| "write_step plan9 data c AtChannel s = Some (AtExpired (deadline_channel (wd (conns s c))), s)"
| "write_step plan9 data c (AtExpired g) s = Some
     (if expired (clock s) (wd (conns s c))
      then (Returned 0 (Some (conn_opError (conns s c) ''write'' ErrDeadlineExceeded)), s)
      else (AtTry g, s))"
| "write_step plan9 data c (AtTry g) s =
     (case tryWrite (env_of s) data (pipes s (writePipe (conns s c))) of
        None \<Rightarrow> None
      | Some (r, p) \<Rightarrow>
          let s' = upd_pipe (writePipe (conns s c)) (\<lambda>_. p) s
          in Some (case r of
               Done n None \<Rightarrow> (Returned n None, s')
             | Done n (Some err) \<Rightarrow> (AtPostClosed n err, s')
             | Wait ch \<Rightarrow> (AtPostExpired ch g, s')))"
| "write_step plan9 data c (AtPostClosed n err) s = Some
     (if c_closed (conns s c)
      then (Returned 0 (Some (conn_opError (conns s c) ''write'' NetErrClosed)), s)
      else (AtPostReset n err, s))"
| "write_step plan9 data c (AtPostReset n err) s = Some
     (if c_reset (conns s c)
      then (Returned 0 (Some (conn_opError (conns s c) ''write'' (errConnReset plan9))), s)
      else (Returned 0 (Some (conn_opError (conns s c) ''write'' (errBrokenPipe plan9))), s))"
| "write_step plan9 data c (AtPostExpired ch g) s = Some
     (if expired (clock s) (wd (conns s c))
      then (Returned 0 (Some (conn_opError (conns s c) ''write'' ErrDeadlineExceeded)), s)
      else (AtWait ch g, s))"
| "write_step plan9 data c (AtWait ch g) s = Some
     (if chan_ready (writePipe (conns s c)) ch s \<or> chan_closed g (dl_gen (wd (conns s c)))
         \<or> c_closed (conns s c) \<or> c_reset (conns s c)
      then (AtClosed, s) else (AtWait ch g, s))"
| "write_step plan9 data c pc s = Some (pc, s)"

text \<open>
  An operation that nothing interferes with: at most seven sections lead from the top of the
  loop to a return or to the \<open>select\<close>.
\<close>

fun read_for :: "nat \<Rightarrow> bool \<Rightarrow> nat \<Rightarrow> nat \<Rightarrow> bytes pc \<Rightarrow> 'a store_scheme \<Rightarrow> bytes pc \<times> 'a store_scheme" where
  "read_for 0 plan9 len c pc s = (pc, s)"
| "read_for (Suc n) plan9 len c pc s =
     (let (pc', s') = read_step plan9 len c pc s in read_for n plan9 len c pc' s')"

fun write_for ::
  "nat \<Rightarrow> bool \<Rightarrow> bytes \<Rightarrow> nat \<Rightarrow> nat pc \<Rightarrow> 'a store_scheme \<Rightarrow> (nat pc \<times> 'a store_scheme) option" where
  "write_for 0 plan9 data c pc s = Some (pc, s)"
| "write_for (Suc n) plan9 data c pc s =
     (case write_step plan9 data c pc s of
        None \<Rightarrow> None
      | Some (pc', s') \<Rightarrow> write_for n plan9 data c pc' s')"

definition conn_Read :: "bool \<Rightarrow> nat \<Rightarrow> nat \<Rightarrow> 'a store_scheme \<Rightarrow> bytes pc \<times> 'a store_scheme" where
  "conn_Read plan9 len c s = read_for 7 plan9 len c AtClosed s"

definition conn_Write :: "bool \<Rightarrow> bytes \<Rightarrow> nat \<Rightarrow> 'a store_scheme \<Rightarrow> (nat pc \<times> 'a store_scheme) option" where
  "conn_Write plan9 data c s = write_for 7 plan9 data c AtClosed s"

section \<open>Resetting\<close>

definition signalReset :: "nat \<Rightarrow> 'a store_scheme \<Rightarrow> 'a store_scheme" where
  "signalReset c s = upd_conn c (\<lambda>cn. cn\<lparr>c_reset := True\<rparr>) s"

definition abortReset :: "nat \<Rightarrow> 'a store_scheme \<Rightarrow> 'a store_scheme" where
  "abortReset c s = upd_pipe (readPipe (conns s c)) abort (upd_pipe (writePipe (conns s c)) abort s)"

definition registerReset :: "pairKey \<Rightarrow> nat list \<Rightarrow> 'a store_scheme \<Rightarrow> 'a store_scheme" where
  "registerReset k cs s = s\<lparr>resetTargets := (resetTargets s)(k := resetTargets s k @ cs)\<rparr>"

definition deregisterReset :: "pairKey \<Rightarrow> nat \<Rightarrow> 'a store_scheme \<Rightarrow> 'a store_scheme" where
  "deregisterReset k c s = s\<lparr>resetTargets := (resetTargets s)(k := remove1 c (resetTargets s k))\<rparr>"

text \<open>\<open>Network.Reset\<close> once its pair is resolved: take the targets, signal all, then abort all.\<close>

definition reset_pair :: "pairKey \<Rightarrow> 'a store_scheme \<Rightarrow> 'a store_scheme" where
  "reset_pair k s =
     (let targets = resetTargets s k;
          s1 = s\<lparr>resetTargets := (resetTargets s)(k := [])\<rparr>;
          s2 = fold signalReset targets s1
      in fold abortReset targets s2)"

section \<open>Closing and deadlines\<close>

definition conn_Close :: "nat \<Rightarrow> 'a store_scheme \<Rightarrow> 'a store_scheme" where
  "conn_Close c s =
     (if c_closed (conns s c) then s
      else
        let s1 = upd_conn c (\<lambda>cn. cn\<lparr>c_closed := True\<rparr>) s;
            s2 = (if c_nw (conns s1 c) then deregisterReset (c_pair (conns s1 c)) c s1 else s1);
            s3 = upd_pipe (writePipe (conns s2 c)) close_pipe s2;
            s4 = upd_pipe (readPipe (conns s3 c)) abort s3
        in upd_conn c (\<lambda>cn. cn\<lparr>rd := deadline_stop (rd cn), wd := deadline_stop (wd cn)\<rparr>) s4)"

definition SetReadDeadline :: "time \<Rightarrow> nat \<Rightarrow> 'a store_scheme \<Rightarrow> go_error option \<times> 'a store_scheme" where
  "SetReadDeadline t c s =
     (if c_closed (conns s c) then (Some (conn_opError (conns s c) ''set'' NetErrClosed), s)
      else (None, upd_conn c (\<lambda>cn. cn\<lparr>rd := deadline_set (clock s) t (rd cn)\<rparr>) s))"

definition SetWriteDeadline :: "time \<Rightarrow> nat \<Rightarrow> 'a store_scheme \<Rightarrow> go_error option \<times> 'a store_scheme" where
  "SetWriteDeadline t c s =
     (if c_closed (conns s c) then (Some (conn_opError (conns s c) ''set'' NetErrClosed), s)
      else (None, upd_conn c (\<lambda>cn. cn\<lparr>wd := deadline_set (clock s) t (wd cn)\<rparr>) s))"

definition SetDeadline :: "time \<Rightarrow> nat \<Rightarrow> 'a store_scheme \<Rightarrow> go_error option \<times> 'a store_scheme" where
  "SetDeadline t c s =
     (if c_closed (conns s c) then (Some (conn_opError (conns s c) ''set'' NetErrClosed), s)
      else (None, upd_conn c (\<lambda>cn. cn\<lparr>rd := deadline_set (clock s) t (rd cn),
                                       wd := deadline_set (clock s) t (wd cn)\<rparr>) s))"

definition LocalAddr :: "conn \<Rightarrow> netIP option \<times> int" where
  "LocalAddr c = tcpAddr (c_local c)"

definition RemoteAddr :: "conn \<Rightarrow> netIP option \<times> int" where
  "RemoteAddr c = tcpAddr (c_remote c)"


section \<open>The loops, when nothing interferes\<close>

lemma upd_pipe_sel [simp]:
  "pipes (upd_pipe i f s) = (pipes s)(i := f (pipes s i))" "conns (upd_pipe i f s) = conns s"
  "clock (upd_pipe i f s) = clock s" "parts (upd_pipe i f s) = parts s"
  "faults (upd_pipe i f s) = faults s" "resetTargets (upd_pipe i f s) = resetTargets s"
  "next_pipe (upd_pipe i f s) = next_pipe s" "next_conn (upd_pipe i f s) = next_conn s"
  by (simp_all add: upd_pipe_def)

lemma upd_conn_sel [simp]:
  "conns (upd_conn c f s) = (conns s)(c := f (conns s c))" "pipes (upd_conn c f s) = pipes s"
  "clock (upd_conn c f s) = clock s" "parts (upd_conn c f s) = parts s"
  "faults (upd_conn c f s) = faults s" "resetTargets (upd_conn c f s) = resetTargets s"
  "next_pipe (upd_conn c f s) = next_pipe s" "next_conn (upd_conn c f s) = next_conn s"
  by (simp_all add: upd_conn_def)

lemma read_for_unfold:
  "read_for (numeral n) plan9 len c pc s =
     (let (pc', s') = read_step plan9 len c pc s in read_for (pred_numeral n) plan9 len c pc' s')"
  by (simp add: numeral_eq_Suc)

lemma write_for_unfold:
  "write_for (numeral n) plan9 data c pc s =
     (case write_step plan9 data c pc s of
        None \<Rightarrow> None | Some (pc', s') \<Rightarrow> write_for (pred_numeral n) plan9 data c pc' s')"
  by (simp add: numeral_eq_Suc)

lemma tryRead_wait_channel:
  assumes "tryRead e len p = (Wait ch, q)"
  shows "ch = NotifyCh (notify q) \<or> ch = PartCh (partNotify (env_parts e))"
  using assms
  by (cases rule: tryRead_cases [where p = p and len = len])
     (auto simp: tryRead_closed tryRead_data tryRead_idle read_idle_def split: if_splits)

lemma conn_Read_eq:
  "conn_Read plan9 len c s =
     (if c_closed (conns s c)
      then (Returned [] (Some (conn_opError (conns s c) ''read'' NetErrClosed)), s)
      else if c_reset (conns s c)
      then (Returned [] (Some (conn_opError (conns s c) ''read'' (errConnReset plan9))), s)
      else if expired (clock s) (rd (conns s c))
      then (Returned [] (Some (conn_opError (conns s c) ''read'' ErrDeadlineExceeded)), s)
      else
        let (r, p) = tryRead (env_of s) len (pipes s (readPipe (conns s c)));
            s' = upd_pipe (readPipe (conns s c)) (\<lambda>_. p) s
        in (case r of
              Done out err \<Rightarrow> Returned out err
            | Wait ch \<Rightarrow> AtWait ch (dl_gen (rd (conns s c))), s'))"
proof -
  obtain r p where t: "tryRead (env_of s) len (pipes s (readPipe (conns s c))) = (r, p)"
    by (cases "tryRead (env_of s) len (pipes s (readPipe (conns s c)))")
  show ?thesis
  proof (cases r)
    case (Done out err)
    with t show ?thesis
      by (cases err) (simp_all add: conn_Read_def read_for_unfold Let_def deadline_channel_def)
  next
    case (Wait ch)
    with t tryRead_wait_channel [of "env_of s" len "pipes s (readPipe (conns s c))" ch p]
    have "\<not> chan_ready (readPipe (conns s c)) ch (upd_pipe (readPipe (conns s c)) (\<lambda>_. p) s)"
      by (auto simp: chan_ready_def chan_closed_def env_of_def)
    with t Wait show ?thesis
      by (simp add: conn_Read_def read_for_unfold Let_def deadline_channel_def chan_closed_def)
  qed
qed

lemma conn_Write_eq:
  "conn_Write plan9 data c s =
     (if c_closed (conns s c)
      then Some (Returned 0 (Some (conn_opError (conns s c) ''write'' NetErrClosed)), s)
      else if c_reset (conns s c)
      then Some (Returned 0 (Some (conn_opError (conns s c) ''write'' (errConnReset plan9))), s)
      else if expired (clock s) (wd (conns s c))
      then Some (Returned 0 (Some (conn_opError (conns s c) ''write'' ErrDeadlineExceeded)), s)
      else
        case tryWrite (env_of s) data (pipes s (writePipe (conns s c))) of
          None \<Rightarrow> None
        | Some (r, p) \<Rightarrow>
            Some (case r of
              Done n None \<Rightarrow> Returned n None
            | Done n (Some err) \<Rightarrow>
                Returned 0 (Some (conn_opError (conns s c) ''write'' (errBrokenPipe plan9)))
            | Wait ch \<Rightarrow> AtWait ch (dl_gen (wd (conns s c))),
            upd_pipe (writePipe (conns s c)) (\<lambda>_. p) s))"
proof (cases "tryWrite (env_of s) data (pipes s (writePipe (conns s c)))")
  case None
  then show ?thesis by (simp add: conn_Write_def write_for_unfold)
next
  case (Some rp)
  obtain r p where t: "tryWrite (env_of s) data (pipes s (writePipe (conns s c))) = Some (r, p)"
    using Some by (cases rp) simp
  show ?thesis
  proof (cases r)
    case (Done out err)
    with t show ?thesis
      by (cases err) (simp_all add: conn_Write_def write_for_unfold Let_def deadline_channel_def)
  next
    case (Wait ch)
    with t have "ch = NotifyCh (notify p)"
      by (cases rule: tryWrite_cases) auto
    then have "\<not> chan_ready (writePipe (conns s c)) ch (upd_pipe (writePipe (conns s c)) (\<lambda>_. p) s)"
      by (auto simp: chan_ready_def chan_closed_def)
    with t Wait show ?thesis
      by (simp add: conn_Write_def write_for_unfold Let_def deadline_channel_def chan_closed_def)
  qed
qed

section \<open>The invariant of the store\<close>

text \<open>
  Pipes and connections are allocated in pairs: connection \<open>c\<close> writes into pipe \<open>c\<close> and reads
  from its peer's.
\<close>

definition peer_of :: "nat \<Rightarrow> nat" where
  "peer_of c = (if even c then Suc c else c - 1)"

lemma peer_of_peer [simp]: "peer_of (peer_of c) = c"
  by (auto simp: peer_of_def elim!: oddE)

lemma peer_of_neq [simp]: "peer_of c \<noteq> c" "c \<noteq> peer_of c"
  by (auto simp: peer_of_def elim!: oddE)

lemma peer_of_eq_iff: "peer_of c = d \<longleftrightarrow> c = peer_of d"
  by (metis peer_of_peer)

lemma peer_of_less: "even n \<Longrightarrow> c < n \<Longrightarrow> peer_of c < n"
  by (auto simp: peer_of_def elim!: evenE)

text \<open>An end is down when it was closed or reset.\<close>

definition conn_down :: "conn \<Rightarrow> bool" where
  "conn_down c \<longleftrightarrow> c_closed c \<or> c_reset c"

definition wired :: "'a store_scheme \<Rightarrow> bool" where
  "wired s \<longleftrightarrow> next_pipe s = next_conn s \<and> even (next_conn s)
     \<and> (\<forall>c < next_conn s. writePipe (conns s c) = c \<and> readPipe (conns s c) = peer_of c)"

definition flags_inv :: "'a store_scheme \<Rightarrow> bool" where
  "flags_inv s \<longleftrightarrow>
     (\<forall>c < next_conn s.
        (readClosed (pipes s (peer_of c)) \<longleftrightarrow> conn_down (conns s c))
        \<and> (p_closed (pipes s c) \<longleftrightarrow> conn_down (conns s c) \<or> conn_down (conns s (peer_of c))))"

definition registry_inv :: "'a store_scheme \<Rightarrow> bool" where
  "registry_inv s \<longleftrightarrow>
     (\<forall>k. distinct (resetTargets s k)
        \<and> set (resetTargets s k)
            = {c. c < next_conn s \<and> c_nw (conns s c) \<and> c_pair (conns s c) = k \<and> \<not> conn_down (conns s c)})
     \<and> (\<forall>c < next_conn s. c_nw (conns s (peer_of c)) = c_nw (conns s c)
          \<and> c_pair (conns s (peer_of c)) = c_pair (conns s c))"

definition store_inv :: "'a store_scheme \<Rightarrow> bool" where
  "store_inv s \<longleftrightarrow> wired s \<and> (\<forall>i < next_pipe s. pipe_inv (pipes s i)) \<and> flags_inv s \<and> registry_inv s"

lemma transmit_flags:
  assumes "transmit cfg e d data0 p = Some q"
  shows "p_closed q = p_closed p \<and> readClosed q = readClosed p"
  using assms
proof (cases rule: transmit_cases)
  case (1 data i b p1 base ser p2)
  have "same_queue p p2"
    using corrupt_unit_frame(1) [OF 1(1)] throttle_frame(1) [OF 1(2)] by (rule same_queue_trans)
  then show ?thesis by (simp add: 1(5) same_queue_def)
next
  case (2 data i b p1 base ser p2)
  have "same_queue p p2"
    using corrupt_unit_frame(1) [OF 2(1)] throttle_frame(1) [OF 2(2)] by (rule same_queue_trans)
  then show ?thesis by (simp add: 2(4) same_queue_def)
qed

lemma tryWrite_flags:
  assumes "tryWrite e data p = Some (r, q)"
  shows "p_closed q = p_closed p \<and> readClosed q = readClosed p"
  using assms
proof (cases rule: tryWrite_cases)
  case admitted
  show ?thesis
  proof (cases "deliver p")
    case PassThroughDeliver
    with admitted(5) show ?thesis by (auto simp: run_deliver_def passThroughDeliver_def)
  next
    case (FaultEvaluator fp)
    with admitted(5) have "evaluate fp e data (charge data p) = Some q" by (simp add: run_deliver_def)
    then show ?thesis
    proof (cases rule: evaluate_cases)
      case (2 d p1)
      then show ?thesis using draw_decision_frame(1) [OF 2(2)] by (simp add: same_queue_def)
    next
      case (3 d p1)
      then show ?thesis
        using draw_decision_frame(1) [OF 3(2)] transmit_flags [OF 3(4)] by (simp add: same_queue_def)
    qed simp
  qed
qed simp_all

text \<open>A change of one pipe that keeps its invariant and its two closed flags.\<close>

lemma store_inv_pipe:
  assumes "store_inv s" "pipe_inv (f (pipes s i))"
    "p_closed (f (pipes s i)) = p_closed (pipes s i)" "readClosed (f (pipes s i)) = readClosed (pipes s i)"
  shows "store_inv (upd_pipe i f s)"
  using assms by (auto simp: store_inv_def wired_def flags_inv_def registry_inv_def)

text \<open>A change of one connection that leaves its wiring, its flags and its registration alone.\<close>

lemma store_inv_conn:
  assumes "store_inv s"
    and "writePipe (f (conns s c)) = writePipe (conns s c)" "readPipe (f (conns s c)) = readPipe (conns s c)"
    "c_closed (f (conns s c)) = c_closed (conns s c)" "c_reset (f (conns s c)) = c_reset (conns s c)"
    "c_nw (f (conns s c)) = c_nw (conns s c)" "c_pair (f (conns s c)) = c_pair (conns s c)"
  shows "store_inv (upd_conn c f s)"
proof -
  have [simp]: "conn_down (f (conns s c)) = conn_down (conns s c)"
    using assms by (simp add: conn_down_def)
  have eq: "conn_down (conns (upd_conn c f s) d) = conn_down (conns s d)"
    "c_nw (conns (upd_conn c f s) d) = c_nw (conns s d)"
    "c_pair (conns (upd_conn c f s) d) = c_pair (conns s d)"
    "writePipe (conns (upd_conn c f s) d) = writePipe (conns s d)"
    "readPipe (conns (upd_conn c f s) d) = readPipe (conns s d)" for d
    using assms by (simp_all add: upd_conn_def)
  show ?thesis
    using assms(1) unfolding store_inv_def wired_def flags_inv_def registry_inv_def eq by simp
qed

lemma wired_pipes: "wired s \<Longrightarrow> c < next_conn s \<Longrightarrow> writePipe (conns s c) = c \<and> readPipe (conns s c) = peer_of c"
  by (simp add: wired_def)

lemma wired_peer: "wired s \<Longrightarrow> c < next_conn s \<Longrightarrow> peer_of c < next_conn s"
  by (simp add: wired_def peer_of_less)

lemma store_inv_wired: "store_inv s \<Longrightarrow> wired s"
  by (simp add: store_inv_def)

lemma store_inv_pipe_inv: "store_inv s \<Longrightarrow> i < next_conn s \<Longrightarrow> pipe_inv (pipes s i)"
  by (simp add: store_inv_def wired_def)

lemma read_step_inv [inv_intros]:
  assumes "store_inv s" "c < next_conn s"
  shows "store_inv (snd (read_step plan9 len c pc s))"
proof (cases pc)
  case (AtTry g)
  obtain r p where t: "tryRead (env_of s) len (pipes s (readPipe (conns s c))) = (r, p)" by fastforce
  have i: "readPipe (conns s c) < next_conn s"
    using assms wired_pipes wired_peer store_inv_wired by metis
  have "store_inv (upd_pipe (readPipe (conns s c)) (\<lambda>_. p) s)"
    using assms(1) tryRead_inv [OF store_inv_pipe_inv [OF assms(1) i], of "env_of s" len]
      tryRead_frame [of "env_of s" len "pipes s (readPipe (conns s c))"] t
    by (intro store_inv_pipe) simp_all
  with AtTry t show ?thesis by (simp add: Let_def split: attempt.split option.split)
qed (use assms in simp_all)

lemma write_step_inv [inv_intros]:
  assumes "store_inv s" "c < next_conn s" "write_step plan9 data c pc s = Some (pc', s')"
  shows "store_inv s'"
proof (cases pc)
  case (AtTry g)
  with assms(3) obtain r p where t: "tryWrite (env_of s) data (pipes s (writePipe (conns s c))) = Some (r, p)"
    and s': "s' = upd_pipe (writePipe (conns s c)) (\<lambda>_. p) s"
    by (auto simp: Let_def split: option.splits attempt.splits)
  have i: "writePipe (conns s c) < next_conn s"
    using assms wired_pipes store_inv_wired by metis
  show ?thesis
    unfolding s' using assms(1) tryWrite_inv [OF t store_inv_pipe_inv [OF assms(1) i]] tryWrite_flags [OF t]
    by (intro store_inv_pipe) simp_all
qed (use assms in \<open>auto split: if_splits\<close>)

lemma deadline_inv [inv_intros]:
  "store_inv s \<Longrightarrow> store_inv (snd (SetReadDeadline t c s))"
  "store_inv s \<Longrightarrow> store_inv (snd (SetWriteDeadline t c s))"
  "store_inv s \<Longrightarrow> store_inv (snd (SetDeadline t c s))"
  by (auto simp: SetReadDeadline_def SetWriteDeadline_def SetDeadline_def intro!: store_inv_conn)

section \<open>Closing\<close>

lemma abort_flags [simp]: "p_closed p \<Longrightarrow> p_closed (abort p)"
  by (simp add: abort_def)

lemma abort_closes: "pipe_inv p \<Longrightarrow> p_closed (abort p)"
  by (simp add: abort_def pipe_inv_def)

lemma conn_Close_closed: "c_closed (conns s c) \<Longrightarrow> conn_Close c s = s"
  by (simp add: conn_Close_def)

lemma deregister_sel [simp]:
  "conns (deregisterReset k c s) = conns s" "pipes (deregisterReset k c s) = pipes s"
  "clock (deregisterReset k c s) = clock s" "parts (deregisterReset k c s) = parts s"
  "faults (deregisterReset k c s) = faults s"
  "next_pipe (deregisterReset k c s) = next_pipe s" "next_conn (deregisterReset k c s) = next_conn s"
  "resetTargets (deregisterReset k c s) = (resetTargets s)(k := remove1 c (resetTargets s k))"
  by (simp_all add: deregisterReset_def)

lemma conn_Close_effect:
  assumes "wired s" "c < next_conn s" "\<not> c_closed (conns s c)"
  shows "conns (conn_Close c s) = (conns s)(c := (conns s c)\<lparr>c_closed := True,
             rd := deadline_stop (rd (conns s c)), wd := deadline_stop (wd (conns s c))\<rparr>)"
    "pipes (conn_Close c s) = (pipes s)(c := close_pipe (pipes s c), peer_of c := abort (pipes s (peer_of c)))"
    "resetTargets (conn_Close c s)
       = (if c_nw (conns s c)
          then (resetTargets s)(c_pair (conns s c) := remove1 c (resetTargets s (c_pair (conns s c))))
          else resetTargets s)"
    "next_conn (conn_Close c s) = next_conn s" "next_pipe (conn_Close c s) = next_pipe s"
    "parts (conn_Close c s) = parts s" "clock (conn_Close c s) = clock s" "faults (conn_Close c s) = faults s"
  using assms wired_pipes [OF assms(1,2)]
  by (simp_all add: conn_Close_def Let_def fun_upd_twist)

lemma conn_Close_inv [inv_intros]:
  assumes inv: "store_inv s" and c: "c < next_conn s"
  shows "store_inv (conn_Close c s)"
proof (cases "c_closed (conns s c)")
  case True
  with inv show ?thesis by (simp add: conn_Close_closed)
next
  case False
  note eff = conn_Close_effect [OF store_inv_wired [OF inv] c False]
  let ?s = "conn_Close c s"
  have down: "conn_down (conns ?s d) \<longleftrightarrow> d = c \<or> conn_down (conns s d)" for d
    by (simp add: eff conn_down_def)
  have same: "c_nw (conns ?s d) = c_nw (conns s d)" "c_pair (conns ?s d) = c_pair (conns s d)"
    "writePipe (conns ?s d) = writePipe (conns s d)" "readPipe (conns ?s d) = readPipe (conns s d)" for d
    by (simp_all add: eff)
  have pc: "peer_of c < next_conn s" using wired_peer [OF store_inv_wired [OF inv] c] .
  have "wired ?s" using inv by (simp add: store_inv_def wired_def same eff(4,5))
  moreover have "\<forall>i < next_pipe ?s. pipe_inv (pipes ?s i)"
    using inv by (auto simp: store_inv_def eff close_inv abort_inv)
  moreover have "flags_inv ?s"
    unfolding flags_inv_def
  proof (intro allI impI)
    fix d assume d: "d < next_conn ?s"
    then have f: "readClosed (pipes s (peer_of d)) \<longleftrightarrow> conn_down (conns s d)"
      "p_closed (pipes s d) \<longleftrightarrow> conn_down (conns s d) \<or> conn_down (conns s (peer_of d))"
      using inv by (auto simp: store_inv_def flags_inv_def eff(4))
    have ab: "p_closed (abort (pipes s (peer_of c)))"
      by (rule abort_closes [OF store_inv_pipe_inv [OF inv pc]])
    show "(readClosed (pipes ?s (peer_of d)) \<longleftrightarrow> conn_down (conns ?s d))
        \<and> (p_closed (pipes ?s d) \<longleftrightarrow> conn_down (conns ?s d) \<or> conn_down (conns ?s (peer_of d)))"
      unfolding down using f ab by (auto simp: eff(2) peer_of_eq_iff)
  qed
  moreover have "registry_inv ?s"
  proof -
    from inv have dist: "\<And>k. distinct (resetTargets s k)"
      and set: "\<And>k. set (resetTargets s k)
            = {d. d < next_conn s \<and> c_nw (conns s d) \<and> c_pair (conns s d) = k \<and> \<not> conn_down (conns s d)}"
      and peers: "\<And>d. d < next_conn s \<Longrightarrow> c_nw (conns s (peer_of d)) = c_nw (conns s d)
          \<and> c_pair (conns s (peer_of d)) = c_pair (conns s d)"
      by (auto simp: store_inv_def registry_inv_def)
    show ?thesis
      unfolding registry_inv_def down same eff(3,4)
      using dist peers by (auto simp: set set_remove1_eq [OF dist])
  qed
  ultimately show ?thesis by (simp add: store_inv_def)
qed


section \<open>Resetting a pair\<close>

lemma fold_signal:
  "conns (fold signalReset cs s) = (\<lambda>c. if c \<in> set cs then (conns s c)\<lparr>c_reset := True\<rparr> else conns s c)
   \<and> pipes (fold signalReset cs s) = pipes s \<and> resetTargets (fold signalReset cs s) = resetTargets s
   \<and> next_conn (fold signalReset cs s) = next_conn s \<and> next_pipe (fold signalReset cs s) = next_pipe s
   \<and> clock (fold signalReset cs s) = clock s \<and> parts (fold signalReset cs s) = parts s
   \<and> faults (fold signalReset cs s) = faults s"
  by (induction cs arbitrary: s) (auto simp: signalReset_def fun_eq_iff)

lemma abort_idem [simp]: "abort (abort p) = abort p"
  by (simp add: abort_def)

lemma fold_abort:
  assumes "\<forall>c \<in> set cs. writePipe (conns s c) = c \<and> readPipe (conns s c) = peer_of c"
  shows "conns (fold abortReset cs s) = conns s
   \<and> pipes (fold abortReset cs s) = (\<lambda>i. if i \<in> set cs \<or> peer_of i \<in> set cs then abort (pipes s i) else pipes s i)
   \<and> resetTargets (fold abortReset cs s) = resetTargets s
   \<and> next_conn (fold abortReset cs s) = next_conn s \<and> next_pipe (fold abortReset cs s) = next_pipe s
   \<and> clock (fold abortReset cs s) = clock s \<and> parts (fold abortReset cs s) = parts s
   \<and> faults (fold abortReset cs s) = faults s"
  using assms
proof (induction cs arbitrary: s)
  case (Cons c cs)
  have c: "writePipe (conns s c) = c" "readPipe (conns s c) = peer_of c" using Cons.prems by auto
  let ?t = "abortReset c s"
  have t: "conns ?t = conns s" "resetTargets ?t = resetTargets s" "next_conn ?t = next_conn s"
    "next_pipe ?t = next_pipe s" "clock ?t = clock s" "parts ?t = parts s" "faults ?t = faults s"
    "pipes ?t = (pipes s)(c := abort (pipes s c), peer_of c := abort (pipes s (peer_of c)))"
    by (simp_all add: abortReset_def c)
  have "\<forall>d \<in> set cs. writePipe (conns ?t d) = d \<and> readPipe (conns ?t d) = peer_of d"
    using Cons.prems by (simp add: t)
  from Cons.IH [OF this] show ?case
    by (simp add: t fun_eq_iff) (auto simp: peer_of_eq_iff)
qed simp

text \<open>The targets of a pair: its connections' ends that are still up.\<close>

lemma reset_targets:
  "store_inv s \<Longrightarrow> c \<in> set (resetTargets s k) \<longleftrightarrow>
     c < next_conn s \<and> c_nw (conns s c) \<and> c_pair (conns s c) = k \<and> \<not> conn_down (conns s c)"
  by (simp add: store_inv_def registry_inv_def del: split_paired_All)

lemma reset_pair_effect:
  fixes k :: pairKey
  assumes "store_inv s"
  defines "ts \<equiv> resetTargets s k"
  shows "conns (reset_pair k s) = (\<lambda>c. if c \<in> set ts then (conns s c)\<lparr>c_reset := True\<rparr> else conns s c)"
    "pipes (reset_pair k s) = (\<lambda>i. if i \<in> set ts \<or> peer_of i \<in> set ts then abort (pipes s i) else pipes s i)"
    "resetTargets (reset_pair k s) = (resetTargets s)(k := [])"
    "next_conn (reset_pair k s) = next_conn s" "next_pipe (reset_pair k s) = next_pipe s"
    "clock (reset_pair k s) = clock s" "parts (reset_pair k s) = parts s" "faults (reset_pair k s) = faults s"
proof -
  let ?s1 = "s\<lparr>resetTargets := (resetTargets s)(k := [])\<rparr>"
  let ?s2 = "fold signalReset ts ?s1"
  note sig = fold_signal [of ts ?s1]
  have "\<forall>c \<in> set ts. writePipe (conns ?s2 c) = c \<and> readPipe (conns ?s2 c) = peer_of c"
  proof
    fix c assume "c \<in> set ts"
    then have "c < next_conn s" using assms(1) by (simp add: ts_def reset_targets)
    from wired_pipes [OF store_inv_wired [OF assms(1)] this]
    show "writePipe (conns ?s2 c) = c \<and> readPipe (conns ?s2 c) = peer_of c" using sig by simp
  qed
  note ab = fold_abort [of ts ?s2, OF this]
  have "reset_pair k s = fold abortReset ts ?s2" by (simp add: reset_pair_def Let_def ts_def)
  with sig ab show "resetTargets (reset_pair k s) = (resetTargets s)(k := [])"
    "next_conn (reset_pair k s) = next_conn s" "next_pipe (reset_pair k s) = next_pipe s"
    "clock (reset_pair k s) = clock s" "parts (reset_pair k s) = parts s" "faults (reset_pair k s) = faults s"
    by simp_all
  show "conns (reset_pair k s) = (\<lambda>c. if c \<in> set ts then (conns s c)\<lparr>c_reset := True\<rparr> else conns s c)"
    unfolding \<open>reset_pair k s = _\<close> ab [THEN conjunct1] sig [THEN conjunct1] by (auto simp: fun_eq_iff)
  show "pipes (reset_pair k s) = (\<lambda>i. if i \<in> set ts \<or> peer_of i \<in> set ts then abort (pipes s i) else pipes s i)"
    unfolding \<open>reset_pair k s = _\<close> ab [THEN conjunct2, THEN conjunct1] sig [THEN conjunct2, THEN conjunct1] by (auto simp: fun_eq_iff)
qed

lemma reset_peer:
  assumes "store_inv s" "c \<in> set (resetTargets s k)"
  shows "peer_of c \<in> set (resetTargets s k) \<or> conn_down (conns s (peer_of c))"
proof -
  from assms have c: "c < next_conn s" "c_nw (conns s c)" "c_pair (conns s c) = k" by (simp_all add: reset_targets)
  then have "c_nw (conns s (peer_of c))" "c_pair (conns s (peer_of c)) = k"
    using assms(1) by (auto simp: store_inv_def registry_inv_def)
  with assms(1) wired_peer [OF store_inv_wired [OF assms(1)] c(1)] show ?thesis
    by (auto simp: reset_targets)
qed

lemma reset_pair_inv [inv_intros]:
  assumes inv: "store_inv s"
  shows "store_inv (reset_pair k s)"
proof -
  note eff = reset_pair_effect [OF inv, of k]
  let ?s = "reset_pair k s" and ?ts = "resetTargets s k"
  have down: "conn_down (conns ?s d) \<longleftrightarrow> d \<in> set ?ts \<or> conn_down (conns s d)" for d
    by (simp add: eff(1) conn_down_def)
  have same: "c_nw (conns ?s d) = c_nw (conns s d)" "c_pair (conns ?s d) = c_pair (conns s d)"
    "writePipe (conns ?s d) = writePipe (conns s d)" "readPipe (conns ?s d) = readPipe (conns s d)" for d
    by (simp_all add: eff(1))
  have "wired ?s" using inv by (simp add: store_inv_def wired_def same eff(4,5))
  moreover have "\<forall>i < next_pipe ?s. pipe_inv (pipes ?s i)"
    using inv by (auto simp: store_inv_def eff(2,5) abort_inv)
  moreover have "flags_inv ?s"
    unfolding flags_inv_def
  proof (intro allI impI)
    fix d assume "d < next_conn ?s"
    then have d: "d < next_conn s" by (simp add: eff(4))
    then have f: "readClosed (pipes s (peer_of d)) \<longleftrightarrow> conn_down (conns s d)"
      "p_closed (pipes s d) \<longleftrightarrow> conn_down (conns s d) \<or> conn_down (conns s (peer_of d))"
      using inv by (auto simp: store_inv_def flags_inv_def)
    have p: "peer_of d \<in> set ?ts \<Longrightarrow> d \<in> set ?ts \<or> conn_down (conns s d)"
      using reset_peer [OF inv, of "peer_of d" k] by simp
    have ab: "p_closed (abort (pipes s d))"
      by (rule abort_closes [OF store_inv_pipe_inv [OF inv d]])
    show "(readClosed (pipes ?s (peer_of d)) \<longleftrightarrow> conn_down (conns ?s d))
        \<and> (p_closed (pipes ?s d) \<longleftrightarrow> conn_down (conns ?s d) \<or> conn_down (conns ?s (peer_of d)))"
      unfolding down using f ab p by (auto simp: eff(2))
  qed
  moreover have "registry_inv ?s"
    unfolding registry_inv_def down same eff(3,4)
    using inv by (auto simp: store_inv_def registry_inv_def simp del: split_paired_All)
  ultimately show ?thesis by (simp add: store_inv_def)
qed

section \<open>A new pair\<close>

lemma directionPipe_inv: "pipe_inv (directionPipe b sd o' side tr)"
  by (simp add: directionPipe_def newPipe_def pipe_inv_def)

lemma directionPipe_flags [simp]:
  "\<not> p_closed (directionPipe b sd o' side tr)" "\<not> readClosed (directionPipe b sd o' side tr)"
  by (simp_all add: directionPipe_def newPipe_def)

text \<open>The pair and the registration of both ends, as a dial makes them.\<close>

lemma install_flags [simp]:
  "pipe_inv (installFaultPolicy fp p) = pipe_inv p" "p_closed (installFaultPolicy fp p) = p_closed p"
  "readClosed (installFaultPolicy fp p) = readClosed p"
  by (simp_all add: installFaultPolicy_def pipe_inv_def)

end
