(* ===== verification/Direction.thy ===== *)
theory Direction
  imports Flow
begin

text \<open>
  What one direction of a connection promises over whole runs: any order of writes, reads, timer
  callbacks and closes, at any instants and under any sequence of partitions and fault
  settings. Each property is a short consequence of the lemmas of \<open>Delivery\<close> and \<open>Flow\<close>.
\<close>

section \<open>Examples\<close>

text \<open>A faulted direction and the environments the concrete instances of the properties run in.\<close>

definition exampleFaults :: faultConfig where
  "exampleFaults = noFaults\<lparr>latencyEnabled := True, latencyMin := 5, latencyMax := 5\<rparr>"

definition exampleEnv :: "time \<Rightarrow> env" where
  "exampleEnv now = \<lparr>env_now = now, env_parts = \<lparr>partitions = {}, partNotify = 0\<rparr>, env_faults = exampleFaults\<rparr>"

definition examplePipe :: pipe where
  "examplePipe =
     (installFaultPolicy \<lparr>fp_network = True, fp_pair = (''a'', ''b''), fp_static = noFaults\<rparr> (newPipe 4))
       \<lparr>loss := Some \<lparr>src = (\<lambda>_. 0), pos = 0\<rparr>, latency := Some \<lparr>src = (\<lambda>_. 0), pos = 0\<rparr>, trace := Some []\<rparr>"

lemmas example_defs =
  exampleFaults_def exampleEnv_def examplePipe_def noFaults_def newPipe_def installFaultPolicy_def

lemma example_latency:
  "uniformDuration 5 5 \<lparr>src = (\<lambda>_. 0), pos = n\<rparr> = Some (5, \<lparr>src = (\<lambda>_. 0), pos = Suc n\<rparr>)"
  using uniformDuration_fixed [of 5 "\<lparr>src = (\<lambda>_. 0), pos = n\<rparr>"] by (simp add: maxDuration_def)

text \<open>A write to the example leaves one unit in the latency line, due five instants later.\<close>

lemma example_write:
  "tryWrite (exampleEnv now) data examplePipe = Some (Done (length data) None,
     examplePipe\<lparr>bufBytes := int (length data),
       latency := Some \<lparr>src = (\<lambda>_. 0), pos = 1\<rparr>,
       trace := Some [zeroEvent\<lparr>ev_drawn := 5, ev_effective := 5, ev_size := length data\<rparr>],
       pending := [\<lparr>pu_data = data, releaseAt = now + 5\<rparr>], timer := Some (now + 5), arms := 1\<rparr>)"
  by (simp add: tryWrite_def example_defs run_deliver_def charge_def evaluate_def current_config_def
      isPartitioned_def draw_decision_def draw_bernoulli_def draw_latency_def bernoulli_def
      stream_next_def example_latency transmit_def corrupt_unit_def throttle_def clamp_release_def
      time_add_def time_sub_def minDuration_def maxDuration_def admit_pending_def zeroEvent_def
      armLatencyForAppendLocked_def armLatencyTimerLocked_def record_event_def Let_def)


lemma example_due:
  "releaseDueLatency (exampleEnv t)
     (examplePipe\<lparr>bufBytes := b, latency := la, trace := tr,
        pending := [\<lparr>pu_data = data, releaseAt = r\<rparr>], timer := Some r, arms := n\<rparr>)
   = (if r \<le> t
      then examplePipe\<lparr>bufBytes := b, latency := la, trace := tr, readable := [data],
             notify := 1, timer := None, arms := Suc n\<rparr>
      else armLatencyTimerLocked (exampleEnv t)
             (examplePipe\<lparr>bufBytes := b, latency := la, trace := tr,
                pending := [\<lparr>pu_data = data, releaseAt = r\<rparr>], timer := Some r, arms := n\<rparr>))"
  by (simp add: releaseDueLatency_def example_defs broadcastLocked_def armLatencyTimerLocked_def Let_def)

lemma collect_cong:
  assumes "P s" "\<And>l u v. l \<in> set ls \<Longrightarrow> P u \<Longrightarrow> step l u = Some v \<Longrightarrow> P v"
    and "\<And>l u. l \<in> set ls \<Longrightarrow> P u \<Longrightarrow> f l u = g l u"
  shows "collect step f ls s = collect step g ls s"
  using assms by (induction ls arbitrary: s) (auto split: option.split)

lemma pipe_step_inv: "pipe_step l p = Some q \<Longrightarrow> pipe_inv p \<Longrightarrow> pipe_inv q"
proof -
  obtain e op where l: "l = (e, op)" by (cases l)
  show "pipe_step l p = Some q \<Longrightarrow> pipe_inv p \<Longrightarrow> pipe_inv q"
    by (cases op) (auto simp: l intro: inv_intros)
qed

lemma pipe_run_inv: "run_steps pipe_step ls p = Some q \<Longrightarrow> pipe_inv p \<Longrightarrow> pipe_inv q"
  by (rule run_steps_inv [where P = pipe_inv]) (auto intro: pipe_step_inv)

lemma pipe_run_deliver: "run_steps pipe_step ls p = Some q \<Longrightarrow> deliver q = deliver p \<and> bound q = bound p"
  by (rule run_steps_inv [where P = "\<lambda>q. deliver q = deliver p \<and> bound q = bound p"])
     (auto dest: pipe_step_deliver)

section \<open>Data\<close>

text \<open>
  C1. First in, first out: without an abort, and while the faults that delay units are only
  ever switched on, the bytes a reader has got followed by those still queued or in the latency
  line are the bytes the accepted writes put in, in order, none lost, repeated or invented
  after the evaluator decided on the unit.
\<close>

theorem direction_fifo:
  assumes "run_steps pipe_step ls p = Some q" "\<forall>l \<in> set ls. snd l \<noteq> OpAbort"
    and "sorted (map (\<lambda>l. line_on (deliver p) (fst l)) ls)" "pending p = []"
  shows "in_flight p @ collect pipe_step bytes_written ls p = collect pipe_step bytes_read ls p @ in_flight q"
  using assms by (intro pipe_fifo.run_fifo) (simp_all add: fifo_good_def)

lemma example_run:
  "run_steps pipe_step [(exampleEnv 0, OpWrite [7, 8, 9]), (exampleEnv 5, OpTimer), (exampleEnv 6, OpRead 2)] examplePipe
   = Some (examplePipe\<lparr>bufBytes := 1, latency := Some \<lparr>src = (\<lambda>_. 0), pos = 1\<rparr>,
       trace := Some [zeroEvent\<lparr>ev_drawn := 5, ev_effective := 5, ev_size := 3\<rparr>],
       readable := [[9]], notify := 2, timer := None, arms := 2\<rparr>)"
  by (simp add: example_write example_due)
     (simp add: example_defs tryRead_def consume.simps broadcastLocked_def)

lemma example_collect:
  "collect pipe_step bytes_read
     [(exampleEnv 0, OpWrite [7, 8, 9]), (exampleEnv 5, OpTimer), (exampleEnv 6, OpRead 2)] examplePipe = [7, 8]"
  by (simp add: example_write example_due)
     (simp add: example_defs tryRead_def consume.simps broadcastLocked_def)

lemma example_line:
  "line_on (deliver examplePipe) (exampleEnv t)" "pending examplePipe = []" "in_flight examplePipe = []"
  by (simp_all add: line_on_def example_defs current_config_def in_flight_def)

theorem direction_fifo_witness:
  "collect pipe_step bytes_written
     [(exampleEnv 0, OpWrite [7, 8, 9]), (exampleEnv 5, OpTimer), (exampleEnv 6, OpRead 2)] examplePipe
   = [7, 8] @ [9]"
  using direction_fifo [OF example_run]
  by (simp add: example_collect example_line del: collect.simps) (simp add: example_defs in_flight_def)

text \<open>A write that neither loss, duplication, corruption nor a partition can touch, and what it puts in.\<close>

definition lossless :: "deliverFunc \<Rightarrow> env \<Rightarrow> bool" where
  "lossless dl e =
     (case dl of
        PassThroughDeliver \<Rightarrow> True
      | FaultEvaluator fp \<Rightarrow>
          \<not> (fp_network fp \<and> isPartitioned (fp_pair fp) (env_parts e))
          \<and> (let cfg = current_config fp e
             in \<not> lossEnabled cfg \<and> \<not> duplicateEnabled cfg \<and> \<not> corruptEnabled cfg))"

fun accepted_bytes :: "pipe_label \<Rightarrow> pipe \<Rightarrow> bytes" where
  "accepted_bytes (e, OpWrite data) p =
     (case tryWrite e data p of Some (Done _ None, _) \<Rightarrow> data | _ \<Rightarrow> [])"
| "accepted_bytes (e, op) p = []"

lemma draw_decision_defined:
  assumes "tryWrite e data p = Some (Done n None, q)" "deliver p = FaultEvaluator fp"
    and "\<not> (fp_network fp \<and> isPartitioned (fp_pair fp) (env_parts e))"
  obtains d p1 where "draw_decision (current_config fp e) (charge data p) = Some (d, p1)"
  using assms
  by (cases "draw_decision (current_config fp e) (charge data p)")
     (auto simp: tryWrite_def run_deliver_def evaluate_def Let_def split: if_splits)

lemma lossless_written:
  assumes "lossless (deliver p) (fst l)"
  shows "bytes_written l p = accepted_bytes l p"
proof -
  obtain e op where l: "l = (e, op)" by (cases l)
  show ?thesis
  proof (cases "\<exists>data n q. op = OpWrite data \<and> tryWrite e data p = Some (Done n None, q)")
    case True
    then obtain data n q where w: "op = OpWrite data" "tryWrite e data p = Some (Done n None, q)" by blast
    have "admitted_bytes e data p = data"
    proof (cases "deliver p")
      case (FaultEvaluator fp)
      with assms have off: "\<not> (fp_network fp \<and> isPartitioned (fp_pair fp) (env_parts e))"
        "\<not> lossEnabled (current_config fp e)" "\<not> duplicateEnabled (current_config fp e)"
        "\<not> corruptEnabled (current_config fp e)"
        by (auto simp: lossless_def l Let_def)
      obtain d p1 where "draw_decision (current_config fp e) (charge data p) = Some (d, p1)"
        using draw_decision_defined [OF w(2) FaultEvaluator off(1)] .
      with off FaultEvaluator show ?thesis
        by (auto simp: admitted_bytes_def draw_decision_def draw_bernoulli_def charge_def corrupt_unit_def
            unit_copies_def split: bind_splits)
    qed (simp add: admitted_bytes_def)
    with w l show ?thesis by simp
  next
    case False
    then show ?thesis by (cases op) (auto simp: l split: option.splits attempt.splits)
  qed
qed

text \<open>
  Delays never change data: while only latency and bandwidth are in play, what has been
  read followed by what is on its way is exactly what the accepted writes carried.
\<close>

lemma delays_keep_data:
  assumes "run_steps pipe_step ls p = Some q" "\<forall>l \<in> set ls. snd l \<noteq> OpAbort \<and> lossless (deliver p) (fst l)"
    and "sorted (map (\<lambda>l. line_on (deliver p) (fst l)) ls)" "pending p = []"
  shows "in_flight p @ collect pipe_step accepted_bytes ls p = collect pipe_step bytes_read ls p @ in_flight q"
proof -
  have "collect pipe_step accepted_bytes ls p = collect pipe_step bytes_written ls p"
    using assms(2) by (intro collect_cong [where P = "\<lambda>u. deliver u = deliver p"])
      (auto dest: pipe_step_deliver simp: lossless_written)
  with assms show ?thesis
    using pipe_fifo.run_fifo [of ls p q] by (simp add: fifo_good_def)
qed


lemma delays_keep_data_witness:
  "[7, 8, 9] = [7, 8] @ in_flight (examplePipe\<lparr>readable := [[9]]\<rparr>)"
proof -
  have "collect pipe_step accepted_bytes
      [(exampleEnv 0, OpWrite [7, 8, 9]), (exampleEnv 5, OpTimer), (exampleEnv 6, OpRead 2)] examplePipe = [7, 8, 9]"
    by (simp add: example_write)
  moreover have "lossless (deliver examplePipe) (exampleEnv t)" for t
    by (simp add: lossless_def example_defs isPartitioned_def current_config_def)
  ultimately show ?thesis
    using delays_keep_data [OF example_run]
    by (simp add: example_collect example_line in_flight_def del: collect.simps)
qed

text \<open>
  A read takes a prefix: as much of the queued bytes as fits its buffer, in order, across
  write boundaries, and frees exactly that much of the bound.
\<close>

lemma read_takes_prefix:
  assumes "tryRead e len p = (Done out None, q)"
  shows "out = take len (concat (readable p)) \<and> concat (readable q) = drop len (concat (readable p))
       \<and> bufBytes q = bufBytes p - int (length out) \<and> pending q = pending p"
proof -
  have r: "\<not> readClosed p" using assms by (auto simp: tryRead_closed)
  have d: "concat (readable p) \<noteq> [] \<or> readable p \<noteq> [] \<and> len = 0"
  proof (rule ccontr)
    assume "\<not> ?thesis"
    then have "tryRead e len p = read_idle e (drop_empty p)" by (intro tryRead_idle [OF r]) auto
    with assms show False by (simp add: read_idle_def Let_def split: if_splits)
  qed
  define out' rest where "out' = fst (consume len (readable p))" and "rest = snd (consume len (readable p))"
  have q: "out = out'" "readable q = rest" "bufBytes q = bufBytes p - int (length out)" "pending q = pending p"
    using assms tryRead_data [OF r d, of e] by (auto simp: out'_def rest_def broadcastLocked_def)
  have "out' @ concat rest = concat (readable p)" "length out' = min len (length (concat (readable p)))"
    using consume_spec [of len "readable p"] by (simp_all add: out'_def rest_def)
  then have "out' = take (min len (length (concat (readable p)))) (concat (readable p))
      \<and> concat rest = drop (min len (length (concat (readable p)))) (concat (readable p))"
    by (simp add: append_eq_conv_conj)
  moreover have "take (min len (length xs)) xs = take len xs" "drop (min len (length xs)) xs = drop len xs"
    for xs :: bytes by (simp_all add: min_def)
  ultimately have "out' = take len (concat (readable p))" "concat rest = drop len (concat (readable p))"
    by simp_all
  with q show ?thesis by simp
qed

lemma read_takes_prefix_witness:
  "take 3 (concat [[1, 2], [3, 4 :: u8]]) = [1, 2, 3]
   \<and> bufBytes (snd (tryRead (exampleEnv 0) 3 ((newPipe 9)\<lparr>readable := [[1, 2], [3, 4]], bufBytes := 4\<rparr>))) = 1"
proof -
  have "tryRead (exampleEnv 0) 3 ((newPipe 9)\<lparr>readable := [[1, 2], [3, 4]], bufBytes := 4\<rparr>)
      = (Done [1, 2, 3] None, (newPipe 9)\<lparr>readable := [[4]], bufBytes := 1, notify := 1\<rparr>)"
    by (simp add: tryRead_def newPipe_def consume.simps broadcastLocked_def Let_def)
  from read_takes_prefix [OF this] this show ?thesis by (simp add: newPipe_def)
qed

section \<open>Waiting\<close>

text \<open>
  No lost wakeup for readers: whatever happened since a read was given the pipe's channel to
  wait on, as long as that channel is still open a new attempt would only wait on it again.
\<close>

lemma read_no_lost_wakeup:
  assumes "tryRead e len p = (Wait (NotifyCh g), q)" "run_steps pipe_step ls q = Some t"
    and "\<not> chan_closed g (notify t)"
  shows "tryRead e' len t = (Wait (NotifyCh g), t)"
proof -
  have q: "read_blocked len q" "notify q = g" using tryRead_wait [OF assms(1)] by simp_all
  with assms(2,3) have "read_blocked len t" using readers.no_lost_wakeup [OF assms(2)] by blast
  moreover have "notify t = g"
    using readers.gen_run [OF assms(2)] q assms(3) by (simp add: chan_closed_def)
  ultimately show ?thesis by (simp add: tryRead_blocked)
qed

lemma example_wait: "tryRead (exampleEnv 0) 4 examplePipe = (Wait (NotifyCh 0), examplePipe)"
  by (simp add: tryRead_def example_defs)

lemma example_blocked:
  "\<exists>t. run_steps pipe_step [(exampleEnv 0, OpWrite [7])] examplePipe = Some t \<and> notify t = 0"
  by (simp add: example_write) (simp add: example_defs)

text \<open>The same for writers held back by the bound.\<close>

lemma write_no_lost_wakeup:
  assumes "pipe_inv p" "tryWrite e data p = Some (Wait (NotifyCh g), q)" "run_steps pipe_step ls q = Some t"
    and "\<not> chan_closed g (notify t)"
  shows "tryWrite e' data t = Some (Wait (NotifyCh g), t)"
proof -
  have q: "write_blocked (length data) q" "notify q = g" "pipe_inv q"
    using assms(1,2) by (simp_all add: tryWrite_blocked_iff)
  with assms(3,4) have "write_blocked (length data) t" using writers.no_lost_wakeup [OF assms(3)] by blast
  moreover have "notify t = g"
    using writers.gen_run [OF assms(3)] q assms(4) by (simp add: chan_closed_def)
  moreover have "pipe_inv t" using pipe_run_inv [OF assms(3) q(3)] .
  ultimately show ?thesis by (simp add: tryWrite_blocked_iff)
qed

definition fullPipe :: pipe where
  "fullPipe = (newPipe 2)\<lparr>readable := [[1], [2]], bufBytes := 2\<rparr>"

text \<open>
  C19. No wakeup is lost: whatever happened since a read, or a write held back by the bound, was
  given the pipe's channel to wait on, as long as that channel is still open a new attempt, at
  any time, would only wait on it again.
\<close>

theorem wakeups_not_lost:
  assumes "pipe_inv p" and "run_steps pipe_step ls q = Some t" and "\<not> chan_closed g (notify t)"
  shows "(tryRead e len p = (Wait (NotifyCh g), q) \<longrightarrow> tryRead e' len t = (Wait (NotifyCh g), t))
    \<and> (tryWrite e data p = Some (Wait (NotifyCh g), q) \<longrightarrow> tryWrite e' data t = Some (Wait (NotifyCh g), t))"
  using read_no_lost_wakeup write_no_lost_wakeup assms by blast

theorem wakeups_not_lost_witness:
  "(\<exists>t. run_steps pipe_step [(exampleEnv 0, OpWrite [7])] examplePipe = Some t
     \<and> tryRead (exampleEnv 3) 4 t = (Wait (NotifyCh 0), t))
   \<and> tryWrite (exampleEnv 0) [3] fullPipe = Some (Wait (NotifyCh 0), fullPipe)
   \<and> tryWrite (exampleEnv 9) [3] (fullPipe\<lparr>arms := 1\<rparr>) = Some (Wait (NotifyCh 0), fullPipe\<lparr>arms := 1\<rparr>)"
proof (intro conjI)
  have "pipe_inv examplePipe" by (simp add: pipe_inv_def example_defs)
  moreover obtain t where t: "run_steps pipe_step [(exampleEnv 0, OpWrite [7])] examplePipe = Some t" "notify t = 0"
    using example_blocked by blast
  ultimately have "tryRead (exampleEnv 3) 4 t = (Wait (NotifyCh 0), t)"
    using wakeups_not_lost [of examplePipe "[(exampleEnv 0, OpWrite [7])]" examplePipe t 0] example_wait
    by (auto simp: chan_closed_def)
  with t show "\<exists>t. run_steps pipe_step [(exampleEnv 0, OpWrite [7])] examplePipe = Some t
     \<and> tryRead (exampleEnv 3) 4 t = (Wait (NotifyCh 0), t)" by blast
  have inv: "pipe_inv fullPipe" by (simp add: pipe_inv_def fullPipe_def newPipe_def)
  show w: "tryWrite (exampleEnv 0) [3] fullPipe = Some (Wait (NotifyCh 0), fullPipe)"
    by (simp add: tryWrite_def fullPipe_def newPipe_def)
  have "run_steps pipe_step [(exampleEnv 5, OpTimer)] fullPipe = Some (fullPipe\<lparr>arms := 1\<rparr>)"
    by (simp add: releaseDueLatency_def armLatencyTimerLocked_def fullPipe_def newPipe_def)
  from wakeups_not_lost [OF inv this, of 0] w
  show "tryWrite (exampleEnv 9) [3] (fullPipe\<lparr>arms := 1\<rparr>) = Some (Wait (NotifyCh 0), fullPipe\<lparr>arms := 1\<rparr>)"
    by (simp add: chan_closed_def) (simp add: fullPipe_def newPipe_def)
qed

section \<open>The end of the stream\<close>

lemma eof_final:
  assumes "tryRead e len p = (Done out (Some err), q)"
  shows "err = EOF \<and> out = [] \<and> (\<not> readClosed p \<longrightarrow> p_closed p \<and> in_flight p = [])
    \<and> (\<forall>ls t e' len'. run_steps pipe_step ls q = Some t \<longrightarrow> tryRead e' len' t = (Done [] (Some EOF), t))"
  using tryRead_eof [OF assms] at_eof_run at_eof_read by blast

lemma example_eof:
  "tryRead (exampleEnv 0) 4 (close_pipe examplePipe)
   = (Done [] (Some EOF), examplePipe\<lparr>p_closed := True, notify := 1, eofSeen := True\<rparr>)"
  by (simp add: tryRead_def example_defs close_pipe_def broadcastLocked_def checkPartition_def Let_def)

lemma eof_held_until_heal:
  assumes "tryRead e len p = (Wait (PartCh ch), q)"
  shows "isPartitioned (partitionPair p) (env_parts e) \<and> in_flight q = []
    \<and> chan_closed ch (partNotify (heal_pair (partitionPair p) (env_parts e)))
    \<and> fst (tryRead (e\<lparr>env_parts := heal_pair (partitionPair p) (env_parts e)\<rparr>) len q) = Done [] (Some EOF)"
proof -
  have r: "\<not> readClosed p" using assms by (auto simp: tryRead_closed)
  have d: "\<not> (concat (readable p) \<noteq> [] \<or> readable p \<noteq> [] \<and> len = 0)"
  proof
    assume "concat (readable p) \<noteq> [] \<or> readable p \<noteq> [] \<and> len = 0"
    from assms tryRead_data [OF r this] show False by simp
  qed
  then have i: "tryRead e len p = read_idle e (drop_empty p)" by (intro tryRead_idle [OF r]) auto
  with assms have h: "p_closed p" "pending p = []" "isPartitioned (partitionPair p) (env_parts e)"
      "ch = partNotify (env_parts e)" "q = drop_empty p" "\<not> eofSeen p"
    by (auto simp: read_idle_def Let_def split: if_splits)
  then have "in_flight q = []" by (simp add: in_flight_def)
  moreover have "tryRead (e\<lparr>env_parts := heal_pair (partitionPair p) (env_parts e)\<rparr>) len q
      = read_idle (e\<lparr>env_parts := heal_pair (partitionPair p) (env_parts e)\<rparr>) (drop_empty q)"
    using h r by (intro tryRead_idle) simp_all
  then have "fst (tryRead (e\<lparr>env_parts := heal_pair (partitionPair p) (env_parts e)\<rparr>) len q) = Done [] (Some EOF)"
    using h by (simp add: read_idle_def)
  ultimately show ?thesis using h heal_closes [OF h(3)] by simp
qed

definition cutEnv :: env where
  "cutEnv = (exampleEnv 0)\<lparr>env_parts := \<lparr>partitions = {(''a'', ''b'')}, partNotify = 3\<rparr>\<rparr>"

lemma example_held:
  "tryRead cutEnv 4 (close_pipe examplePipe) = (Wait (PartCh 3), close_pipe examplePipe)"
  by (simp add: tryRead_def cutEnv_def example_defs close_pipe_def broadcastLocked_def checkPartition_def)

text \<open>
  C20. The end of the stream is final, and a partition can only hold it back. The only error a read
  ever reports is the end of the stream, with no data; unless the reading end itself was closed it
  means that the writer closed and everything was read; and every later read, after any further
  operations and at any time, reports it again. A read that waits on the partition channel does so
  because the pair is partitioned; \<open>Heal\<close> closes that channel and the next read reports the end.
\<close>

theorem end_of_stream:
  assumes "tryRead e len p = (r, q)"
  shows "(\<forall>out err. r = Done out (Some err) \<longrightarrow> err = EOF \<and> out = [] \<and> (\<not> readClosed p \<longrightarrow> p_closed p \<and> in_flight p = [])
        \<and> (\<forall>ls t e' len'. run_steps pipe_step ls q = Some t \<longrightarrow> tryRead e' len' t = (Done [] (Some EOF), t)))
    \<and> (\<forall>ch. r = Wait (PartCh ch) \<longrightarrow> isPartitioned (partitionPair p) (env_parts e) \<and> in_flight q = []
        \<and> chan_closed ch (partNotify (heal_pair (partitionPair p) (env_parts e)))
        \<and> fst (tryRead (e\<lparr>env_parts := heal_pair (partitionPair p) (env_parts e)\<rparr>) len q) = Done [] (Some EOF))"
  using eof_final eof_held_until_heal assms by blast

theorem end_of_stream_witness:
  "(let q = examplePipe\<lparr>p_closed := True, notify := 1, eofSeen := True\<rparr>; t = releaseDueLatency (exampleEnv 8) q in
      tryRead (exampleEnv 9) 1 t = (Done [] (Some EOF), t))
    \<and> chan_closed 3 (partNotify (heal_pair (''a'', ''b'') (env_parts cutEnv)))"
proof -
  let ?q = "examplePipe\<lparr>p_closed := True, notify := 1, eofSeen := True\<rparr>"
  have "run_steps pipe_step [(exampleEnv 8, OpTimer)] ?q = Some (releaseDueLatency (exampleEnv 8) ?q)" by simp
  then have "tryRead (exampleEnv 9) 1 (releaseDueLatency (exampleEnv 8) ?q) = (Done [] (Some EOF), releaseDueLatency (exampleEnv 8) ?q)"
    using end_of_stream [OF example_eof] by blast
  moreover have "chan_closed 3 (partNotify (heal_pair (partitionPair (close_pipe examplePipe)) (env_parts cutEnv)))"
    using end_of_stream [OF example_held] by blast
  ultimately show ?thesis by (simp add: Let_def example_defs close_pipe_def broadcastLocked_def)
qed

text \<open>
  C21. A graceful close loses nothing: once everything admitted is due and no partition holds
  the end back, a reader that keeps reading into any non-empty buffer gets all of it and then
  the end of the stream, in finitely many reads.
\<close>

theorem close_drains:
  assumes "\<not> readClosed p" "\<forall>u \<in> set (pending p). releaseAt u \<le> env_now e" "\<not> eof_held e p"
    and "0 < len" "length (in_flight p) < fuel"
  shows "read_all e len fuel (releaseDueLatency e (close_pipe p)) = (in_flight p, Some EOF)"
proof -
  let ?c = "close_pipe p" and ?q = "releaseDueLatency e (close_pipe p)"
  have c: "\<not> readClosed ?c" "in_flight ?c = in_flight p" "\<forall>u \<in> set (pending ?c). releaseAt u \<le> env_now e"
    using assms by (simp_all add: close_in_flight)
  have "partitionNetwork ?c = partitionNetwork p" "partitionPair ?c = partitionPair p"
    by (simp_all add: close_pipe_def broadcastLocked_def)
  with c assms(3) have "\<not> eof_held e ?q" by (simp add: eof_held_def release_frame)
  moreover note release_all [OF c(3,1)]
  ultimately show ?thesis
    using c assms(4,5) by (subst read_all_drains) (simp_all add: release_frame(4,5))
qed

theorem close_drains_witness:
  "read_all (exampleEnv 5) 1 5 (releaseDueLatency (exampleEnv 5)
     (close_pipe (examplePipe\<lparr>bufBytes := 3, readable := [[7]], pending := [\<lparr>pu_data = [8, 9], releaseAt = 5\<rparr>], timer := Some 5\<rparr>)))
   = ([7, 8, 9], Some EOF)"
  by (subst close_drains) (simp_all add: example_defs eof_held_def isPartitioned_def in_flight_def)

section \<open>Bounds and timers\<close>

text \<open>
  C33. Back-pressure bounds memory: with writes of at most \<open>m\<close> bytes, never more than the bound
  (or one write, if that is larger) plus one duplicate copy is held.
\<close>

theorem backpressure_bound:
  assumes "run_steps pipe_step ls p = Some q" "pipe_inv p" "in_flight p = []"
    and "\<forall>e data. (e, OpWrite data) \<in> set ls \<longrightarrow> length data \<le> m"
  shows "int (length (in_flight q)) \<le> max (bound p) (int m) + int m"
proof -
  have buf: "pipe_inv u \<Longrightarrow> bufBytes u = int (length (in_flight u))" for u
    by (simp add: pipe_inv_def in_flight_def total_len_def)
  have "fill_bound m p" using buf [OF assms(2)] assms(3) by (simp add: fill_bound_def)
  with assms have "fill_bound m q" by (intro fill_bound_run [OF assms(1)]) auto
  then show ?thesis
    using buf [OF pipe_run_inv [OF assms(1,2)]] pipe_run_deliver [OF assms(1)]
    by (simp add: fill_bound_def)
qed

theorem backpressure_bound_witness:
  "int (length (in_flight (examplePipe\<lparr>readable := [[9]]\<rparr>))) \<le> 7"
proof -
  have "pipe_inv examplePipe" by (simp add: pipe_inv_def example_defs)
  from backpressure_bound [OF example_run this, of 3] show ?thesis
    by (simp add: example_line in_flight_def example_defs)
qed

text \<open>
  C27. The latency line is always served: through any run over non-decreasing instants, whenever
  units are pending there is one live timer, and it fires no later than the first of them is
  due (or at once, if that has passed).
\<close>

theorem latency_timer_live:
  assumes "run_steps pipe_step ls p = Some q" "pending p = []" "sorted (map (\<lambda>l. env_now (fst l)) ls)"
    and "pending q = u # us"
  shows "\<exists>t. timer q = Some t \<and> t \<le> max (env_now (fst (last ls))) (releaseAt u)"
proof (cases ls)
  case Nil
  with assms show ?thesis by simp
next
  case (Cons l ls')
  have "timer_ok (env_now (fst l)) p" by (simp add: timer_ok_def assms(2))
  moreover have "sorted (env_now (fst l) # map (\<lambda>l. env_now (fst l)) ls)"
    using assms(3) by (auto simp: Cons)
  ultimately have "timer_ok (last (env_now (fst l) # map (\<lambda>l. env_now (fst l)) ls)) q"
    by (rule pipe_run_timer [OF assms(1)])
  then show ?thesis
    using assms(4) by (auto simp: timer_ok_def Cons last_map split: option.splits)
qed

theorem latency_timer_live_witness:
  "\<exists>t. timer (examplePipe\<lparr>timer := Some 9\<rparr>) = Some t \<and> t \<le> max 4 9"
proof -
  have "run_steps pipe_step [(exampleEnv 4, OpWrite [1])] examplePipe
      = Some (snd (the (tryWrite (exampleEnv 4) [1] examplePipe)))"
    by (simp add: example_write)
  from latency_timer_live [OF this] show ?thesis by (simp add: example_write example_line)
qed

text \<open>
  A timer callback moves exactly the units that are due, in order, and leaves exactly those
  that are not, whatever was written with whatever delays.
\<close>

lemma timer_releases_due:
  assumes "run_steps pipe_step ls p = Some q" "pipe_inv p" "\<not> readClosed q"
  shows "readable (releaseDueLatency e q)
      = readable q @ map pu_data (filter (\<lambda>u. releaseAt u \<le> env_now e) (pending q))
    \<and> pending (releaseDueLatency e q) = filter (\<lambda>u. env_now e < releaseAt u) (pending q)"
  by (rule release_exact [OF pipe_run_inv [OF assms(1,2)] assms(3)])

lemma timer_releases_due_witness:
  "readable (releaseDueLatency (exampleEnv 9) (snd (the (tryWrite (exampleEnv 4) [1] examplePipe)))) = [[1]]"
proof -
  have r: "run_steps pipe_step [(exampleEnv 4, OpWrite [1])] examplePipe
      = Some (snd (the (tryWrite (exampleEnv 4) [1] examplePipe)))"
    by (simp add: example_write)
  have "pipe_inv examplePipe" "\<not> readClosed (snd (the (tryWrite (exampleEnv 4) [1] examplePipe)))"
    by (simp_all add: pipe_inv_def example_write) (simp_all add: example_defs)
  from timer_releases_due [OF r this, of "exampleEnv 9"] show ?thesis
    by (simp add: example_write) (simp add: example_defs)
qed


section \<open>Faults\<close>

text \<open>
  C28. A partition is a silent black hole: a write into it is accepted in full, delivers nothing,
  takes no random draw, holds nothing of the bound and leaves one event that says only that.
\<close>

theorem partition_black_hole:
  assumes "tryWrite e data p = Some (Done n None, q)" "deliver p = FaultEvaluator fp" "fp_network fp"
    and "isPartitioned (fp_pair fp) (env_parts e)"
  shows "n = length data \<and> readable q = readable p \<and> pending q = pending p \<and> bufBytes q = bufBytes p
    \<and> loss q = loss p \<and> latency q = latency p \<and> duplicate q = duplicate p \<and> corrupt q = corrupt p
    \<and> busyUntil q = busyUntil p
    \<and> trace q = map_option (\<lambda>evs. evs @ [zeroEvent\<lparr>ev_partitioned := True, ev_seq := length evs\<rparr>]) (trace p)"
  using assms(1)
proof (cases rule: tryWrite_cases)
  case admitted
  with assms have "q = discard (zeroEvent\<lparr>ev_partitioned := True\<rparr>) data (charge data p)"
    by (simp add: run_deliver_def evaluate_def)
  with admitted show ?thesis by simp
qed simp_all

lemma example_cut:
  "\<exists>q. tryWrite cutEnv [1, 2] examplePipe = Some (Done 2 None, q)"
  by (simp add: tryWrite_def cutEnv_def example_defs run_deliver_def evaluate_def isPartitioned_def)

theorem partition_black_hole_witness:
  "\<exists>q. tryWrite cutEnv [1, 2] examplePipe = Some (Done 2 None, q) \<and> pending q = [] \<and> bufBytes q = 0
     \<and> trace q = Some [zeroEvent\<lparr>ev_partitioned := True, ev_seq := 0\<rparr>]"
proof -
  from example_cut obtain q where q: "tryWrite cutEnv [1, 2] examplePipe = Some (Done 2 None, q)" ..
  from partition_black_hole [OF q] q show ?thesis
    by (simp add: cutEnv_def isPartitioned_def) (simp add: example_defs)
qed

text \<open>What the event recorded for a write says was delivered.\<close>

definition delivered_by :: "faultEvent \<Rightarrow> bytes \<Rightarrow> bytes" where
  "delivered_by ev data =
     (if ev_partitioned ev \<or> ev_dropped ev then []
      else unit_copies (ev_duplicated ev)
        (if ev_corrupted ev \<and> data \<noteq> [] then flip_bit (ev_corruptByte ev) (ev_corruptBit ev) data else data))"

lemma corrupt_unit_data:
  "corrupt_unit co data p = Some ((data', i, b), q) \<Longrightarrow> length data < 2 ^ 63 \<Longrightarrow>
     data' = (if co \<and> data \<noteq> [] then flip_bit i b data else data)
     \<and> (co \<and> data \<noteq> [] \<longrightarrow> i < length data \<and> b < 8)"
  by (auto simp: corrupt_unit_def split: if_splits Option.bind_splits dest!: corruptionSite_bounds)

lemma evaluate_event:
  assumes "evaluate fp e data (charge data p) = Some q" "deliver p = FaultEvaluator fp" "trace p = Some evs"
    and "length data < 2 ^ 63"
  shows "\<exists>ev. trace q = Some (evs @ [ev]) \<and> ev_seq ev = length evs \<and> admitted_bytes e data p = delivered_by ev data
     \<and> (ev_corrupted ev \<and> \<not> ev_dropped ev \<and> data \<noteq> [] \<longrightarrow> ev_corruptByte ev < length data \<and> ev_corruptBit ev < 8)"
  using assms(1)
proof (cases rule: evaluate_cases)
  case 1
  with assms show ?thesis by (simp add: admitted_bytes_def delivered_by_def)
next
  case (2 d p1)
  then obtain p0 where "draw_decision (current_config fp e) p = Some (d, p0)"
    by (auto simp: draw_decision_charge)
  with 2 assms draw_decision_frame(2) [OF 2(2)] show ?thesis
    by (simp add: admitted_bytes_def delivered_by_def)
next
  case (3 d p1)
  then obtain p0 where p0: "draw_decision (current_config fp e) p = Some (d, p0)" "p1 = charge data p0"
    by (auto simp: draw_decision_charge)
  have tr: "trace p1 = Some evs" using draw_decision_frame(2) [OF 3(2)] assms(3) by simp
  have adm: "admitted_bytes e data p = unit_copies (duplicated d) data'"
    if "corrupt_unit (corrupted d) data p1 = Some ((data', i, b), p2)" for data' i b p2
    using that 3(1,3) p0 assms(2) by (auto simp: admitted_bytes_def corrupt_unit_charge)
  from 3(4) show ?thesis
  proof (cases rule: transmit_cases)
    case (1 data' i b p1' base ser p2)
    with tr corrupt_unit_frame(2) [OF 1(1)] throttle_frame(2) [OF 1(2)] have "trace p2 = Some evs" by simp
    with 1(5) adm [OF 1(1)] corrupt_unit_data [OF 1(1) assms(4)] show ?thesis
      by (auto simp: delivered_by_def record_event_def)
  next
    case (2 data' i b p1' base ser p2)
    with tr corrupt_unit_frame(2) [OF 2(1)] throttle_frame(2) [OF 2(2)] have "trace p2 = Some evs" by simp
    with 2(4) adm [OF 2(1)] corrupt_unit_data [OF 2(1) assms(4)] show ?thesis
      by (auto simp: delivered_by_def record_event_def)
  qed
qed

text \<open>
  C6. The trace explains delivery: every accepted write on a traced direction appends exactly
  one event, numbered with its position, and what the write added to the direction is exactly
  what that event says: nothing if it was partitioned or dropped, else the payload, with the
  one bit at the recorded site (inside the payload) flipped if it was corrupted, and twice if
  it was duplicated.
\<close>

theorem trace_explains_delivery:
  assumes "tryWrite e data p = Some (Done n None, q)" "deliver p = FaultEvaluator fp" "trace p = Some evs"
    and "length data < 2 ^ 63" "pending p \<noteq> [] \<longrightarrow> line_on (deliver p) e"
  shows "\<exists>ev. trace q = Some (evs @ [ev]) \<and> ev_seq ev = length evs \<and> in_flight q = in_flight p @ delivered_by ev data
     \<and> (ev_corrupted ev \<and> \<not> ev_dropped ev \<and> data \<noteq> [] \<longrightarrow> ev_corruptByte ev < length data \<and> ev_corruptBit ev < 8)"
proof -
  from assms(1,2) have "evaluate fp e data (charge data p) = Some q"
    by (cases rule: tryWrite_cases) (auto simp: run_deliver_def)
  from evaluate_event [OF this assms(2-4)] tryWrite_in_flight [OF assms(1)] assms(5)
  show ?thesis by (auto simp: line_enabled_on)
qed

text \<open>A direction where every unit is corrupted, at the site the stream of zeros draws.\<close>

definition corruptEnv :: env where
  "corruptEnv = (exampleEnv 0)\<lparr>env_faults := noFaults\<lparr>corruptEnabled := True, corruptRate := Finite 1\<rparr>\<rparr>"

lemma corruptionSite_one:
  "corruptionSite 1 \<lparr>src = (\<lambda>_. 0), pos = n\<rparr> = Some ((0, 0), \<lparr>src = (\<lambda>_. 0), pos = n + 2\<rparr>)"
  by (simp add: corruptionSite_def boundedUint64_one_draw Mul64_def)

lemma example_corrupt:
  "tryWrite corruptEnv [4] (examplePipe\<lparr>corrupt := Some \<lparr>src = (\<lambda>_. 0), pos = 0\<rparr>\<rparr>) = Some (Done 1 None,
     examplePipe\<lparr>bufBytes := 1, corrupt := Some \<lparr>src = (\<lambda>_. 0), pos = 3\<rparr>, readable := [[5]], notify := 1,
       trace := Some [zeroEvent\<lparr>ev_corrupted := True, ev_size := 1\<rparr>]\<rparr>)"
  using corruptionSite_one [of 1]
  by (simp add: tryWrite_def corruptEnv_def example_defs run_deliver_def charge_def evaluate_def current_config_def
      isPartitioned_def draw_decision_def draw_bernoulli_def draw_latency_def bernoulli_def
      stream_next_def transmit_def corrupt_unit_def throttle_def admit_readable_def zeroEvent_def
      record_event_def Let_def flip_bit_def broadcastLocked_def)

theorem trace_explains_delivery_witness:
  "in_flight (examplePipe\<lparr>readable := [[5]]\<rparr>)
     = delivered_by (zeroEvent\<lparr>ev_corrupted := True, ev_size := 1\<rparr>) [4]"
  using trace_explains_delivery [OF example_corrupt, of _ "[]"]
  by (simp add: example_line) (simp add: example_defs in_flight_def)


text \<open>
  Corruption flips exactly one bit and keeps the length: at the byte and bit it recorded the
  delivered payload differs from the written one, everywhere else they agree.
\<close>

lemma corruption_one_bit:
  assumes "corrupt_unit True data p = Some ((data', i, b), q)" "data \<noteq> []" "length data < 2 ^ 63"
  shows "length data' = length data \<and> i < length data
    \<and> (\<forall>j < length data. \<forall>k < 8. bit (data' ! j) k \<longleftrightarrow> (if j = i \<and> k = b then \<not> bit (data ! j) k else bit (data ! j) k))"
proof -
  have c: "data' = flip_bit i b data" "i < length data" "b < 8"
    using corrupt_unit_data [OF assms(1,3)] assms(2) by simp_all
  then have "bit (data' ! j) k \<longleftrightarrow> (if j = i \<and> k = b then \<not> bit (data ! j) k else bit (data ! j) k)"
    if "j < length data" "k < 8" for j k
    using that by (auto simp: flip_bit_def nth_list_update bit_xor_iff bit_exp_iff)
  with c show ?thesis by (simp add: flip_bit_def)
qed

lemma corruption_one_bit_example:
  "bit (flip_bit 0 0 [4 :: u8] ! 0) 2 \<and> bit (flip_bit 0 0 [4 :: u8] ! 0) 0 \<and> \<not> bit (flip_bit 0 0 [4 :: u8] ! 0) 1"
proof -
  have "corrupt_unit True [4] (examplePipe\<lparr>corrupt := Some \<lparr>src = (\<lambda>_. 0), pos = 0\<rparr>\<rparr>)
      = Some ((flip_bit 0 0 [4], 0, 0), examplePipe\<lparr>corrupt := Some \<lparr>src = (\<lambda>_. 0), pos = 2\<rparr>\<rparr>)"
    using corruptionSite_one [of 0] by (simp add: corrupt_unit_def numeral_2_eq_2)
  from corruption_one_bit [OF this, THEN conjunct2, THEN conjunct2, THEN spec [of _ 0]]
  show ?thesis by (simp add: bit_numeral_rec)
qed

text \<open>
  Determinism: what a direction draws, and every field of its trace that is derived from a
  draw, is a function of its streams and of the accepted writes alone (for each one: was the pair
  partitioned, what were the drawing faults set to, how long was it). Reads, timers, closes,
  blocked writes, the clock, the bandwidth and the bytes themselves make no difference.
\<close>

lemma draws_deterministic:
  assumes "run_steps pipe_step ls p = Some q" "run_steps pipe_step ls' p' = Some q'"
    and "draw_abs p = draw_abs p'"
    and "collect pipe_step draw_inputs ls p = collect pipe_step draw_inputs ls' p'"
  shows "loss q = loss q' \<and> latency q = latency q' \<and> duplicate q = duplicate q' \<and> corrupt q = corrupt q'
    \<and> map_option (map draw_view) (trace q) = map_option (map draw_view) (trace q')"
  using pipe_draws.run_deterministic [OF assms] by (simp add: draw_abs_def)

lemma draws_deterministic_example:
  "latency (snd (the (tryWrite (exampleEnv 70) [1, 2, 3] examplePipe)))
   = Some \<lparr>src = (\<lambda>_. 0), pos = 1\<rparr>"
proof -
  have r: "run_steps pipe_step [(exampleEnv 70, OpWrite [1, 2, 3])] examplePipe
      = Some (snd (the (tryWrite (exampleEnv 70) [1, 2, 3] examplePipe)))"
    by (simp add: example_write)
  have "collect pipe_step draw_inputs [(exampleEnv 0, OpWrite [7, 8, 9]), (exampleEnv 5, OpTimer), (exampleEnv 6, OpRead 2)] examplePipe
      = collect pipe_step draw_inputs [(exampleEnv 70, OpWrite [1, 2, 3])] examplePipe"
    by (simp add: example_write) (simp add: example_defs current_config_def)
  from draws_deterministic [OF example_run r refl this] show ?thesis by simp
qed

text \<open>
  C11. Loss, latency and duplication are independent of one another and of corruption: two runs
  that agree, write by write, on whether the pair was partitioned and on the setting of one of
  these faults, record the same decisions of that fault, whatever the other faults are set to
  and decide.
\<close>

theorem fault_kinds_independent:
  assumes "run_steps pipe_step ls p = Some q" "run_steps pipe_step ls' p' = Some q'"
    and "trace p = Some []" "trace p' = Some []"
  defines "is \<equiv> collect pipe_step draw_inputs ls p" and "js \<equiv> collect pipe_step draw_inputs ls' p'"
  shows
    "(loss p = loss p' \<and> stage_inputs (\<lambda>c. (lossEnabled c, lossRate c)) is = stage_inputs (\<lambda>c. (lossEnabled c, lossRate c)) js
       \<longrightarrow> map_option (map ev_dropped) (trace q) = map_option (map ev_dropped) (trace q'))
   \<and> (latency p = latency p' \<and> stage_inputs (\<lambda>c. (latencyEnabled c, latencyMin c, latencyMax c)) is
         = stage_inputs (\<lambda>c. (latencyEnabled c, latencyMin c, latencyMax c)) js
       \<longrightarrow> map_option (map ev_drawn) (trace q) = map_option (map ev_drawn) (trace q'))
   \<and> (duplicate p = duplicate p' \<and> stage_inputs (\<lambda>c. (duplicateEnabled c, duplicateRate c)) is
         = stage_inputs (\<lambda>c. (duplicateEnabled c, duplicateRate c)) js
       \<longrightarrow> map_option (map ev_duplicated) (trace q) = map_option (map ev_duplicated) (trace q'))"
proof -
  have r: "run_steps draw_unit is (draw_abs p) = Some (draw_abs q)"
    "run_steps draw_unit js (draw_abs p') = Some (draw_abs q')"
    unfolding is_def js_def using pipe_draws.run_refines assms(1,2) by blast+
  have e: "ds_events (draw_abs p) = Some []" "ds_events (draw_abs p') = Some []" using assms(3,4) by simp_all
  show ?thesis
    using loss_stage.verdicts_independent [OF r _ _ e] latency_stage.verdicts_independent [OF r _ _ e]
      duplicate_stage.verdicts_independent [OF r _ _ e]
    by (simp add: option.map_comp comp_def draw_view_def)
qed

text \<open>The example with every unit lost.\<close>

definition lossyEnv :: env where
  "lossyEnv = (exampleEnv 0)\<lparr>env_faults := exampleFaults\<lparr>lossEnabled := True, lossRate := Finite 1\<rparr>\<rparr>"

lemma example_lost:
  "tryWrite lossyEnv [6] examplePipe = Some (Done 1 None,
     examplePipe\<lparr>loss := Some \<lparr>src = (\<lambda>_. 0), pos = 1\<rparr>, latency := Some \<lparr>src = (\<lambda>_. 0), pos = 1\<rparr>, notify := 1,
       trace := Some [zeroEvent\<lparr>ev_dropped := True, ev_drawn := 5, ev_size := 1\<rparr>]\<rparr>)"
  by (simp add: tryWrite_def lossyEnv_def example_defs run_deliver_def charge_def evaluate_def current_config_def
      isPartitioned_def draw_decision_def draw_bernoulli_def draw_latency_def bernoulli_def
      stream_next_def example_latency discard_def zeroEvent_def record_event_def Let_def broadcastLocked_def)

theorem fault_kinds_independent_witness:
  "map ev_drawn [zeroEvent\<lparr>ev_dropped := True, ev_drawn := 5, ev_size := 1\<rparr>]
   = map ev_drawn [zeroEvent\<lparr>ev_drawn := 5, ev_effective := 5, ev_size := 3\<rparr>]"
proof -
  let ?q = "snd (the (tryWrite lossyEnv [6] examplePipe))"
  have r: "run_steps pipe_step [(lossyEnv, OpWrite [6])] examplePipe = Some ?q"
    by (simp add: example_lost)
  have tr: "trace examplePipe = Some []" by (simp add: example_defs)
  have "stage_inputs (\<lambda>c. (latencyEnabled c, latencyMin c, latencyMax c))
        (collect pipe_step draw_inputs [(lossyEnv, OpWrite [6])] examplePipe)
      = stage_inputs (\<lambda>c. (latencyEnabled c, latencyMin c, latencyMax c))
        (collect pipe_step draw_inputs
          [(exampleEnv 0, OpWrite [7, 8, 9]), (exampleEnv 5, OpTimer), (exampleEnv 6, OpRead 2)] examplePipe)"
    by (simp add: example_write example_lost)
       (simp add: stage_inputs_def example_defs lossyEnv_def current_config_def)
  with fault_kinds_independent [OF r example_run tr tr] show ?thesis
    by (simp add: example_lost del: collect.simps)
qed

text \<open>What survives loss takes its corruption site, and nothing else, from the streams.\<close>

lemma transmit_streams:
  assumes "transmit cfg e d data p = Some q"
  shows "latency q = latency p \<and> duplicate q = duplicate p
    \<and> (\<exists>data' i b p'. corrupt_unit (corrupted d) data p = Some ((data', i, b), p') \<and> corrupt q = corrupt p')
    \<and> (\<forall>evs. trace p = Some evs \<longrightarrow> (\<exists>ev. trace q = Some (evs @ [ev]) \<and> ev_corrupted ev = corrupted d
          \<and> ev_duplicated ev = duplicated d \<and> \<not> ev_dropped ev \<and> \<not> ev_partitioned ev))"
proof -
  from assms obtain data' i b p1 base ser p2 where c: "corrupt_unit (corrupted d) data p = Some ((data', i, b), p1)"
    and t: "throttle cfg (env_now e) (length data') p1 = Some ((base, ser), p2)"
    by (auto simp: transmit_def split: Option.bind_splits)
  note f = corrupt_unit_frame [OF c] throttle_frame [OF t]
  from assms c t have q: "latency q = latency p2" "duplicate q = duplicate p2" "corrupt q = corrupt p2"
    by (auto simp: transmit_def Let_def split: if_splits)
  moreover from assms c t f have "\<exists>ev. trace q = Some (evs @ [ev]) \<and> ev_corrupted ev = corrupted d
      \<and> ev_duplicated ev = duplicated d \<and> \<not> ev_dropped ev \<and> \<not> ev_partitioned ev" if "trace p = Some evs" for evs
    using that by (auto simp: transmit_def record_event_def zeroEvent_def Let_def split: if_splits)
  ultimately show ?thesis using c f by auto
qed

lemma corruptionSite_pos:
  assumes "corruptionSite n st = Some (ib, st')" "0 < n" "n < 2 ^ 64"
  shows "\<exists>k \<ge> 2. st' = st\<lparr>pos := pos st + k\<rparr>"
proof -
  from assms(1) obtain v s1 w where d: "boundedUint64 (word_of_nat n) st = Some (v, s1)" "boundedUint64 8 s1 = Some (w, st')"
    by (auto simp: corruptionSite_def split: Option.bind_splits)
  have "word_of_nat n \<noteq> (0 :: u64)" using assms(2,3) by (simp add: word_of_nat_eq_0_iff nat_dvd_not_less)
  then have "src s1 = src st" "pos st < pos s1" "src st' = src s1" "pos s1 < pos st'"
    using boundedUint64_src [OF d(1)] boundedUint64_src [OF d(2)] by simp_all
  then show ?thesis by (intro exI [of _ "pos st' - pos st"]) (simp add: stream.equality)
qed

lemma pos_eq: "st\<lparr>pos := i\<rparr> = st\<lparr>pos := j\<rparr> \<longleftrightarrow> i = j" for st :: stream
  by (cases st) simp

lemma flip_pos: "draw_bernoulli True rate (Some st) = Some (b, s) \<Longrightarrow> s = Some (st\<lparr>pos := Suc (pos st)\<rparr>)"
  by (auto simp: draw_bernoulli_def bernoulli_def stream_next_def Let_def split: if_splits)

lemma evaluate_lost:
  assumes "evaluate fp e data p = Some q" "trace p = Some evs" "trace q = Some (evs @ [ev])" "ev_dropped ev"
  obtains d p1 where "draw_decision (current_config fp e) p = Some (d, p1)"
    "latency q = latency p1" "duplicate q = duplicate p1" "corrupt q = corrupt p1"
    "ev_duplicated ev = duplicated d" "ev_corrupted ev = corrupted d"
  using assms(1)
proof (cases rule: evaluate_cases)
  case 1
  with assms show ?thesis by (auto simp: discard_def record_event_def zeroEvent_def)
next
  case (2 d p1)
  with assms draw_decision_frame(2) [OF 2(2)] that [OF 2(2)] show ?thesis
    by (auto simp: discard_def record_event_def zeroEvent_def)
next
  case (3 d p1)
  from draw_decision_frame(2) [OF 3(2)] transmit_streams [OF 3(4)] assms show ?thesis by auto
qed

lemma evaluate_kept:
  assumes "evaluate fp e data p = Some q" "trace p = Some evs" "trace q = Some (evs @ [ev])" "\<not> ev_dropped ev" "\<not> ev_partitioned ev"
  obtains d p1 data' i b p2 where "draw_decision (current_config fp e) p = Some (d, p1)"
    "latency q = latency p1" "duplicate q = duplicate p1"
    "corrupt_unit (corrupted d) data p1 = Some ((data', i, b), p2)" "corrupt q = corrupt p2"
    "ev_duplicated ev = duplicated d" "ev_corrupted ev = corrupted d"
  using assms(1)
proof (cases rule: evaluate_cases)
  case 1
  with assms show ?thesis by (auto simp: discard_def record_event_def zeroEvent_def)
next
  case (2 d p1)
  from 2(4) draw_decision_frame(2) [OF 2(2)] assms show ?thesis
    by (auto simp: discard_def record_event_def zeroEvent_def)
next
  case (3 d p1)
  from draw_decision_frame(2) [OF 3(2)] transmit_streams [OF 3(4)] assms that [OF 3(2)] show ?thesis by auto
qed

lemma corrupt_unit_pos:
  assumes "corrupt_unit c data p = Some (x, p')" "corrupt p = Some (st\<lparr>pos := Suc (pos st)\<rparr>)" "0 < length data" "length data < 2 ^ 64"
  shows "\<exists>k. corrupt p' = Some (st\<lparr>pos := pos st + k\<rparr>) \<and> (if c then 3 \<le> k else k = 1)"
proof (cases c)
  case True
  then obtain ib st' where site: "corruptionSite (length data) (st\<lparr>pos := Suc (pos st)\<rparr>) = Some (ib, st')" "corrupt p' = Some st'"
    using assms by (auto simp: corrupt_unit_def split: Option.bind_splits)
  from corruptionSite_pos [OF site(1) assms(3,4)] obtain k where "2 \<le> k" "st' = st\<lparr>pos := Suc (pos st) + k\<rparr>" by auto
  with site(2) True show ?thesis by (intro exI [of _ "Suc k"]) simp
next
  case False
  with assms show ?thesis by (auto simp: corrupt_unit_def)
qed

text \<open>
  C40. Corruption is not independent of loss. Take one traced write, once under settings that lose
  the unit and once under settings that differ in loss alone and let it through. The latency and
  duplication streams stand at the same place afterwards, and the unit was given the same
  duplication and corruption decisions; but if that decision was to corrupt it, the corruption
  stream does not: past the coin flip both took, the unit that went through also drew the place of
  the flipped bit, at least two draws more. So a loss changes which draws decide the corruption of
  every later unit.
\<close>

theorem corruption_depends_on_loss:
  assumes "tryWrite e data p = Some (Done n None, q)" and "tryWrite e' data p = Some (Done n' None, q')"
    and "deliver p = FaultEvaluator fp"
    and "current_config fp e' = (current_config fp e)\<lparr>lossEnabled := on, lossRate := rate\<rparr>"
    and "corruptEnabled (current_config fp e)" "corrupt p = Some st" "0 < length data" "length data < 2 ^ 64"
    and "trace p = Some evs" "trace q = Some (evs @ [ev])" "trace q' = Some (evs @ [ev'])"
    and "ev_dropped ev" "\<not> ev_dropped ev'" "\<not> ev_partitioned ev'"
  shows "latency q = latency q' \<and> duplicate q = duplicate q'
    \<and> ev_duplicated ev = ev_duplicated ev' \<and> ev_corrupted ev = ev_corrupted ev'
    \<and> corrupt q = Some (st\<lparr>pos := pos st + 1\<rparr>)
    \<and> (\<exists>k. corrupt q' = Some (st\<lparr>pos := pos st + k\<rparr>) \<and> (if ev_corrupted ev' then 3 \<le> k else k = 1))
    \<and> (corrupt q \<noteq> corrupt q' \<longleftrightarrow> ev_corrupted ev')"
proof -
  let ?p = "charge data p"
  have p: "corrupt ?p = Some st" "trace ?p = Some evs" using assms(6,9) by (simp_all add: charge_def)
  have run: "evaluate fp e data ?p = Some q" "evaluate fp e' data ?p = Some q'"
    using assms(1,2,3) by (auto elim!: tryWrite_cases simp: run_deliver_def charge_def)
  from evaluate_lost [OF run(1) p(2) assms(10,12)] obtain d p1 where d: "draw_decision (current_config fp e) ?p = Some (d, p1)"
    "latency q = latency p1" "duplicate q = duplicate p1" "corrupt q = corrupt p1"
    "ev_duplicated ev = duplicated d" "ev_corrupted ev = corrupted d" by blast
  from evaluate_kept [OF run(2) p(2) assms(11,13,14)] obtain d' p1' data' i b p2
    where d': "draw_decision (current_config fp e') ?p = Some (d', p1')" "latency q' = latency p1'" "duplicate q' = duplicate p1'"
    "corrupt_unit (corrupted d') data p1' = Some ((data', i, b), p2)" "corrupt q' = corrupt p2"
    "ev_duplicated ev' = duplicated d'" "ev_corrupted ev' = corrupted d'" by blast
  have same: "latency p1 = latency p1'" "duplicate p1 = duplicate p1'" "corrupt p1 = corrupt p1'"
    "duplicated d = duplicated d'" "corrupted d = corrupted d'" "corrupt p1 = Some (st\<lparr>pos := Suc (pos st)\<rparr>)"
    using d(1) d'(1) assms(4,5) p(1) by (auto elim!: draw_decision_shape dest!: flip_pos)
  from corrupt_unit_pos [OF d'(4) _ assms(7,8), of st] same(3,6) d'(5)
  obtain k where k: "corrupt q' = Some (st\<lparr>pos := pos st + k\<rparr>)" "if corrupted d' then 3 \<le> k else k = 1" by auto
  have "corrupt q \<noteq> corrupt q' \<longleftrightarrow> corrupted d'" using k d(4) same(6) by (cases "corrupted d'") (auto simp: pos_eq)
  moreover have "latency q = latency q'" "duplicate q = duplicate q'" using d(2,3) d'(2,3) same(1,2) by simp_all
  moreover have "ev_duplicated ev = ev_duplicated ev'" "ev_corrupted ev = ev_corrupted ev'"
    using d(5,6) d'(6,7) same(4,5) by simp_all
  moreover have "corrupt q = Some (st\<lparr>pos := pos st + 1\<rparr>)" using d(4) same(6) by simp
  ultimately show ?thesis using k unfolding d'(7) by blast
qed

theorem corruption_depends_on_loss_witness:
  "\<exists>p q q'. let e = (\<lambda>r. (exampleEnv 0)\<lparr>env_faults := noFaults\<lparr>lossEnabled := True, lossRate := Finite r,
        corruptEnabled := True, corruptRate := Finite (1 / 2)\<rparr>\<rparr>) in
      tryWrite (e 1) [6] p = Some (Done 1 None, q) \<and> tryWrite (e 0) [6] p = Some (Done 1 None, q') \<and> corrupt q \<noteq> corrupt q'"
proof -
  let ?e = "\<lambda>r. (exampleEnv 0)\<lparr>env_faults := noFaults\<lparr>lossEnabled := True, lossRate := Finite r,
      corruptEnabled := True, corruptRate := Finite (1 / 2)\<rparr>\<rparr>"
  let ?p = "examplePipe\<lparr>corrupt := Some \<lparr>src = \<lambda>_. 0, pos = 0\<rparr>\<rparr>"
  note defs = tryWrite_def example_defs run_deliver_def charge_def evaluate_def current_config_def
      isPartitioned_def draw_decision_def draw_bernoulli_def draw_latency_def bernoulli_def
      stream_next_def discard_def zeroEvent_def record_event_def Let_def broadcastLocked_def transmit_def
      corrupt_unit_def throttle_def admit_readable_def corruptionSite_one [simplified]
  obtain q ev where q: "tryWrite (?e 1) [6] ?p = Some (Done 1 None, q)" "trace q = Some ([] @ [ev])" "ev_dropped ev"
    by (simp add: defs)
  obtain q' ev' where q': "tryWrite (?e 0) [6] ?p = Some (Done 1 None, q')" "trace q' = Some ([] @ [ev'])" "\<not> ev_dropped ev'"
    "\<not> ev_partitioned ev'" "ev_corrupted ev'"
    by (simp add: defs)
  let ?fp = "\<lparr>fp_network = True, fp_pair = (''a'', ''b''), fp_static = noFaults\<rparr>"
  have "corrupt q \<noteq> corrupt q' \<longleftrightarrow> ev_corrupted ev'"
    by (rule corruption_depends_on_loss [OF q(1) q'(1), where fp = ?fp and on = True and rate = "Finite 0" and evs = "[]" and ev = ev and ev' = ev'
          and st = "\<lparr>src = \<lambda>_. 0, pos = 0\<rparr>", THEN conjunct2, THEN conjunct2, THEN conjunct2, THEN conjunct2, THEN conjunct2, THEN conjunct2])
      (simp_all add: q q', simp_all add: example_defs current_config_def)
  with q'(5) have "corrupt q \<noteq> corrupt q'" by simp
  with q(1) q'(1) show ?thesis by (auto simp: Let_def)
qed

text \<open>
  C36. Tracing changes nothing but the trace: the same run without a recorder returns the same
  bytes to its reads and ends in the same state.
\<close>

theorem tracing_transparent:
  assumes "run_steps pipe_step ls p = Some q"
  shows "run_steps pipe_step ls (p\<lparr>trace := None\<rparr>) = Some (q\<lparr>trace := None\<rparr>)
    \<and> collect pipe_step bytes_read ls (p\<lparr>trace := None\<rparr>) = collect pipe_step bytes_read ls p"
  using untraced_run [of ls p] untraced_collect [of ls p] assms by (simp add: untraced_def)

theorem tracing_transparent_witness:
  "collect pipe_step bytes_read
     [(exampleEnv 0, OpWrite [7, 8, 9]), (exampleEnv 5, OpTimer), (exampleEnv 6, OpRead 2)]
     (examplePipe\<lparr>trace := None\<rparr>) = [7, 8]"
  using tracing_transparent [OF example_run] by (simp add: example_collect del: collect.simps)


section \<open>Writes return\<close>

text \<open>
  The rejection loop needs a draw outside the biased zone. A source is fair when such draws keep
  coming for every bound, as they do (with probability one) from ChaCha8.
\<close>

definition fair :: "stream \<Rightarrow> bool" where
  "fair st \<longleftrightarrow> (\<forall>n k. n \<noteq> 0 \<longrightarrow> (\<exists>j \<ge> k. draw_accepted n (src st j)))"

definition fair_stream :: "stream option \<Rightarrow> bool" where
  "fair_stream s \<longleftrightarrow> (\<exists>st. s = Some st \<and> fair st)"

definition valid_faults :: "faultConfig \<Rightarrow> bool" where
  "valid_faults cfg \<longleftrightarrow>
     (latencyEnabled cfg \<longrightarrow> latency_range_ok (latencyMin cfg) (latencyMax cfg))
     \<and> (bandwidthEnabled cfg \<longrightarrow> 0 < bandwidthBPS cfg \<and> bandwidthBPS cfg < 2 ^ 63)"

lemma fair_pos [simp]: "fair (st\<lparr>pos := n\<rparr>) = fair st"
  by (simp add: fair_def)

lemma fair_bounded:
  assumes "fair st" "n \<noteq> 0"
  obtains v st' where "boundedUint64 n st = Some (v, st')" "fair st'"
proof -
  from assms obtain j where "j \<ge> pos st" "draw_accepted n (src st j)" by (auto simp: fair_def)
  then have "draw_accepted n (src st (pos st + (j - pos st)))" by simp
  then obtain v st' where r: "boundedUint64 n st = Some (v, st')"
    using boundedUint64_returns [OF assms(2), of st] by blast
  then obtain k where "st' = st\<lparr>pos := k\<rparr>" by (auto simp: boundedUint64_spec [OF assms(2)])
  with assms(1) r that show ?thesis by simp
qed

lemma fair_bernoulli: "fair_stream s \<Longrightarrow> \<exists>b s'. draw_bernoulli en r s = Some (b, s') \<and> fair_stream s'"
  by (auto simp: fair_stream_def draw_bernoulli_def bernoulli_def stream_next_def Let_def)

lemma fair_latency:
  assumes "fair_stream s" "en \<longrightarrow> latency_range_ok dmin dmax"
  shows "\<exists>d s'. draw_latency en dmin dmax s = Some (d, s') \<and> fair_stream s'"
proof (cases en)
  case True
  from assms(1) obtain st where st: "s = Some st" "fair st" by (auto simp: fair_stream_def)
  from True assms(2) have "duration_span dmin dmax \<noteq> 0" by (simp add: duration_span_nonzero)
  from fair_bounded [OF st(2) this] obtain v st' where
    "boundedUint64 (duration_span dmin dmax) st = Some (v, st')" "fair st'" .
  with True st show ?thesis by (simp add: draw_latency_def uniformDuration_span fair_stream_def)
qed (use assms in \<open>simp add: draw_latency_def\<close>)

lemma fair_site:
  assumes "fair st" "0 < n" "n < 2 ^ 63"
  shows "\<exists>i b st'. corruptionSite n st = Some ((i, b), st')"
proof -
  have "(word_of_nat n :: u64) \<noteq> 0" using assms(2,3) by (simp add: word_of_nat_eq_0_iff dvd_imp_le nat_dvd_not_less)
  from fair_bounded [OF assms(1) this] obtain v s1 where 1: "boundedUint64 (word_of_nat n) st = Some (v, s1)" "fair s1" .
  obtain w s2 where "boundedUint64 8 s1 = Some (w, s2)" by (rule fair_bounded [OF 1(2), of 8]) auto
  with 1 show ?thesis by (simp add: corruptionSite_def)
qed

lemma fair_transmit:
  assumes "fair_stream (corrupt p)" "valid_faults cfg" "length data < 2 ^ 63"
  shows "\<exists>q. transmit cfg e d data p = Some q"
proof -
  from assms(1) obtain st where st: "corrupt p = Some st" "fair st" by (auto simp: fair_stream_def)
  have "\<exists>data' i b p1. corrupt_unit (corrupted d) data p = Some ((data', i, b), p1)"
  proof (cases "corrupted d \<and> 0 < length data")
    case True
    with fair_site [OF st(2), of "length data"] assms(3) obtain i b st'
      where "corruptionSite (length data) st = Some ((i, b), st')" by auto
    with True st show ?thesis by (simp add: corrupt_unit_def)
  qed (auto simp: corrupt_unit_def)
  then obtain data' i b p1 where c: "corrupt_unit (corrupted d) data p = Some ((data', i, b), p1)" by blast
  have "\<exists>base ser p2. throttle cfg (env_now e) (length data') p1 = Some ((base, ser), p2)"
  proof (cases "bandwidthEnabled cfg")
    case True
    have "serializationDelay (int (length data')) (bandwidthBPS cfg) \<noteq> None"
      using True assms(2,3) corrupt_unit_frame(4) [OF c] by (simp add: serializationDelay_eq valid_faults_def)
    with True show ?thesis by (auto simp: throttle_def Let_def)
  qed (simp add: throttle_def)
  with c show ?thesis by (auto simp: transmit_def Let_def)
qed

text \<open>
  C30. A write always returns: with valid settings and fair sources every attempt either reports
  the closed pipe, admits the whole write, or hands back the channel to wait on.
\<close>

theorem write_attempt_returns:
  assumes "deliver p = FaultEvaluator fp" "valid_faults (current_config fp e)" "length data < 2 ^ 63"
    and "fair_stream (loss p)" "fair_stream (latency p)" "fair_stream (duplicate p)" "fair_stream (corrupt p)"
  shows "\<exists>q. tryWrite e data p = Some (Done 0 (Some ErrClosedPipe), q)
    \<or> tryWrite e data p = Some (Done (length data) None, q)
    \<or> tryWrite e data p = Some (Wait (NotifyCh (notify p)), q)"
proof -
  let ?cfg = "current_config fp e" and ?p = "charge data p"
  obtain dr l where l: "draw_bernoulli (lossEnabled ?cfg) (lossRate ?cfg) (loss ?p) = Some (dr, l)"
    using fair_bernoulli [OF assms(4), of "lossEnabled ?cfg" "lossRate ?cfg"] by auto
  obtain dn la where la: "draw_latency (latencyEnabled ?cfg) (latencyMin ?cfg) (latencyMax ?cfg) (latency ?p) = Some (dn, la)"
    using fair_latency [OF assms(5), of "latencyEnabled ?cfg" "latencyMin ?cfg" "latencyMax ?cfg"] assms(2) by (auto simp: valid_faults_def)
  obtain du ds where du: "draw_bernoulli (duplicateEnabled ?cfg) (duplicateRate ?cfg) (duplicate ?p) = Some (du, ds)"
    using fair_bernoulli [OF assms(6), of "duplicateEnabled ?cfg" "duplicateRate ?cfg"] by auto
  obtain co cs where co: "draw_bernoulli (corruptEnabled ?cfg) (corruptRate ?cfg) (corrupt ?p) = Some (co, cs)" "fair_stream cs"
    using fair_bernoulli [OF assms(7), of "corruptEnabled ?cfg" "corruptRate ?cfg"] by auto
  obtain d p1 where dec: "draw_decision ?cfg ?p = Some (d, p1)" "corrupt p1 = cs"
    using l la du co by (simp add: draw_decision_def)
  have "\<exists>q. transmit ?cfg e d data p1 = Some q"
    using fair_transmit assms(2,3) co(2) dec(2) by blast
  with dec have "\<exists>q. run_deliver e data ?p = Some q"
    by (auto simp: run_deliver_def evaluate_def assms(1) Let_def)
  then show ?thesis by (auto simp: tryWrite_def)
qed

text \<open>A source of large draws is fair.\<close>

lemma fair_example: "fair \<lparr>src = (\<lambda>_. - 1), pos = n\<rparr>"
proof -
  have "draw_accepted m (- 1)" if "m \<noteq> 0" for m :: u64
  proof -
    have m: "0 < unat m" "unat m < 2 ^ 64" using that unat_lt64 [of m] by (simp_all add: unat_gt_0)
    have "unat (- 1 :: u64) = 2 ^ 64 - 1" by (simp add: unsigned_minus_1_eq_mask mask_eq_exp_minus_1)
    then have "unat (- 1 :: u64) * unat m = (unat m - 1) * 2 ^ 64 + (2 ^ 64 - unat m)"
      using m by (simp add: algebra_simps diff_mult_distrib)
    then have "unat (- 1 :: u64) * unat m mod 2 ^ 64 = (2 ^ 64 - unat m) mod 2 ^ 64" by (simp only: mod_mult_self3)
    moreover have "(2 ^ 64 - unat m) mod 2 ^ 64 = 2 ^ 64 - unat m" using m by simp
    moreover have "(2 ^ 64 :: nat) mod unat m \<le> 2 ^ 64 - unat m"
      using m by (metis le_mod_geq less_imp_le_nat mod_less_eq_dividend)
    ultimately show ?thesis by (simp add: draw_accepted_def)
  qed
  then show ?thesis by (auto simp: fair_def)
qed

definition fairPipe :: pipe where
  "fairPipe = (let s = Some \<lparr>src = (\<lambda>_. - 1), pos = 0\<rparr>
     in examplePipe\<lparr>loss := s, latency := s, duplicate := s, corrupt := s\<rparr>)"

theorem write_attempt_returns_witness:
  "\<exists>q. tryWrite (exampleEnv 0) [1] fairPipe = Some (Done 1 None, q)"
proof -
  have "\<exists>q. tryWrite (exampleEnv 0) [1] fairPipe = Some (Done 0 (Some ErrClosedPipe), q)
    \<or> tryWrite (exampleEnv 0) [1] fairPipe = Some (Done (length [1 :: u8]) None, q)
    \<or> tryWrite (exampleEnv 0) [1] fairPipe = Some (Wait (NotifyCh (notify fairPipe)), q)"
    by (rule write_attempt_returns [where fp = "\<lparr>fp_network = True, fp_pair = (''a'', ''b''), fp_static = noFaults\<rparr>"])
       (simp_all add: fairPipe_def Let_def fair_stream_def fair_example valid_faults_def example_defs current_config_def
          latency_range_ok_def maxDuration_def)
  then show ?thesis
    by (auto simp: fairPipe_def example_defs tryWrite_def Let_def)
qed


section \<open>The throttled link\<close>

text \<open>When a unit written at an instant to a link in a given state has been transmitted.\<close>

definition link_finish :: "int \<Rightarrow> nat \<Rightarrow> time \<Rightarrow> time \<Rightarrow> time" where
  "link_finish bps len now busy = max now busy + min (int len * second_ns div bps) maxDuration"

text \<open>
  C29. The throttled link is a queue of its own: a unit that is sent starts when the link is free,
  keeps it busy for its exact serialization time, and every copy of it is due its drawn
  latency after that, or with the unit ahead of it if that is later; the event records
  these times. A unit that loss or a partition discards does not occupy the link.
\<close>

theorem bandwidth_schedule:
  assumes "tryWrite e data p = Some (Done n None, q)" "deliver p = FaultEvaluator fp"
    and "bandwidthEnabled (current_config fp e)" "0 < bandwidthBPS (current_config fp e)"
      "bandwidthBPS (current_config fp e) < 2 ^ 63" "length data < 2 ^ 63"
    and "trace p = Some evs" "trace q = Some (evs @ [ev])"
  defines "finish \<equiv> link_finish (bandwidthBPS (current_config fp e)) (length data) (env_now e) (busyUntil p)"
  shows "if ev_partitioned ev \<or> ev_dropped ev then busyUntil q = busyUntil p \<and> pending q = pending p
    else busyUntil q = finish
       \<and> (\<exists>data' rel. pending q = pending p @ replicate (copies (ev_duplicated ev)) \<lparr>pu_data = data', releaseAt = rel\<rparr>
            \<and> rel = (if pending p = [] then finish + ev_drawn ev
                     else max (finish + ev_drawn ev) (releaseAt (last (pending p))))
            \<and> ev_serialized ev = time_sub finish (env_now e) \<and> ev_effective ev = time_sub rel finish)"
proof -
  from assms(1,2) have "evaluate fp e data (charge data p) = Some q"
    by (cases rule: tryWrite_cases) (auto simp: run_deliver_def)
  then show ?thesis
  proof (cases rule: evaluate_cases)
    case 1
    with assms(7,8) have "ev = zeroEvent\<lparr>ev_partitioned := True, ev_seq := length evs\<rparr>" by simp
    with 1 show ?thesis by simp
  next
    case (2 d p1)
    note fr = draw_decision_frame [OF 2(2)]
    with 2(4) assms(7,8) have "ev_dropped ev" by auto
    with 2(4) fr show ?thesis by (simp add: same_queue_def)
  next
    case (3 d p1)
    note fr = draw_decision_frame [OF 3(2)]
    from 3(4) show ?thesis
    proof (cases rule: transmit_cases)
      case 1
      with assms(3) show ?thesis by simp
    next
      case (2 data' i b p1' base ser p2)
      note cf = corrupt_unit_frame [OF 2(1)] and tf = throttle_frame [OF 2(2)]
      have "serializationDelay (int (length data)) (bandwidthBPS (current_config fp e))
          = Some (min (int (length data) * second_ns div bandwidthBPS (current_config fp e)) maxDuration)"
        using assms(4-6) by (intro serializationDelay_eq) simp_all
      then have base: "base = finish" "ser = time_sub finish (env_now e)" "busyUntil p2 = finish"
        using 2(2) assms(3) cf(3,4) fr(3)
        by (auto simp: throttle_def Let_def finish_def link_finish_def time_add_def max_def split: if_splits)
      have pend: "pending p2 = pending p" "trace p2 = Some evs"
        using fr cf tf assms(7) by (simp_all add: same_queue_def)
      then have "ev = zeroEvent\<lparr>ev_drawn := drawn d, ev_serialized := ser,
              ev_effective := time_sub (clamp_release (time_add base (drawn d)) (pending p2)) base,
              ev_duplicated := duplicated d, ev_corrupted := corrupted d, ev_size := length data',
              ev_corruptByte := i, ev_corruptBit := b, ev_seq := length evs\<rparr>"
        using assms(8) 2(4) by (simp add: record_event_def)
      then show ?thesis
        using base pend 2(4) by (auto simp: clamp_release_def time_add_def max_def)
    qed
  qed
qed

definition slowEnv :: env where
  "slowEnv = (exampleEnv 100)\<lparr>env_faults := noFaults\<lparr>bandwidthEnabled := True, bandwidthBPS := 1000\<rparr>\<rparr>"

lemma example_slow:
  "tryWrite slowEnv [1, 2, 3] (examplePipe\<lparr>busyUntil := 500\<rparr>) = Some (Done 3 None,
     examplePipe\<lparr>bufBytes := 3, busyUntil := 3000500, arms := 1, timer := Some 3000500,
       pending := [\<lparr>pu_data = [1, 2, 3], releaseAt = 3000500\<rparr>],
       trace := Some [zeroEvent\<lparr>ev_serialized := 3000400, ev_size := 3\<rparr>]\<rparr>)"
  by (simp add: tryWrite_def slowEnv_def example_defs run_deliver_def charge_def evaluate_def current_config_def
      isPartitioned_def draw_decision_def draw_bernoulli_def draw_latency_def
      transmit_def corrupt_unit_def throttle_def serializationDelay_eq second_ns_def clamp_release_def
      time_add_def time_sub_def minDuration_def maxDuration_def admit_pending_def zeroEvent_def
      armLatencyForAppendLocked_def armLatencyTimerLocked_def record_event_def Let_def)

theorem bandwidth_schedule_witness:
  "link_finish 1000 3 100 500 = 3000500"
proof -
  have "deliver (examplePipe\<lparr>busyUntil := 500\<rparr>)
      = FaultEvaluator \<lparr>fp_network = True, fp_pair = (''a'', ''b''), fp_static = noFaults\<rparr>"
    by (simp add: example_defs)
  from bandwidth_schedule [OF example_slow this, of "[]"] show ?thesis
    by (auto simp: slowEnv_def current_config_def example_defs numeral_3_eq_3)
qed

end
