(* ===== verification/Endpoint.thy ===== *)
theory Endpoint
  imports Conn Direction
begin

text \<open>
  What one end of a connection shows its user, whatever the other end, a reset or a deadline did:
  the order of errors, when the end of the stream and a broken pipe are seen, what closing
  keeps, and what a reset hits.
\<close>

section \<open>Examples\<close>

definition emptyStore :: store where
  "emptyStore =
     \<lparr>clock = 50, parts = \<lparr>partitions = {}, partNotify = 0\<rparr>, faults = noFaults, resetTargets = (\<lambda>_. []),
      pipes = (\<lambda>_. newPipe 0),
      conns = (\<lambda>_. newConn \<lparr>a_network = [], peer = [], port = 0, ip = None\<rparr>
                            \<lparr>a_network = [], peer = [], port = 0, ip = None\<rparr> [] 0 sideDialer 0 0),
      next_pipe = 0, next_conn = 0\<rparr>"

text \<open>Connections 0 and 1 are the two ends of a registered pair.\<close>

definition pairStore :: store where
  "pairStore =
     registerReset (''a'', ''b'') [0, 1]
       (upd_conn 0 (\<lambda>c. c\<lparr>c_nw := True, c_pair := (''a'', ''b'')\<rparr>)
         (upd_conn 1 (\<lambda>c. c\<lparr>c_nw := True, c_pair := (''a'', ''b'')\<rparr>)
           (snd (newConnPairWithBound \<lparr>a_network = ''tcp'', peer = ''a'', port = 1, ip = None\<rparr>
                   \<lparr>a_network = ''tcp'', peer = ''b'', port = 2, ip = None\<rparr> 0 ''tcp'' 8 emptyStore))))"

lemma pairStore_sel:
  "conns pairStore 0 = (newConn \<lparr>a_network = ''tcp'', peer = ''a'', port = 1, ip = None\<rparr>
     \<lparr>a_network = ''tcp'', peer = ''b'', port = 2, ip = None\<rparr> ''tcp'' 0 sideDialer 1 0)
       \<lparr>c_nw := True, c_pair := (''a'', ''b'')\<rparr>"
  "conns pairStore (Suc 0) = (newConn \<lparr>a_network = ''tcp'', peer = ''b'', port = 2, ip = None\<rparr>
     \<lparr>a_network = ''tcp'', peer = ''a'', port = 1, ip = None\<rparr> ''tcp'' 0 sideAcceptor 0 1)
       \<lparr>c_nw := True, c_pair := (''a'', ''b'')\<rparr>"
  "pipes pairStore 0 = directionPipe 8 defaultSeed 0 sideDialer True"
  "pipes pairStore (Suc 0) = directionPipe 8 defaultSeed 0 sideAcceptor True"
  "next_conn pairStore = 2" "next_pipe pairStore = 2" "clock pairStore = 50"
  "parts pairStore = \<lparr>partitions = {}, partNotify = 0\<rparr>" "faults pairStore = noFaults"
  "resetTargets pairStore = (\<lambda>k. if k = (''a'', ''b'') then [0, 1] else [])"
  by (simp_all add: pairStore_def newConnPairWithBound_def newConnPairWithSeed_def
      newConnPairWithSeedAndTrace_def emptyStore_def registerReset_def upd_conn_def Let_def fun_eq_iff)


lemma less_two: "c < (2 :: nat) \<longleftrightarrow> c = 0 \<or> c = 1"
  by auto

lemma pairStore_inv: "store_inv pairStore"
proof -
  have "registry_inv pairStore"
    by (auto simp: registry_inv_def pairStore_sel less_two newConn_def conn_down_def peer_of_def)
  moreover have "wired pairStore" "flags_inv pairStore"
    by (auto simp: wired_def flags_inv_def pairStore_sel less_two newConn_def conn_down_def peer_of_def)
  moreover have "pipe_inv (pipes pairStore i)" if "i < 2" for i
    using that directionPipe_inv by (auto simp: less_two pairStore_sel)
  ultimately show ?thesis by (simp add: store_inv_def pairStore_sel)
qed

section \<open>Errors\<close>

text \<open>
  C25. The order of errors: a closed end fails with \<open>net.ErrClosed\<close> and nothing else, reset or
  not; an end that was reset but not closed fails with \<open>ECONNRESET\<close>, whatever is still queued;
  an expired deadline fails with a timeout before any data moves. None of them changes anything.
\<close>

theorem io_error_order:
  "(c_closed (conns s c) \<longrightarrow>
      (\<exists>e. conn_Read plan9 len c s = (Returned [] (Some e), s)
         \<and> errors_Is plan9 e NetErrClosed \<and> \<not> errors_Is plan9 e (errConnReset plan9))
    \<and> (\<exists>e. conn_Write plan9 data c s = Some (Returned 0 (Some e), s)
         \<and> errors_Is plan9 e NetErrClosed \<and> \<not> errors_Is plan9 e (errConnReset plan9)))
   \<and> (\<not> c_closed (conns s c) \<and> c_reset (conns s c) \<longrightarrow>
      (\<exists>e. conn_Read plan9 len c s = (Returned [] (Some e), s) \<and> errors_Is plan9 e (errConnReset plan9))
    \<and> (\<exists>e. conn_Write plan9 data c s = Some (Returned 0 (Some e), s) \<and> errors_Is plan9 e (errConnReset plan9)))
   \<and> (\<not> c_closed (conns s c) \<and> \<not> c_reset (conns s c) \<longrightarrow>
      (expired (clock s) (rd (conns s c)) \<longrightarrow>
        (\<exists>e. conn_Read plan9 len c s = (Returned [] (Some e), s)
           \<and> errors_Is plan9 e ErrDeadlineExceeded \<and> is_timeout e))
    \<and> (expired (clock s) (wd (conns s c)) \<longrightarrow>
        (\<exists>e. conn_Write plan9 data c s = Some (Returned 0 (Some e), s)
           \<and> errors_Is plan9 e ErrDeadlineExceeded \<and> is_timeout e)))"
  by (simp add: conn_Read_eq conn_Write_eq conn_opError_def errConnReset_def)

theorem io_error_order_witness:
  "\<exists>e. conn_Read False 4 0 (upd_conn 0 (\<lambda>c. c\<lparr>c_closed := True, c_reset := True\<rparr>) pairStore)
       = (Returned [] (Some e), upd_conn 0 (\<lambda>c. c\<lparr>c_closed := True, c_reset := True\<rparr>) pairStore)
     \<and> errors_Is False e NetErrClosed"
proof -
  let ?s = "upd_conn 0 (\<lambda>c. c\<lparr>c_closed := True, c_reset := True\<rparr>) pairStore"
  have "c_closed (conns ?s 0)" by simp
  with io_error_order [of ?s 0 False 4 "[]"] show ?thesis by blast
qed

lemma peer_pipe:
  assumes "store_inv s" "c < next_conn s" "\<not> conn_down (conns s c)"
  shows "writePipe (conns s c) = c" "readPipe (conns s c) = peer_of c"
    "\<not> readClosed (pipes s (peer_of c))" "p_closed (pipes s c) \<longleftrightarrow> conn_down (conns s (peer_of c))"
    "p_closed (pipes s (peer_of c)) \<longleftrightarrow> conn_down (conns s (peer_of c))"
proof -
  note w = store_inv_wired [OF assms(1)]
  show "writePipe (conns s c) = c" "readPipe (conns s c) = peer_of c"
    using wired_pipes [OF w assms(2)] by simp_all
  have f: "flags_inv s" using assms(1) by (simp add: store_inv_def)
  from f assms(2,3) show "\<not> readClosed (pipes s (peer_of c))" "p_closed (pipes s c) \<longleftrightarrow> conn_down (conns s (peer_of c))"
    by (simp_all add: flags_inv_def)
  from f wired_peer [OF w assms(2)] assms(3)
  show "p_closed (pipes s (peer_of c)) \<longleftrightarrow> conn_down (conns s (peer_of c))"
    by (simp add: flags_inv_def)
qed

text \<open>
  C15. The end of the stream is seen only when it is one: a read that reports it is on a live end
  whose peer has gone, and every byte sent to it has been read. A write reports a broken pipe
  exactly when the peer has gone, and then sends nothing.
\<close>

theorem peer_gone_seen:
  assumes "store_inv s" "c < next_conn s"
  shows "(\<forall>out s'. conn_Read plan9 len c s = (Returned out (Some EOF), s') \<longrightarrow>
      out = [] \<and> \<not> conn_down (conns s c) \<and> conn_down (conns s (peer_of c)) \<and> in_flight (pipes s (peer_of c)) = [])
    \<and> (\<not> conn_down (conns s c) \<and> \<not> expired (clock s) (wd (conns s c)) \<longrightarrow>
        (conn_down (conns s (peer_of c)) \<longleftrightarrow>
           (\<exists>s'. conn_Write plan9 data c s
              = Some (Returned 0 (Some (conn_opError (conns s c) ''write'' (errBrokenPipe plan9))), s')))
      \<and> (conn_down (conns s (peer_of c)) \<longrightarrow> map_option snd (conn_Write plan9 data c s) = Some s))"
proof (intro conjI allI impI)
  fix out s'
  assume r: "conn_Read plan9 len c s = (Returned out (Some EOF), s')"
  then have up: "\<not> conn_down (conns s c)"
    by (auto simp: conn_Read_eq conn_down_def conn_opError_def split: if_splits)
  note pp = peer_pipe [OF assms up]
  obtain t p where t: "tryRead (env_of s) len (pipes s (peer_of c)) = (t, p)" by fastforce
  from r up have "t = Done out (Some EOF)"
    by (auto simp: conn_Read_eq conn_down_def conn_opError_def pp t Let_def split: if_splits attempt.splits)
  from tryRead_eof [OF t [unfolded this]] pp up
  show "out = []" "\<not> conn_down (conns s c)" "conn_down (conns s (peer_of c))" "in_flight (pipes s (peer_of c)) = []"
    by simp_all
next
  assume up: "\<not> conn_down (conns s c) \<and> \<not> expired (clock s) (wd (conns s c))"
  then have u: "\<not> conn_down (conns s c)" by simp
  note pp = peer_pipe [OF assms u]
  have own: "readClosed (pipes s c) \<longrightarrow> p_closed (pipes s c)"
    using store_inv_pipe_inv [OF assms] by (simp add: pipe_inv_def)
  have gone: "conn_Write plan9 data c s
      = Some (Returned 0 (Some (conn_opError (conns s c) ''write'' (errBrokenPipe plan9))), s)"
    if "p_closed (pipes s c)"
    using that up pp by (simp add: conn_Write_eq conn_down_def tryWrite_def upd_pipe_def)
  show "conn_down (conns s (peer_of c)) \<longleftrightarrow> (\<exists>s'. conn_Write plan9 data c s
      = Some (Returned 0 (Some (conn_opError (conns s c) ''write'' (errBrokenPipe plan9))), s'))"
  proof
    assume "\<exists>s'. conn_Write plan9 data c s
      = Some (Returned 0 (Some (conn_opError (conns s c) ''write'' (errBrokenPipe plan9))), s')"
    then have "p_closed (pipes s c) \<or> readClosed (pipes s c)"
      using up pp by (auto simp: conn_Write_eq conn_down_def tryWrite_def Let_def split: if_splits option.splits)
    with own pp show "conn_down (conns s (peer_of c))" by auto
  qed (use gone pp in auto)
  show "conn_down (conns s (peer_of c)) \<Longrightarrow> map_option snd (conn_Write plan9 data c s) = Some s"
    using gone pp by simp
qed

theorem peer_gone_seen_witness:
  "\<exists>s'. conn_Write False [1] 0 (conn_Close 1 pairStore)
     = Some (Returned 0 (Some (conn_opError (conns (conn_Close 1 pairStore) 0) ''write'' (Errno EPIPE))), s')"
proof -
  let ?s = "conn_Close 1 pairStore"
  note e = conn_Close_effect [OF store_inv_wired [OF pairStore_inv], of 1]
  have inv: "store_inv ?s" by (rule conn_Close_inv [OF pairStore_inv]) (simp add: pairStore_sel)
  have "\<not> c_closed (conns pairStore 1)" by (simp add: pairStore_sel newConn_def)
  with e have s: "\<not> conn_down (conns ?s 0)" "conn_down (conns ?s (peer_of 0))" "next_conn ?s = 2"
      "wd (conns ?s 0) = newDeadline"
    by (simp_all add: pairStore_sel conn_down_def peer_of_def newConn_def)
  from peer_gone_seen [OF inv, of 0 False 4 "[1]"] s show ?thesis
    by (simp add: expired_def newDeadline_def errBrokenPipe_def)
qed


section \<open>Closing and resetting\<close>

lemma abort_empty: "pipe_inv p \<Longrightarrow> in_flight (abort p) = []"
  by (auto simp: abort_def in_flight_def pipe_inv_def broadcastLocked_def)

text \<open>
  C13. A graceful close keeps what was sent: when the peer closes, every byte it sent stays
  scheduled for this end, while what was on its way to the peer is discarded and this end's
  next write is refused with a broken pipe.
\<close>

theorem close_keeps_sent:
  assumes "store_inv s" "c < next_conn s" "\<not> conn_down (conns s c)" "\<not> conn_down (conns s (peer_of c))"
    and "\<not> expired (clock s) (wd (conns s c))"
  defines "t \<equiv> conn_Close (peer_of c) s"
  shows "in_flight (pipes t (peer_of c)) = in_flight (pipes s (peer_of c)) \<and> pending (pipes t (peer_of c)) = pending (pipes s (peer_of c))
    \<and> in_flight (pipes t c) = [] \<and> conns t c = conns s c
    \<and> conn_Write plan9 data c t
        = Some (Returned 0 (Some (conn_opError (conns s c) ''write'' (errBrokenPipe plan9))), t)"
proof -
  note w = store_inv_wired [OF assms(1)]
  have p: "peer_of c < next_conn s" using wired_peer [OF w assms(2)] .
  have "\<not> c_closed (conns s (peer_of c))" using assms(4) by (simp add: conn_down_def)
  note e = conn_Close_effect [OF w p this, folded t_def]
  have inv: "store_inv t" unfolding t_def by (rule conn_Close_inv [OF assms(1) p])
  have c: "conns t c = conns s c" "clock t = clock s" "c < next_conn t" using e assms(2) by simp_all
  have down: "conn_down (conns t (peer_of c))" using e by (simp add: conn_down_def)
  have up: "\<not> conn_down (conns t c)" using c assms(3) by simp
  have "p_closed (pipes t c)" using peer_pipe(4) [OF inv c(3) up] down by simp
  then have "conn_Write plan9 data c t
      = Some (Returned 0 (Some (conn_opError (conns t c) ''write'' (errBrokenPipe plan9))), t)"
    using up assms(5) c peer_pipe(1) [OF inv c(3) up]
    by (simp add: conn_Write_eq conn_down_def tryWrite_def upd_pipe_def)
  with c show ?thesis
    using e abort_empty [OF store_inv_pipe_inv [OF assms(1,2)]] by (simp add: close_in_flight)
qed

theorem close_keeps_sent_witness:
  "conn_Write False [1, 2] 0 (conn_Close 1 pairStore)
     = Some (Returned 0 (Some (conn_opError (conns pairStore 0) ''write'' (Errno EPIPE))), conn_Close 1 pairStore)"
proof -
  have "\<not> conn_down (conns pairStore 0)" "\<not> conn_down (conns pairStore (peer_of 0))"
    "\<not> expired (clock pairStore) (wd (conns pairStore 0))" "0 < next_conn pairStore"
    by (simp_all add: pairStore_sel conn_down_def newConn_def peer_of_def expired_def newDeadline_def)
  from close_keeps_sent [OF pairStore_inv this(4,1,2,3), of False "[1, 2]"] show ?thesis
    by (simp add: peer_of_def errBrokenPipe_def)
qed

text \<open>What a reset of a pair of peers hits.\<close>

definition reset_hits :: "pairKey \<Rightarrow> nat \<Rightarrow> 'a store_scheme \<Rightarrow> bool" where
  "reset_hits k c s \<longleftrightarrow> c < next_conn s \<and> c_nw (conns s c) \<and> c_pair (conns s c) = k \<and> \<not> conn_down (conns s c)"

text \<open>
  C14. A reset hits exactly the live ends of the pair: each of them fails its reads and writes with
  \<open>ECONNRESET\<close> from then on and loses everything in flight in both directions; every other end,
  every other direction, the partitions and the fault settings are untouched; and nothing is
  left registered for the pair, so a connection dialed later is not affected.
\<close>

theorem reset_exact:
  fixes k :: pairKey
  assumes "store_inv s"
  defines "t \<equiv> reset_pair k s"
  shows "(\<forall>c. if reset_hits k c s
        then conn_Read plan9 len c t = (Returned [] (Some (conn_opError (conns s c) ''read'' (errConnReset plan9))), t)
           \<and> conn_Write plan9 data c t
               = Some (Returned 0 (Some (conn_opError (conns s c) ''write'' (errConnReset plan9))), t)
           \<and> in_flight (pipes t c) = [] \<and> in_flight (pipes t (peer_of c)) = []
        else conns t c = conns s c)
    \<and> (\<forall>i. \<not> reset_hits k i s \<and> \<not> reset_hits k (peer_of i) s \<longrightarrow> pipes t i = pipes s i)
    \<and> resetTargets t = (resetTargets s)(k := []) \<and> parts t = parts s \<and> faults t = faults s"
proof -
  note e = reset_pair_effect [OF assms(1), of k, folded t_def]
  have hit: "c \<in> set (resetTargets s k) \<longleftrightarrow> reset_hits k c s" for c
    using reset_targets [OF assms(1)] by (simp add: reset_hits_def)
  have dead: "in_flight (pipes t i) = []" if "reset_hits k i s \<or> reset_hits k (peer_of i) s" for i
  proof -
    have "i < next_conn s"
      using that wired_peer [OF store_inv_wired [OF assms(1)], of "peer_of i"] by (auto simp: reset_hits_def)
    with that show ?thesis
      using abort_empty [OF store_inv_pipe_inv [OF assms(1)]] by (auto simp: e hit)
  qed
  have "conn_Read plan9 len c t = (Returned [] (Some (conn_opError (conns s c) ''read'' (errConnReset plan9))), t)
      \<and> conn_Write plan9 data c t
          = Some (Returned 0 (Some (conn_opError (conns s c) ''write'' (errConnReset plan9))), t)"
    if "reset_hits k c s" for c
    using that by (simp add: conn_Read_eq conn_Write_eq e hit) (simp add: reset_hits_def conn_down_def conn_opError_def)
  with dead show ?thesis by (simp add: e hit)
qed

theorem reset_exact_witness:
  "conn_Read False 9 0 (reset_pair (''a'', ''b'') pairStore)
     = (Returned [] (Some (conn_opError (conns pairStore 0) ''read'' (Errno ECONNRESET))), reset_pair (''a'', ''b'') pairStore)"
proof -
  have "reset_hits (''a'', ''b'') 0 pairStore"
    by (simp add: reset_hits_def pairStore_sel newConn_def conn_down_def)
  with reset_exact [OF pairStore_inv, of "(''a'', ''b'')" False 9 "[]", THEN conjunct1, THEN spec [of _ 0]]
  show ?thesis by (simp add: errConnReset_def)
qed

text \<open>
  C32. A deadline is announced: a waiter that took the deadline's channel before the deadline
  passed is woken by its time, whatever was set in between: its channel is closed, or the timer
  is due and its callback closes it.
\<close>

theorem deadline_announced:
  assumes "run_steps dl_step ls d = Some d'" "\<forall>l \<in> set ls. snd l \<noteq> DlStop"
    and "t = 0 \<or> now < t" "d = deadline_set now t d0" "expired later d'"
  shows "chan_closed (deadline_channel d) (dl_gen d')
    \<or> (\<exists>d''. dl_step (later, DlFire) d' = Some d'' \<and> chan_closed (deadline_channel d) (dl_gen d''))"
proof -
  have "dl_armed (dl_gen d) d"
    using assms(3)
  proof
    assume "t = 0"
    then show ?thesis by (simp add: assms(4) dl_armed_def deadline_set_def bumpLocked_def Let_def)
  next
    assume "now < t"
    with dl_armed_set [of "dl_gen d" now t d0] show ?thesis by (simp add: assms(4))
  qed
  from dl_armed_run [OF assms(1) this _ assms(2)] dl_armed_wakes [OF _ _ assms(5)]
  show ?thesis by (simp add: deadline_channel_def)
qed

theorem deadline_announced_witness:
  "\<exists>d''. dl_step (9, DlFire) (deadline_set 2 8 newDeadline) = Some d''
     \<and> chan_closed (deadline_channel (deadline_set 2 8 newDeadline)) (dl_gen d'')"
proof -
  have "expired 9 (deadline_set 2 8 newDeadline)" by (simp add: expired_def deadline_set_def bumpLocked_def Let_def)
  from deadline_announced [of "[]" _ _ 8 2, OF _ _ _ refl this]
  show ?thesis by (auto simp: chan_closed_def deadline_channel_def)
qed

end
