(* ===== verification/Addressing.thy ===== *)
theory Addressing
  imports Errors Rand
begin

text \<open>
  The address book of a network (\<open>addressing.go\<close>): which peer owns an IP address and which
  addresses a peer was given. Every operation runs under the network's mutex.
\<close>

section \<open>State\<close>

text \<open>
  \<open>ipOwners\<close> is keyed by the printed address. The nested Go map \<open>peerIPs\<close> is a function to maps:
  a peer without an inner map has the empty one.
\<close>

record addressBook =
  ipOwners :: "string \<rightharpoonup> string"
  peerIPs :: "string \<Rightarrow> nat \<rightharpoonup> netIP"
  nextIPv4 :: u32
  nextIPv6 :: u64

definition emptyBook :: addressBook where
  "emptyBook = \<lparr>ipOwners = Map.empty, peerIPs = (\<lambda>_. Map.empty), nextIPv4 = 0, nextIPv6 = 0\<rparr>"

section \<open>Names\<close>

definition canonicalPeerLocked :: "string \<Rightarrow> addressBook \<Rightarrow> string \<times> addressBook" where
  "canonicalPeerLocked host bk =
     (case parseLiteralIP host of
        None \<Rightarrow> (host, bk)
      | Some a \<Rightarrow>
          let key = Addr_String a
          in case ipOwners bk key of
               Some owner \<Rightarrow> (owner, bk)
             | None \<Rightarrow> (key, bk\<lparr>ipOwners := (ipOwners bk)(key \<mapsto> key)\<rparr>))"

section \<open>Allocation\<close>

definition candidate4 :: "u32 \<Rightarrow> netip" where
  "candidate4 v = Addr4 [198, ucast (18 + drop_bit 16 v), ucast (drop_bit 8 v), ucast v]"

definition candidate6 :: "u64 \<Rightarrow> netip" where
  "candidate6 v = Addr6 ([0xfd, 0, 0, 0, 0, 0, 0, 0] @ be64 v) []"

lemma unat_succ32: "v < 2 ^ 17 \<Longrightarrow> unat (v + 1 :: u32) = Suc (unat v)"
  by (simp add: word_less_nat_alt unat_word_ariths)

lemma unat_succ64: "v \<noteq> - 1 \<Longrightarrow> unat (v + 1 :: u64) = Suc (unat v)"
  by (metis add.commute add_eq_0_iff unatSuc)

lemma measure64: "v \<noteq> - 1 \<Longrightarrow> 2 ^ 64 - unat (v + 1 :: u64) < 2 ^ 64 - unat v"
proof -
  assume "v \<noteq> - 1"
  then have "unat (v + 1) = Suc (unat v)" by (rule unat_succ64)
  with unat_lt64 [of v] show ?thesis by linarith
qed

text \<open>
  The search for a free synthetic address: the counter steps past every address that is
  occupied, and past the end of the range when it is exhausted.
\<close>

function alloc4 :: "(string \<rightharpoonup> string) \<Rightarrow> u32 \<Rightarrow> netip option \<times> u32" where
  "alloc4 owners v =
     (if 2 ^ 17 \<le> v then (None, v + 1)
      else if owners (Addr_String (candidate4 v)) \<noteq> None then alloc4 owners (v + 1)
      else (Some (candidate4 v), v + 1))"
  by pat_completeness auto
termination
  by (relation "measure (\<lambda>(owners, v). 2 ^ 17 - unat v)")
     (auto simp: not_le unat_succ32 word_less_nat_alt)

function alloc6 :: "(string \<rightharpoonup> string) \<Rightarrow> u64 \<Rightarrow> netip option \<times> u64" where
  "alloc6 owners v =
     (if v = - 1 then (None, v + 1)
      else if owners (Addr_String (candidate6 v)) \<noteq> None then alloc6 owners (v + 1)
      else (Some (candidate6 v), v + 1))"
  by pat_completeness auto
termination
  by (relation "measure (\<lambda>(owners, v). 2 ^ 64 - unat v)")
     (simp, simp only: in_measure case_prod_conv, erule measure64)

declare alloc4.simps [simp del] alloc6.simps [simp del]

definition allocate :: "nat \<Rightarrow> addressBook \<Rightarrow> netip option \<times> addressBook" where
  "allocate family bk =
     (if family = 4
      then let (c, v) = alloc4 (ipOwners bk) (nextIPv4 bk) in (c, bk\<lparr>nextIPv4 := v\<rparr>)
      else let (c, v) = alloc6 (ipOwners bk) (nextIPv6 bk) in (c, bk\<lparr>nextIPv6 := v\<rparr>))"

definition exhausted_error :: "nat \<Rightarrow> go_error" where
  "exhausted_error family =
     PlainError (if family = 4 then ''synthetic IPv4 space exhausted'' else ''synthetic IPv6 space exhausted'')"

definition peerIPLocked :: "string \<Rightarrow> nat \<Rightarrow> addressBook \<Rightarrow> (go_error + netIP) \<times> addressBook" where
  "peerIPLocked pr family bk =
     (case parseLiteralIP pr of
        Some a \<Rightarrow>
          if Is4 a \<and> family \<noteq> 4 \<or> Is6 a \<and> family \<noteq> 6
          then (Inl (PlainError (''address family mismatch: '' @ pr)), bk)
          else (Inr (AsSlice a), bk\<lparr>ipOwners := (ipOwners bk)(Addr_String a \<mapsto> pr)\<rparr>)
      | None \<Rightarrow>
          case peerIPs bk pr family of
            Some i \<Rightarrow> (Inr i, bk)
          | None \<Rightarrow>
              case allocate family bk of
                (None, bk1) \<Rightarrow> (Inl (exhausted_error family), bk1)
              | (Some a, bk1) \<Rightarrow>
                  (Inr (AsSlice a),
                   bk1\<lparr>ipOwners := (ipOwners bk1)(Addr_String a \<mapsto> pr),
                       peerIPs := (peerIPs bk1)(pr := (peerIPs bk1 pr)(family \<mapsto> AsSlice a))\<rparr>))"


section \<open>The search for a free address\<close>

lemma alloc4_spec:
  "alloc4 owners v = (r, v') \<Longrightarrow>
     (case r of
        Some a \<Rightarrow> \<exists>k. v \<le> k \<and> k < 2 ^ 17 \<and> a = candidate4 k \<and> v' = k + 1
                    \<and> owners (Addr_String a) = None
                    \<and> (\<forall>j. v \<le> j \<and> j < k \<longrightarrow> owners (Addr_String (candidate4 j)) \<noteq> None)
      | None \<Rightarrow> \<forall>j. v \<le> j \<and> j < 2 ^ 17 \<longrightarrow> owners (Addr_String (candidate4 j)) \<noteq> None)"
proof (induction owners v rule: alloc4.induct)
  case (1 owners v)
  consider "2 ^ 17 \<le> v" | "v < 2 ^ 17" "owners (Addr_String (candidate4 v)) \<noteq> None"
    | "v < 2 ^ 17" "owners (Addr_String (candidate4 v)) = None" by fastforce
  then show ?case
  proof cases
    case 1
    with "1.prems" show ?thesis by (subst (asm) alloc4.simps) auto
  next
    case 2
    have le: "v \<le> j \<longleftrightarrow> j = v \<or> v + 1 \<le> j" for j
      using 2(1) by (auto simp: word_le_nat_alt unat_succ32 word_unat_eq_iff)
    have nle: "\<not> 2 ^ 17 \<le> v" using 2(1) by (simp add: not_le)
    from "1.prems" have rec: "alloc4 owners (v + 1) = (r, v')"
      by (subst (asm) alloc4.simps) (simp only: nle 2(2) if_False if_True simp_thms)
    from "1.IH" [OF nle 2(2) rec]
    have IH: "case r of
        Some a \<Rightarrow> \<exists>k. v + 1 \<le> k \<and> k < 2 ^ 17 \<and> a = candidate4 k \<and> v' = k + 1
                    \<and> owners (Addr_String a) = None
                    \<and> (\<forall>j. v + 1 \<le> j \<and> j < k \<longrightarrow> owners (Addr_String (candidate4 j)) \<noteq> None)
      | None \<Rightarrow> \<forall>j. v + 1 \<le> j \<and> j < 2 ^ 17 \<longrightarrow> owners (Addr_String (candidate4 j)) \<noteq> None"
      .
    show ?thesis
    proof (cases r)
      case None
      with IH 2(2) le show ?thesis by auto
    next
      case (Some a)
      with IH obtain k where "v + 1 \<le> k" "k < 2 ^ 17" "a = candidate4 k" "v' = k + 1"
        "owners (Addr_String a) = None"
        "\<forall>j. v + 1 \<le> j \<and> j < k \<longrightarrow> owners (Addr_String (candidate4 j)) \<noteq> None" by auto
      with 2(2) le Some show ?thesis by auto
    qed
  next
    case 3
    have nle: "\<not> 2 ^ 17 \<le> v" using 3(1) by (simp add: not_le)
    from "1.prems" have "(r, v') = (Some (candidate4 v), v + 1)"
      by (subst (asm) alloc4.simps) (simp add: 3(2) nle [simplified])
    with 3 show ?thesis by auto
  qed
qed

lemma alloc4_free: "alloc4 owners v = (Some a, v') \<Longrightarrow> owners (Addr_String a) = None \<and> length (AsSlice a) = 4 \<and> Is4 a"
  using alloc4_spec [of owners v "Some a" v'] by (auto simp: candidate4_def)

lemma alloc6_free: "alloc6 owners v = (Some a, v') \<Longrightarrow> owners (Addr_String a) = None \<and> (\<exists>k. a = candidate6 k)"
proof (induction owners v rule: alloc6.induct)
  case (1 owners v)
  from "1.prems" show ?case
    by (subst (asm) alloc6.simps) (auto split: if_splits dest: "1.IH")
qed

section \<open>The invariant of the address book\<close>

text \<open>
  Every address handed out for a name is recorded as owned by that name. The key of an address
  is its printed form.
\<close>

definition netip_of :: "netIP \<Rightarrow> netip" where
  "netip_of i = (if length i = 4 then Addr4 i else Addr6 i [])"

definition book_inv :: "addressBook \<Rightarrow> bool" where
  "book_inv bk \<longleftrightarrow>
     (\<forall>p f i. peerIPs bk p f = Some i \<longrightarrow>
        ipOwners bk (Addr_String (netip_of i)) = Some p \<and> parseLiteralIP p = None)"

text \<open>A name \<open>canonicalPeerLocked\<close> may have given: a literal owns its own address.\<close>

definition is_canonical :: "addressBook \<Rightarrow> string \<Rightarrow> bool" where
  "is_canonical bk pr \<longleftrightarrow>
     (\<forall>a. parseLiteralIP pr = Some a \<longrightarrow> ipOwners bk (Addr_String a) = Some pr)"

lemma book_inv_empty: "book_inv emptyBook"
  by (simp add: book_inv_def emptyBook_def)

lemma book_inv_inj:
  "book_inv bk \<Longrightarrow> peerIPs bk p f = Some i \<Longrightarrow> peerIPs bk q g = Some i \<Longrightarrow> p = q"
  unfolding book_inv_def by (metis option.inject)

lemma canonical_inv: "book_inv bk \<Longrightarrow> book_inv (snd (canonicalPeerLocked host bk))"
  by (force simp: canonicalPeerLocked_def book_inv_def Let_def split: option.split)

lemma canonical_name: "parseLiteralIP host = None \<Longrightarrow> canonicalPeerLocked host bk = (host, bk)"
  by (simp add: canonicalPeerLocked_def)

lemma allocate_free:
  assumes "allocate f bk = (Some a, bk1)"
  shows "ipOwners bk (Addr_String a) = None" "ipOwners bk1 = ipOwners bk" "peerIPs bk1 = peerIPs bk"
    "netip_of (AsSlice a) = a"
proof -
  have "ipOwners bk (Addr_String a) = None \<and> ipOwners bk1 = ipOwners bk \<and> peerIPs bk1 = peerIPs bk
      \<and> netip_of (AsSlice a) = a"
  proof (cases "f = 4")
    case True
    with assms obtain v where v: "alloc4 (ipOwners bk) (nextIPv4 bk) = (Some a, v)" "bk1 = bk\<lparr>nextIPv4 := v\<rparr>"
      by (auto simp: allocate_def split: prod.splits)
    from alloc4_free [OF v(1)] v(2) show ?thesis by (cases a) (auto simp: netip_of_def)
  next
    case False
    with assms obtain v where v: "alloc6 (ipOwners bk) (nextIPv6 bk) = (Some a, v)" "bk1 = bk\<lparr>nextIPv6 := v\<rparr>"
      by (auto simp: allocate_def split: prod.splits)
    from alloc6_free [OF v(1)] v(2) show ?thesis by (auto simp: netip_of_def candidate6_def length_be64)
  qed
  then show "ipOwners bk (Addr_String a) = None" "ipOwners bk1 = ipOwners bk" "peerIPs bk1 = peerIPs bk"
    "netip_of (AsSlice a) = a" by blast+
qed

lemma allocate_none:
  "allocate f bk = (None, bk1) \<Longrightarrow> ipOwners bk1 = ipOwners bk \<and> peerIPs bk1 = peerIPs bk"
  by (auto simp: allocate_def split: if_splits prod.splits)

lemma peerIP_cases:
  assumes "peerIPLocked pr f bk = (r, bk')"
  obtains (mismatch) a where "parseLiteralIP pr = Some a" "Is4 a \<and> f \<noteq> 4 \<or> Is6 a \<and> f \<noteq> 6"
      "r = Inl (PlainError (''address family mismatch: '' @ pr))" "bk' = bk"
  | (literal) a where "parseLiteralIP pr = Some a" "r = Inr (AsSlice a)"
      "bk' = bk\<lparr>ipOwners := (ipOwners bk)(Addr_String a \<mapsto> pr)\<rparr>"
  | (known) i where "parseLiteralIP pr = None" "peerIPs bk pr f = Some i" "r = Inr i" "bk' = bk"
  | (exhausted) "parseLiteralIP pr = None" "peerIPs bk pr f = None" "allocate f bk = (None, bk')"
      "r = Inl (exhausted_error f)"
  | (fresh) a bk1 where "parseLiteralIP pr = None" "peerIPs bk pr f = None"
      "allocate f bk = (Some a, bk1)" "r = Inr (AsSlice a)"
      "bk' = bk1\<lparr>ipOwners := (ipOwners bk1)(Addr_String a \<mapsto> pr),
                   peerIPs := (peerIPs bk1)(pr := (peerIPs bk1 pr)(f \<mapsto> AsSlice a))\<rparr>"
proof (cases "parseLiteralIP pr")
  case None
  show ?thesis
  proof (cases "peerIPs bk pr f")
    case None2: None
    obtain ra bk1 where al: "allocate f bk = (ra, bk1)" by (cases "allocate f bk")
    show ?thesis
    proof (cases ra)
      case None
      with assms al None2 \<open>parseLiteralIP pr = None\<close> show ?thesis
        by (intro exhausted) (auto simp: peerIPLocked_def)
    next
      case (Some a)
      with assms al None2 \<open>parseLiteralIP pr = None\<close> show ?thesis
        by (intro fresh [of a bk1]) (auto simp: peerIPLocked_def)
    qed
  next
    case (Some i)
    with assms None show ?thesis by (intro known [of i]) (auto simp: peerIPLocked_def)
  qed
next
  case (Some a)
  show ?thesis
  proof (cases "Is4 a \<and> f \<noteq> 4 \<or> Is6 a \<and> f \<noteq> 6")
    case True
    with assms Some show ?thesis by (intro mismatch [of a]) (auto simp: peerIPLocked_def)
  next
    case False
    with assms Some show ?thesis by (intro literal [of a]) (auto simp: peerIPLocked_def)
  qed
qed

lemma peerIP_inv:
  assumes "peerIPLocked pr f bk = (r, bk')" "book_inv bk" "is_canonical bk pr"
  shows "book_inv bk'"
  using assms(1)
proof (cases rule: peerIP_cases)
  case (literal a)
  then have "bk' = bk" using assms(3) by (simp add: is_canonical_def map_upd_triv)
  with assms(2) show ?thesis by simp
next
  case exhausted
  with assms(2) allocate_none [of f bk bk'] show ?thesis by (simp add: book_inv_def)
next
  case (fresh a bk1)
  note al = allocate_free [OF fresh(3)]
  show ?thesis
    unfolding book_inv_def
  proof (intro allI impI)
    fix p g i
    assume i: "peerIPs bk' p g = Some i"
    show "ipOwners bk' (Addr_String (netip_of i)) = Some p \<and> parseLiteralIP p = None"
    proof (cases "p = pr \<and> g = f")
      case True
      with i fresh al show ?thesis by simp
    next
      case False
      with i fresh al have "peerIPs bk p g = Some i" by (auto split: if_splits)
      with assms(2) have "ipOwners bk (Addr_String (netip_of i)) = Some p \<and> parseLiteralIP p = None"
        by (simp add: book_inv_def)
      with fresh al show ?thesis by auto
    qed
  qed
qed (use assms(2) in simp_all)

text \<open>Asking again for the same peer and family gives the same address and changes nothing.\<close>

lemma peerIP_stable:
  assumes "peerIPLocked pr f bk = (Inr i, bk')"
  shows "peerIPLocked pr f bk' = (Inr i, bk')"
  using assms
proof (cases rule: peerIP_cases)
  case (literal a)
  with assms show ?thesis by (auto simp: peerIPLocked_def split: if_splits)
qed (auto simp: peerIPLocked_def)

lemma peerIP_owned:
  assumes "peerIPLocked pr f bk = (Inr i, bk')" "book_inv bk" "parseLiteralIP pr = None"
  shows "peerIPs bk' pr f = Some i \<and> ipOwners bk' (Addr_String (netip_of i)) = Some pr"
  using assms(1)
proof (cases rule: peerIP_cases)
  case (known j)
  with assms(2) show ?thesis by (auto simp: book_inv_def)
next
  case (fresh a bk1)
  with allocate_free [OF fresh(3)] show ?thesis by simp
qed (use assms(3) in simp_all)

text \<open>What a later call leaves of an address handed out before.\<close>

lemma peerIP_keeps:
  assumes "peerIPLocked pr f bk = (r, bk')" "peerIPs bk q g = Some i"
  shows "peerIPs bk' q g = Some i"
  using assms(1)
proof (cases rule: peerIP_cases)
  case exhausted
  with allocate_none [of f bk bk'] assms(2) show ?thesis by simp
next
  case (fresh a bk1)
  with allocate_free [OF fresh(3)] assms(2) show ?thesis by auto
qed (use assms(2) in simp_all)

section \<open>The addresses handed out\<close>

text \<open>A literal in canonical form is read back as itself.\<close>

lemma parse_well_sized:
  assumes "well_sized a" "\<And>b z. a = Addr6 b z \<Longrightarrow> take 12 b \<noteq> v4_in_v6_prefix"
  shows "parseLiteralIP (Addr_String a) = Some a"
proof (cases a)
  case (Addr4 b)
  with assms obtain i j k l where "b = [i, j, k, l]"
    by (auto simp: well_sized_def numeral_eq_Suc length_Suc_conv)
  then show ?thesis using Addr4 by (simp add: parseLiteralIP_def ParseAddr_v4)
next
  case (Addr6 b z)
  with assms have b: "length b = 16" "take 12 b \<noteq> v4_in_v6_prefix" by (simp_all add: well_sized_def)
  from ParseAddr_v6 [OF this, of z] show ?thesis
    unfolding Addr6 parseLiteralIP_def by (simp add: b(2) del: Addr_String.simps)
qed

lemma literal_own:
  assumes "parseLiteralIP h = Some a"
  shows "parseLiteralIP (Addr_String a) = Some a"
proof -
  from assms obtain a0 where a0: "ParseAddr h = Some a0" "a = Unmap a0" by (auto simp: parseLiteralIP_def)
  from ParseAddr_well_sized [OF a0(1)] a0(2) show ?thesis
    by (intro parse_well_sized) (cases a0; auto simp: well_sized_def split: if_splits)+
qed

lemma candidate6_unmapped: "take 12 ([0xfd, 0, 0, 0, 0, 0, 0, 0] @ be64 v) \<noteq> v4_in_v6_prefix"
proof
  assume "take 12 ([0xfd, 0, 0, 0, 0, 0, 0, 0] @ be64 v) = v4_in_v6_prefix"
  then have "hd (take 12 ([0xfd, 0, 0, 0, 0, 0, 0, 0] @ be64 v)) = hd v4_in_v6_prefix" by (rule arg_cong)
  then show False by (simp add: v4_in_v6_prefix_def hd_append)
qed

lemma candidate_parse:
  "parseLiteralIP (Addr_String (candidate4 k)) = Some (candidate4 k)"
  "parseLiteralIP (Addr_String (candidate6 v)) = Some (candidate6 v)"
  by (rule parse_well_sized; simp add: candidate4_def candidate6_def well_sized_def length_be64 candidate6_unmapped [simplified])+

text \<open>
  The synthetic ranges: \<open>198.18.0.0/15\<close> for the IPv4 family and \<open>fd00::/64\<close> for the other.
\<close>

definition synthetic :: "nat \<Rightarrow> netIP \<Rightarrow> bool" where
  "synthetic f i \<longleftrightarrow>
     (if f = 4 then length i = 4 \<and> i ! 0 = 198 \<and> (i ! 1 = 18 \<or> i ! 1 = 19)
      else length i = 16 \<and> take 8 i = [0xfd, 0, 0, 0, 0, 0, 0, 0])"

definition range_inv :: "addressBook \<Rightarrow> bool" where
  "range_inv bk \<longleftrightarrow> (\<forall>p f i. peerIPs bk p f = Some i \<longrightarrow>
     synthetic f i \<and> parseLiteralIP (Addr_String (netip_of i)) = Some (netip_of i)
     \<and> IP_String i = Addr_String (netip_of i))"

lemma candidate4_range: "k < 2 ^ 17 \<Longrightarrow> synthetic 4 (AsSlice (candidate4 k))"
proof -
  assume "k < 2 ^ 17"
  then have "unat (drop_bit 16 k) < 2"
    by (simp add: drop_bit_eq_div word_less_nat_alt unat_div)
  then have "drop_bit 16 k = 0 \<or> drop_bit 16 k = 1"
    by (metis One_nat_def less_2_cases unat_1 unat_eq_zero word_unat_eq_iff)
  then show ?thesis by (auto simp: synthetic_def candidate4_def)
qed

lemma allocate_range:
  assumes "allocate f bk = (Some a, bk1)"
  shows "synthetic f (AsSlice a) \<and> parseLiteralIP (Addr_String a) = Some a \<and> IP_String (AsSlice a) = Addr_String a"
proof (cases "f = 4")
  case True
  with assms obtain v where "alloc4 (ipOwners bk) (nextIPv4 bk) = (Some a, v)"
    by (auto simp: allocate_def split: prod.splits)
  from alloc4_spec [OF this] obtain k where "k < 2 ^ 17" "a = candidate4 k" by auto
  with True candidate4_range [of k] candidate_parse(1) [of k] show ?thesis
    by (simp add: candidate4_def IP_String_def)
next
  case False
  with assms obtain v where "alloc6 (ipOwners bk) (nextIPv6 bk) = (Some a, v)"
    by (auto simp: allocate_def split: prod.splits)
  from alloc6_free [OF this] obtain k where a: "a = candidate6 k" by auto
  have "synthetic f (AsSlice a)" using False by (simp add: a synthetic_def candidate6_def length_be64)
  moreover have "IP_String (AsSlice a) = Addr_String a"
    by (simp add: a IP_String_def candidate6_def length_be64 candidate6_unmapped [simplified])
  ultimately show ?thesis using candidate_parse(2) [of k] a by simp
qed

lemma peerIP_range:
  assumes "peerIPLocked pr f bk = (r, bk')" "range_inv bk"
  shows "range_inv bk'"
  using assms(1)
proof (cases rule: peerIP_cases)
  case exhausted
  with assms(2) allocate_none [of f bk bk'] show ?thesis by (simp add: range_inv_def)
next
  case (fresh a bk1)
  note al = allocate_free [OF fresh(3)] allocate_range [OF fresh(3)]
  show ?thesis
    unfolding range_inv_def
  proof (intro allI impI)
    fix p g i
    assume i: "peerIPs bk' p g = Some i"
    show "synthetic g i \<and> parseLiteralIP (Addr_String (netip_of i)) = Some (netip_of i)
        \<and> IP_String i = Addr_String (netip_of i)"
    proof (cases "p = pr \<and> g = f")
      case True
      with i fresh al show ?thesis by simp
    next
      case False
      with i fresh al have "peerIPs bk p g = Some i" by (auto split: if_splits)
      with assms(2) show ?thesis by (simp add: range_inv_def)
    qed
  qed
qed (use assms(2) in \<open>simp_all add: range_inv_def\<close>)

section \<open>Canonical names stay canonical\<close>

lemma canonical_is_canonical:
  assumes "canonicalPeerLocked h bk = (p, bk')" "\<And>k q. ipOwners bk k = Some q \<Longrightarrow> is_canonical bk q"
  shows "is_canonical bk' p"
proof (cases "parseLiteralIP h")
  case None
  with assms(1) show ?thesis by (simp add: canonicalPeerLocked_def is_canonical_def)
next
  case (Some a)
  show ?thesis
  proof (cases "ipOwners bk (Addr_String a)")
    case None
    with assms(1) Some literal_own [OF Some] show ?thesis
      by (auto simp: canonicalPeerLocked_def is_canonical_def Let_def)
  next
    case (Some q)
    with assms \<open>parseLiteralIP h = Some a\<close> show ?thesis
      by (auto simp: canonicalPeerLocked_def Let_def)
  qed
qed

lemma canonical_cases:
  assumes "canonicalPeerLocked h bk = (p, bk')"
  obtains "bk' = bk"
  | a where "parseLiteralIP h = Some a" "ipOwners bk (Addr_String a) = None" "p = Addr_String a"
      "bk' = bk\<lparr>ipOwners := (ipOwners bk)(Addr_String a \<mapsto> p)\<rparr>"
proof (cases "parseLiteralIP h")
  case None
  with assms show ?thesis by (intro that(1)) (simp add: canonicalPeerLocked_def)
next
  case (Some a)
  with assms show ?thesis
    by (cases "ipOwners bk (Addr_String a)") (auto simp: canonicalPeerLocked_def Let_def intro: that)
qed

definition owners_inv :: "addressBook \<Rightarrow> bool" where
  "owners_inv bk \<longleftrightarrow> (\<forall>k q. ipOwners bk k = Some q \<longrightarrow> is_canonical bk q)"

lemma owners_upd:
  assumes "owners_inv bk" "ipOwners bk k = None \<or> ipOwners bk k = Some q" "is_canonical (bk\<lparr>ipOwners := (ipOwners bk)(k \<mapsto> q)\<rparr>) q"
    "ipOwners bk' = (ipOwners bk)(k \<mapsto> q)"
  shows "owners_inv bk'" "is_canonical bk p \<Longrightarrow> is_canonical bk' p"
proof -
  show mono: "is_canonical bk' p" if "is_canonical bk p" for p
    using that assms(2,4) by (auto simp: is_canonical_def)
  show "owners_inv bk'"
    unfolding owners_inv_def
  proof (intro allI impI)
    fix k' q' assume "ipOwners bk' k' = Some q'"
    then have "q' = q \<or> ipOwners bk k' = Some q'" unfolding assms(4) by (simp split: if_splits)
    then show "is_canonical bk' q'"
    proof
      assume "q' = q"
      with assms(3,4) show ?thesis by (simp add: is_canonical_def)
    next
      assume "ipOwners bk k' = Some q'"
      with assms(1) mono show ?thesis by (simp add: owners_inv_def)
    qed
  qed
qed

lemma canonical_owners:
  assumes "canonicalPeerLocked h bk = (p, bk')" "owners_inv bk"
  shows "owners_inv bk' \<and> is_canonical bk' p \<and> (\<forall>q. is_canonical bk q \<longrightarrow> is_canonical bk' q)"
proof -
  have can: "is_canonical bk' p"
    using canonical_is_canonical [OF assms(1)] assms(2) by (simp add: owners_inv_def)
  show ?thesis
  proof (cases rule: canonical_cases [OF assms(1)])
    case (2 a)
    with can have "is_canonical (bk\<lparr>ipOwners := (ipOwners bk)(Addr_String a \<mapsto> p)\<rparr>) p" by simp
    from owners_upd [OF assms(2) _ this, of bk'] can 2 show ?thesis by simp
  qed (use assms(2) can in simp)
qed

lemma peerIP_owners:
  assumes "peerIPLocked pr f bk = (r, bk')" "owners_inv bk" "is_canonical bk pr"
  shows "owners_inv bk' \<and> (\<forall>q. is_canonical bk q \<longrightarrow> is_canonical bk' q)"
  using assms(1)
proof (cases rule: peerIP_cases)
  case (literal a)
  then have "bk' = bk" using assms(3) by (simp add: is_canonical_def map_upd_triv)
  with assms(2) show ?thesis by simp
next
  case exhausted
  with allocate_none [of f bk bk'] assms(2) show ?thesis by (simp add: owners_inv_def is_canonical_def)
next
  case (fresh a bk1)
  note al = allocate_free [OF fresh(3)]
  have "ipOwners bk' = (ipOwners bk)(Addr_String a \<mapsto> pr)" using fresh(5) al(2) by simp
  with owners_upd [OF assms(2), of "Addr_String a" pr bk'] al(1) fresh(1) show ?thesis
    by (auto simp: is_canonical_def)
qed (use assms(2) in simp_all)

section \<open>The book under all its operations\<close>

text \<open>
  What the network asks of the book: a canonical name, or the address of a name that was made
  canonical first.
\<close>

datatype book_op = BookName string | BookIP string nat

fun book_step :: "book_op \<Rightarrow> addressBook \<Rightarrow> addressBook" where
  "book_step (BookName h) bk = snd (canonicalPeerLocked h bk)"
| "book_step (BookIP h f) bk =
     (let (p, bk1) = canonicalPeerLocked h bk in snd (peerIPLocked p f bk1))"

definition book_ok :: "addressBook \<Rightarrow> bool" where
  "book_ok bk \<longleftrightarrow> book_inv bk \<and> range_inv bk \<and> owners_inv bk"

lemma book_ok_empty: "book_ok emptyBook"
  unfolding book_ok_def by (intro conjI book_inv_empty) (simp_all add: range_inv_def owners_inv_def emptyBook_def)

lemma canonical_peerIPs: "canonicalPeerLocked h bk = (p, bk') \<Longrightarrow> peerIPs bk' = peerIPs bk"
  by (auto simp: canonicalPeerLocked_def Let_def split: option.splits)

lemma canonical_ok: "canonicalPeerLocked h bk = (p, bk') \<Longrightarrow> book_ok bk \<Longrightarrow> book_ok bk' \<and> is_canonical bk' p"
  using canonical_inv [of bk h] canonical_owners [of h bk p bk'] canonical_peerIPs [of h bk p bk']
  by (simp add: book_ok_def range_inv_def)

lemma peerIP_ok:
  "peerIPLocked p f bk = (r, bk') \<Longrightarrow> book_ok bk \<Longrightarrow> is_canonical bk p \<Longrightarrow> book_ok bk'"
  using peerIP_inv peerIP_range peerIP_owners by (simp add: book_ok_def)

lemma book_step_ok: "book_ok bk \<Longrightarrow> book_ok (book_step op bk)"
proof (induction op)
  case (BookName h)
  then show ?case by (cases "canonicalPeerLocked h bk") (simp add: canonical_ok)
next
  case (BookIP h f)
  obtain p bk1 where c: "canonicalPeerLocked h bk = (p, bk1)" by fastforce
  obtain r bk2 where "peerIPLocked p f bk1 = (r, bk2)" by fastforce
  with c canonical_ok [OF c BookIP] show ?case by (simp add: peerIP_ok)
qed

lemma book_step_keeps:
  assumes "peerIPs bk q g = Some i"
  shows "peerIPs (book_step op bk) q g = Some i"
proof (cases op)
  case (BookName h)
  with assms show ?thesis by (cases "canonicalPeerLocked h bk") (simp add: canonical_peerIPs)
next
  case (BookIP h f)
  obtain p bk1 where c: "canonicalPeerLocked h bk = (p, bk1)" by fastforce
  obtain r bk2 where r: "peerIPLocked p f bk1 = (r, bk2)" by fastforce
  from BookIP c r peerIP_keeps [OF r, of q g i] canonical_peerIPs [OF c] assms show ?thesis by simp
qed

lemma book_run_ok: "book_ok bk \<Longrightarrow> book_ok (fold book_step ops bk)"
  by (induction ops arbitrary: bk) (simp_all add: book_step_ok)

lemma book_run_keeps: "peerIPs bk q g = Some i \<Longrightarrow> peerIPs (fold book_step ops bk) q g = Some i"
  by (induction ops arbitrary: bk) (simp_all add: book_step_keeps)

text \<open>The address of a name, typed as a host, is an alias of the name.\<close>

lemma alias_name:
  assumes "book_ok bk" "peerIPs bk p f = Some i"
  shows "canonicalPeerLocked (IP_String i) bk = (p, bk)"
proof -
  from assms have "ipOwners bk (Addr_String (netip_of i)) = Some p"
    "parseLiteralIP (Addr_String (netip_of i)) = Some (netip_of i)" "IP_String i = Addr_String (netip_of i)"
    by (auto simp: book_ok_def book_inv_def range_inv_def)
  then show ?thesis by (simp add: canonicalPeerLocked_def)
qed

section \<open>Properties\<close>

text \<open>
  C23. The address book, after any calls from an empty one. A name that gets an address of a
  family gets one in the synthetic range of that family, which no other name has or will ever
  have; asking again, whatever was asked between, gives the same address and changes nothing;
  and the printed address, used as a host, means that name.
\<close>

theorem address_book:
  assumes "canonicalPeerLocked h (fold book_step ops emptyBook) = (p, bk1)"
    and "peerIPLocked p f bk1 = (Inr i, bk2)" and "parseLiteralIP p = None"
    and "bk = fold book_step later bk2"
  shows "synthetic f i \<and> peerIPLocked p f bk = (Inr i, bk) \<and> canonicalPeerLocked (IP_String i) bk = (p, bk)
    \<and> (\<forall>q g. peerIPs bk q g = Some i \<longrightarrow> q = p)"
proof -
  have ok1: "book_ok bk1" "is_canonical bk1 p"
    using canonical_ok [OF assms(1) book_run_ok [OF book_ok_empty]] by simp_all
  note ok2 = peerIP_ok [OF assms(2) ok1]
  have ok: "book_ok bk" unfolding assms(4) by (rule book_run_ok [OF ok2])
  have "peerIPs bk2 p f = Some i"
    using peerIP_owned [OF assms(2) _ assms(3)] ok1(1) by (simp add: book_ok_def)
  then have i: "peerIPs bk p f = Some i" unfolding assms(4) by (rule book_run_keeps)
  with ok have "synthetic f i" by (simp add: book_ok_def range_inv_def)
  moreover have "peerIPLocked p f bk = (Inr i, bk)" using i assms(3) by (simp add: peerIPLocked_def)
  moreover have "q = p" if "peerIPs bk q g = Some i" for q g
    using book_inv_inj [OF _ that i] ok by (simp add: book_ok_def)
  ultimately show ?thesis using alias_name [OF ok i] by blast
qed


text \<open>Two names on a fresh network: the second does not disturb the first.\<close>

lemma first_address:
  "parseLiteralIP ''a'' = None"
  "peerIPLocked ''a'' 4 emptyBook
     = (Inr [198, 18, 0, 0],
        \<lparr>ipOwners = [Addr_String (candidate4 0) \<mapsto> ''a''], peerIPs = (\<lambda>_. Map.empty)(''a'' := [4 \<mapsto> [198, 18, 0, 0]]),
         nextIPv4 = 1, nextIPv6 = 0\<rparr>)"
proof -
  show a: "parseLiteralIP ''a'' = None" by code_simp
  have "alloc4 Map.empty 0 = (Some (candidate4 0), 1)" by (subst alloc4.simps) simp
  then show "peerIPLocked ''a'' 4 emptyBook
     = (Inr [198, 18, 0, 0],
        \<lparr>ipOwners = [Addr_String (candidate4 0) \<mapsto> ''a''], peerIPs = (\<lambda>_. Map.empty)(''a'' := [4 \<mapsto> [198, 18, 0, 0]]),
         nextIPv4 = 1, nextIPv6 = 0\<rparr>)"
    by (simp add: peerIPLocked_def a emptyBook_def allocate_def candidate4_def)
qed

theorem address_book_witness:
  "\<exists>bk. peerIPLocked ''a'' 4 (book_step (BookIP ''b'' 4) bk) = (Inr [198, 18, 0, 0], book_step (BookIP ''b'' 4) bk)
     \<and> canonicalPeerLocked ''198.18.0.0'' (book_step (BookIP ''b'' 4) bk) = (''a'', book_step (BookIP ''b'' 4) bk)"
proof -
  have "canonicalPeerLocked ''a'' (fold book_step [] emptyBook) = (''a'', emptyBook)"
    by (simp add: canonical_name first_address(1))
  moreover have "IP_String [198, 18, 0, 0] = ''198.18.0.0''" by code_simp
  ultimately show ?thesis
    using address_book [OF _ first_address(2) first_address(1), of "''a''" "[]" _ "[BookIP ''b'' 4]", OF _ refl]
    by auto
qed

end
