(* ===== verification/Network.thy ===== *)
theory Network
  imports Conn Addressing
begin

text \<open>
  The network (\<open>netchaos.go\<close>, the methods of \<open>partition.go\<close> and \<open>reset.go\<close>): construction,
  \<open>Listen\<close>, the phases of \<open>DialContext\<close>, the live setters and the partition and reset calls. The
  source releases its mutex between the phases of a dial, so each phase is a function of its
  own; \<open>dial\<close> is their composition when nothing comes between.
\<close>

section \<open>State\<close>

text \<open>
  Listeners live in the heap like connections. \<open>listeners\<close> maps a peer to its ports: the inner
  Go map is an association list, and a peer without an inner map has the empty list.
\<close>

record world = store +
  seed :: int
  w_traceEnabled :: bool
  lsts :: "nat \<Rightarrow> listener"
  next_lst :: nat
  listeners :: "string \<Rightarrow> (int \<times> nat) list"
  nextOrdinal :: u64
  book :: addressBook
  nextListenPort :: int
  nextWildcard :: u64
  w_pipeBound :: int
  w_listenerBacklog :: int
  traces :: "(u64 \<times> connSide \<times> nat) list"

definition canonicalPeer :: "string \<Rightarrow> world \<Rightarrow> string \<times> world" where
  "canonicalPeer host w =
     (let (p, bk) = canonicalPeerLocked host (book w) in (p, w\<lparr>book := bk\<rparr>))"

text \<open>The key of a pair of names, both made canonical, the first one first.\<close>

definition resolvePair :: "string \<Rightarrow> string \<Rightarrow> world \<Rightarrow> pairKey \<times> world" where
  "resolvePair a b w =
     (let (ka, w1) = canonicalPeer (peerName a) w;
          (kb, w2) = canonicalPeer (peerName b) w1
      in (newPairKey ka kb, w2))"

section \<open>Construction\<close>

text \<open>What is in a heap nobody has allocated in is never looked at.\<close>

definition unusedConn :: conn where
  "unusedConn = newConn \<lparr>a_network = [], peer = [], port = 0, ip = None\<rparr>
                        \<lparr>a_network = [], peer = [], port = 0, ip = None\<rparr> [] 0 sideDialer 0 0"

definition emptyWorld :: "time \<Rightarrow> networkConfig \<Rightarrow> world" where
  "emptyWorld now cfg =
     \<lparr>clock = now, parts = \<lparr>partitions = {}, partNotify = 0\<rparr>, faults = faultConfig.truncate cfg,
      resetTargets = (\<lambda>_. []), pipes = (\<lambda>_. newPipe 0), conns = (\<lambda>_. unusedConn),
      next_pipe = 0, next_conn = 0,
      seed = cfg_seed cfg, w_traceEnabled = cfg_traceEnabled cfg,
      lsts = (\<lambda>_. newListener \<lparr>a_network = [], peer = [], port = 0, ip = None\<rparr> 0), next_lst = 0,
      listeners = (\<lambda>_. []), nextOrdinal = 0, book = emptyBook,
      nextListenPort = listenPortBase, nextWildcard = 0,
      w_pipeBound = (if pipeBoundEnabled cfg then cfg_pipeBound cfg else defaultPipeBound),
      w_listenerBacklog = (if listenerBacklogEnabled cfg then cfg_listenerBacklog cfg else listenerBacklogDefault),
      traces = []\<rparr>"

definition addStaticPartition :: "partitionPair \<Rightarrow> world \<Rightarrow> world" where
  "addStaticPartition p w =
     (let (k, w1) = resolvePair (peerA p) (peerB p) w
      in w1\<lparr>parts := (parts w1)\<lparr>partitions := insert k (partitions (parts w1))\<rparr>\<rparr>)"

definition NewNetwork :: "time \<Rightarrow> netOption option list \<Rightarrow> panic + world" where
  "NewNetwork now opts =
     (case applyOptions 0 opts initialConfig of
        Inl p \<Rightarrow> Inl p
      | Inr cfg \<Rightarrow>
          (case config_validate cfg of
             Some p \<Rightarrow> Inl p
           | None \<Rightarrow> Inr (fold addStaticPartition (staticPartitions cfg) (emptyWorld now cfg))))"

section \<open>Listening\<close>

text \<open>The search for a free port: at most one lap of the range from the counter on.\<close>

fun listen_port_loop :: "nat \<Rightarrow> (int \<times> nat) list \<Rightarrow> int \<Rightarrow> int \<Rightarrow> int \<times> int" where
  "listen_port_loop 0 taken p nxt = (p, nxt)"
| "listen_port_loop (Suc attempts) taken p nxt =
     (let p' = nxt;
          nxt' = (if maxPort < nxt + 1 then listenPortBase else nxt + 1)
      in if map_of taken p' = None then (p', nxt')
         else listen_port_loop attempts taken p' nxt')"

definition listen_attempts :: nat where
  "listen_attempts = nat (maxPort - listenPortBase + 1)"

definition register_listener :: "string \<Rightarrow> string \<Rightarrow> int \<Rightarrow> netIP \<Rightarrow> world \<Rightarrow> nat \<times> world" where
  "register_listener network pr p i w =
     (let l = newListener \<lparr>a_network = network, peer = pr, port = p, ip = Some i\<rparr> (w_listenerBacklog w)
      in (next_lst w,
          w\<lparr>lsts := (lsts w)(next_lst w := l), next_lst := Suc (next_lst w),
            listeners := (listeners w)(pr := AList.update p (next_lst w) (listeners w pr))\<rparr>))"

text \<open>From the point where the peer is canonical.\<close>

definition listen_at :: "string \<Rightarrow> string \<Rightarrow> string \<Rightarrow> int \<Rightarrow> bool \<Rightarrow> world \<Rightarrow> (go_error + nat) \<times> world" where
  "listen_at network laddr pr p0 explicit w0 =
     (let (p, w1) =
            (if explicit then (p0, w0)
             else let (p, nxt) = listen_port_loop listen_attempts (listeners w0 pr) p0 (nextListenPort w0)
                  in (p, w0\<lparr>nextListenPort := nxt\<rparr>))
      in if map_of (listeners w1 pr) p \<noteq> None
         then (Inl (listenOpError network laddr ErrAddressInUse), w1)
         else case peerIPLocked pr (addressFamily network pr) (book w1) of
                (Inl err, bk) \<Rightarrow> (Inl (listenOpError network laddr err), w1\<lparr>book := bk\<rparr>)
              | (Inr i, bk) \<Rightarrow>
                  let (lid, w2) = register_listener network pr p i (w1\<lparr>book := bk\<rparr>) in (Inr lid, w2))"

definition Listen :: "string \<Rightarrow> string \<Rightarrow> world \<Rightarrow> (go_error + nat) \<times> world" where
  "Listen network laddr w =
     (case validateNetwork network of
        Some err \<Rightarrow> (Inl (listenOpError network laddr err), w)
      | None \<Rightarrow>
          case splitAddr laddr of
            Inl e \<Rightarrow> (Inl (listenOpError network laddr (AddrErr e)), w)
          | Inr (host, p, explicit) \<Rightarrow>
              let (pr, w1) =
                    (if host = []
                     then (wildcardPeerName (unat (nextWildcard w)), w\<lparr>nextWildcard := nextWildcard w + 1\<rparr>)
                     else (host, w));
                  conflict =
                    (case parseLiteralIP pr of
                       None \<Rightarrow> False
                     | Some a \<Rightarrow>
                         (case ipOwners (book w1) (Addr_String a) of
                            None \<Rightarrow> False
                          | Some owner \<Rightarrow> owner \<noteq> Addr_String a))
              in if conflict then (Inl (listenOpError network laddr ErrAddressInUse), w1)
                 else let (pr', w2) = canonicalPeer pr w1 in listen_at network laddr pr' p explicit w2)"

definition deregister :: "addr \<Rightarrow> world \<Rightarrow> world" where
  "deregister a w = w\<lparr>listeners := (listeners w)(peer a := AList.delete (port a) (listeners w (peer a)))\<rparr>"

text \<open>\<open>listener.Close\<close> run alone: the flag, the registration, then the drain.\<close>

definition listener_Close_mark :: "nat \<Rightarrow> world \<Rightarrow> bool \<times> world" where
  "listener_Close_mark lid w =
     (let (first, l) = listener_mark_closed (lsts w lid)
      in if first then (True, deregister (l_addr l) (w\<lparr>lsts := (lsts w)(lid := l)\<rparr>)) else (False, w))"

definition listener_Close_drain :: "nat \<Rightarrow> world \<Rightarrow> world" where
  "listener_Close_drain lid w =
     (let (cs, l) = listener_drain (lsts w lid)
      in fold conn_Close cs (w\<lparr>lsts := (lsts w)(lid := l)\<rparr>))"

definition listener_Close :: "nat \<Rightarrow> world \<Rightarrow> world" where
  "listener_Close lid w =
     (let (first, w1) = listener_Close_mark lid w
      in if first then listener_Close_drain lid w1 else w1)"

text \<open>\<open>listener.Addr\<close>, as a TCP address.\<close>

definition listener_Addr :: "nat \<Rightarrow> world \<Rightarrow> netIP option \<times> int" where
  "listener_Addr lid w = tcpAddr (l_addr (lsts w lid))"

definition Accept_outcomes :: "nat \<Rightarrow> world \<Rightarrow> (accepted \<times> world) list" where
  "Accept_outcomes lid w =
     map (\<lambda>(r, l). (r, w\<lparr>lsts := (lsts w)(lid := l)\<rparr>)) (accept_outcomes (lsts w lid))"

section \<open>Dialing\<close>

text \<open>What a dial uses of its context: its error, if it is done, and the name the dialer gave.\<close>

record dialCtx =
  ctx_err :: "go_error option"
  ctx_peer :: "string option"

definition backgroundCtx :: dialCtx where
  "backgroundCtx = \<lparr>ctx_err = None, ctx_peer = None\<rparr>"

definition WithPeerName :: "string \<Rightarrow> dialCtx \<Rightarrow> dialCtx" where
  "WithPeerName name ctx = ctx\<lparr>ctx_peer := Some name\<rparr>"

record dialTarget =
  dt_network :: string
  dt_addr :: string
  dt_peer :: string
  dt_port :: int
  dt_explicit :: bool
  dt_ip :: "netip option"
  dt_local :: "string option" \<comment> \<open>the canonical name, when the dialer named itself\<close>

definition missing_host :: "string \<Rightarrow> go_error" where
  "missing_host dialAddr = AddrErr \<lparr>ae_err = ''missing host'', ae_addr = dialAddr\<rparr>"

text \<open>
  Up to the partition gate: the checks and the peer's canonical name, then the dialer's own
  name, each resolved under the mutex on its own.
\<close>

definition dial_resolve :: "dialCtx \<Rightarrow> string \<Rightarrow> string \<Rightarrow> world \<Rightarrow> (go_error + dialTarget) \<times> world" where
  "dial_resolve ctx network dialAddr w =
     (case ctx_err ctx of
        Some err \<Rightarrow> (Inl (dialOpError network dialAddr err), w)
      | None \<Rightarrow>
      case validateNetwork network of
        Some err \<Rightarrow> (Inl (dialOpError network dialAddr err), w)
      | None \<Rightarrow>
      case splitAddr dialAddr of
        Inl e \<Rightarrow> (Inl (dialOpError network dialAddr (AddrErr e)), w)
      | Inr (host, p, explicit) \<Rightarrow>
          if host = [] then (Inl (dialOpError network dialAddr (missing_host dialAddr)), w)
          else
            let (pr, w1) = canonicalPeer host w
            in (Inr \<lparr>dt_network = network, dt_addr = dialAddr, dt_peer = pr, dt_port = p,
                     dt_explicit = explicit, dt_ip = parseLiteralIP host, dt_local = None\<rparr>, w1))"

definition dial_self :: "dialCtx \<Rightarrow> dialTarget \<Rightarrow> world \<Rightarrow> dialTarget \<times> world" where
  "dial_self ctx t w =
     (case ctx_peer ctx of
        None \<Rightarrow> (t, w)
      | Some name \<Rightarrow> let (c, w1) = canonicalPeer (peerName name) w in (t\<lparr>dt_local := Some c\<rparr>, w1))"

definition dial_prepare :: "dialCtx \<Rightarrow> string \<Rightarrow> string \<Rightarrow> world \<Rightarrow> (go_error + dialTarget) \<times> world" where
  "dial_prepare ctx network dialAddr w =
     (case dial_resolve ctx network dialAddr w of
        (Inl e, w1) \<Rightarrow> (Inl e, w1)
      | (Inr t, w1) \<Rightarrow> let (t', w2) = dial_self ctx t w1 in (Inr t', w2))"

definition dialer_named :: "dialTarget \<Rightarrow> bool" where
  "dialer_named t \<longleftrightarrow> (case dt_local t of None \<Rightarrow> False | Some name \<Rightarrow> name \<noteq> [])"

text \<open>
  One turn of \<open>waitUnpartitioned\<close>: \<open>None\<close> lets the dial pass, \<open>Some ch\<close> is the channel it waits
  on. An unnamed dialer is not gated.
\<close>

definition dial_gate :: "dialTarget \<Rightarrow> world \<Rightarrow> nat option" where
  "dial_gate t w =
     (if dialer_named t
      then let (partitioned, ch) = checkPartition (newPairKey (the (dt_local t)) (dt_peer t)) (parts w)
           in if partitioned then Some ch else None
      else None)"

text \<open>
  The loop of \<open>waitUnpartitioned\<close> with its \<open>select\<close>: where a gated dial may go next, given the
  error of its context, if it is done. When both channels are ready either may be taken.
\<close>

datatype gate_pc = GateCheck | GateWait nat | GatePassed | GateFailed go_error

fun gate_next :: "go_error option \<Rightarrow> dialTarget \<Rightarrow> gate_pc \<Rightarrow> world \<Rightarrow> gate_pc list" where
  "gate_next done_err t GateCheck w =
     [case dial_gate t w of None \<Rightarrow> GatePassed | Some ch \<Rightarrow> GateWait ch]"
| "gate_next done_err t (GateWait ch) w =
     (if chan_closed ch (partNotify (parts w)) then [GateCheck] else [])
     @ (case done_err of
          None \<Rightarrow> []
        | Some e \<Rightarrow> [GateFailed (dialOpError (dt_network t) (dt_addr t) e)])"
| "gate_next done_err t pc w = []"

definition dial_matches :: "dialTarget \<Rightarrow> world \<Rightarrow> nat \<Rightarrow> bool" where
  "dial_matches t w lid \<longleftrightarrow>
     (let a = l_addr (lsts w lid)
      in \<not> (dt_network t \<noteq> ''tcp''
            \<and> addressFamily (dt_network t) (dt_peer t) \<noteq> addressFamily (a_network a) (peer a))
         \<and> \<not> (\<exists>ti \<in> set_option (dt_ip t). \<not> (\<exists>i \<in> set_option (ip a). IP_Equal i (AsSlice ti))))"

text \<open>Without a port the peer's only matching listener is meant; two of them refuse.\<close>

definition dial_lookup :: "dialTarget \<Rightarrow> world \<Rightarrow> nat option" where
  "dial_lookup t w =
     (if dt_explicit t
      then (case map_of (listeners w (dt_peer t)) (dt_port t) of
              None \<Rightarrow> None
            | Some lid \<Rightarrow> if dial_matches t w lid then Some lid else None)
      else (case filter (dial_matches t w) (map snd (listeners w (dt_peer t))) of
              [lid] \<Rightarrow> Some lid
            | _ \<Rightarrow> None))"

definition dial_reserve :: "nat \<Rightarrow> world \<Rightarrow> go_error option \<times> world" where
  "dial_reserve lid w = (let (r, l) = reserve (lsts w lid) in (r, w\<lparr>lsts := (lsts w)(lid := l)\<rparr>))"

definition dial_ordinal :: "world \<Rightarrow> u64 \<times> world" where
  "dial_ordinal w = (nextOrdinal w, w\<lparr>nextOrdinal := nextOrdinal w + 1\<rparr>)"

definition dial_local_name :: "dialTarget \<Rightarrow> u64 \<Rightarrow> string" where
  "dial_local_name t ordinal =
     (if dialer_named t then the (dt_local t) else ephemeralPeerName (unat ordinal))"

definition dial_local_ip :: "dialTarget \<Rightarrow> u64 \<Rightarrow> nat \<Rightarrow> world \<Rightarrow> (go_error + netIP) \<times> world" where
  "dial_local_ip t ordinal lid w =
     (let a = l_addr (lsts w lid);
          (r, bk) = peerIPLocked (dial_local_name t ordinal) (addressFamily (a_network a) (peer a)) (book w)
      in (r, w\<lparr>book := bk\<rparr>))"

definition registerTrace :: "u64 \<Rightarrow> connSide \<Rightarrow> nat \<Rightarrow> world \<Rightarrow> world" where
  "registerTrace ordinal side rec w = w\<lparr>traces := traces w @ [(ordinal, side, rec)]\<rparr>"

text \<open>
  The pair of connections with its fault policy, registered for resets under one lock, and then
  the registration of each direction's recorder.
\<close>

definition dial_wire :: "dialTarget \<Rightarrow> u64 \<Rightarrow> netIP \<Rightarrow> nat \<Rightarrow> world \<Rightarrow> (nat \<times> nat) \<times> world" where
  "dial_wire t ordinal localIP lid w =
     (let name = dial_local_name t ordinal;
          la = l_addr (lsts w lid);
          loc = \<lparr>a_network = dt_network t, peer = name, port = ephemeralPort (unat ordinal), ip = Some localIP\<rparr>;
          rem = \<lparr>a_network = dt_network t, peer = dt_peer t, port = port la, ip = ip la\<rparr>;
          ((client, server), w1) =
            newConnPairWithSeedAndTrace loc rem ordinal (dt_network t) (w_pipeBound w) (seed w) (w_traceEnabled w) w;
          fp = \<lparr>fp_network = True, fp_pair = newPairKey name (dt_peer t), fp_static = noFaults\<rparr>;
          w2 = upd_pipe (writePipe (conns w1 server)) (installFaultPolicy fp)
                 (upd_pipe (writePipe (conns w1 client)) (installFaultPolicy fp) w1);
          w3 = upd_conn client (\<lambda>c. c\<lparr>c_nw := True, c_pair := fp_pair fp\<rparr>) w2;
          w4 = upd_conn server (\<lambda>c. c\<lparr>c_nw := True, c_pair := fp_pair fp\<rparr>) w3
      in ((client, server), registerReset (fp_pair fp) [client, server] w4))"

definition dial_connect :: "dialTarget \<Rightarrow> u64 \<Rightarrow> netIP \<Rightarrow> nat \<Rightarrow> world \<Rightarrow> (nat \<times> nat) \<times> world" where
  "dial_connect t ordinal localIP lid w =
     (let ((client, server), w1) = dial_wire t ordinal localIP lid w
      in ((client, server),
          if w_traceEnabled w1
          then registerTrace ordinal sideAcceptor (writePipe (conns w1 server))
                 (registerTrace ordinal sideDialer (writePipe (conns w1 client)) w1)
          else w1))"

text \<open>\<open>l.fill(server)\<close>; \<open>None\<close> is the send that blocks.\<close>

definition dial_fill :: "nat \<Rightarrow> nat \<Rightarrow> world \<Rightarrow> world option" where
  "dial_fill lid server w =
     (case fill server (lsts w lid) of
        None \<Rightarrow> None
      | Some (cs, l) \<Rightarrow> Some (fold conn_Close cs (w\<lparr>lsts := (lsts w)(lid := l)\<rparr>)))"

datatype dial_result = Dialed nat | DialFailed go_error | DialWaits nat

text \<open>A dial past the gate that nothing interferes with.\<close>

definition dial_establish :: "dialTarget \<Rightarrow> world \<Rightarrow> (dial_result \<times> world) option" where
  "dial_establish t w =
     (let err = dialOpError (dt_network t) (dt_addr t)
      in case dial_lookup t w of
           None \<Rightarrow> Some (DialFailed (err ErrConnectionRefused), w)
         | Some lid \<Rightarrow>
             case dial_reserve lid w of
               (Some e, w1) \<Rightarrow> Some (DialFailed (err e), w1)
             | (None, w1) \<Rightarrow>
                 let (ordinal, w2) = dial_ordinal w1
                 in case dial_local_ip t ordinal lid w2 of
                      (Inl e, w3) \<Rightarrow> Some (DialFailed (err e), w3)
                    | (Inr i, w3) \<Rightarrow>
                        let ((client, server), w4) = dial_connect t ordinal i lid w3
                        in map_option (Pair (Dialed client)) (dial_fill lid server w4))"

definition DialContext :: "dialCtx \<Rightarrow> string \<Rightarrow> string \<Rightarrow> world \<Rightarrow> (dial_result \<times> world) option" where
  "DialContext ctx network dialAddr w =
     (case dial_prepare ctx network dialAddr w of
        (Inl e, w1) \<Rightarrow> Some (DialFailed e, w1)
      | (Inr t, w1) \<Rightarrow>
          (case dial_gate t w1 of
             Some ch \<Rightarrow> Some (DialWaits ch, w1)
           | None \<Rightarrow> dial_establish t w1))"

definition Dial :: "string \<Rightarrow> string \<Rightarrow> world \<Rightarrow> (dial_result \<times> world) option" where
  "Dial network a w = DialContext backgroundCtx network a w"

section \<open>Dialers\<close>

record dialerConfig =
  timeout :: duration

definition WithDialTimeout :: "duration \<Rightarrow> panic + (dialerConfig \<Rightarrow> dialerConfig)" where
  "WithDialTimeout d = (if d \<le> 0 then Inl (PanicDialTimeout d) else Inr (\<lambda>c. c\<lparr>timeout := d\<rparr>))"

fun applyDialerOptions ::
  "nat \<Rightarrow> (dialerConfig \<Rightarrow> dialerConfig) option list \<Rightarrow> dialerConfig \<Rightarrow> panic + dialerConfig" where
  "applyDialerOptions i [] c = Inr c"
| "applyDialerOptions i (None # opts) c = Inl (PanicNilOption ''DialerFor'' i)"
| "applyDialerOptions i (Some f # opts) c = applyDialerOptions (Suc i) opts (f c)"

text \<open>
  The context of one call through a dialer and the instant it expires at, if it has a timeout.
\<close>

definition DialerFor ::
  "string \<Rightarrow> (dialerConfig \<Rightarrow> dialerConfig) option list \<Rightarrow> panic + (time \<Rightarrow> dialCtx \<times> time option)" where
  "DialerFor name opts =
     (case applyDialerOptions 0 opts \<lparr>timeout = 0\<rparr> of
        Inl p \<Rightarrow> Inl p
      | Inr cfg \<Rightarrow> Inr (\<lambda>now. (WithPeerName name backgroundCtx,
                                if 0 < timeout cfg then Some (time_add now (timeout cfg)) else None)))"

section \<open>Faults of a running network\<close>

definition Partition :: "string \<Rightarrow> string \<Rightarrow> world \<Rightarrow> panic + world" where
  "Partition a b w =
     (case validatePartitionPair ''Partition'' \<lparr>peerA = a, peerB = b\<rparr> of
        Some p \<Rightarrow> Inl p
      | None \<Rightarrow> let (k, w1) = resolvePair a b w in Inr (w1\<lparr>parts := partition_pair k (parts w1)\<rparr>))"

definition Heal :: "string \<Rightarrow> string \<Rightarrow> world \<Rightarrow> panic + world" where
  "Heal a b w =
     (case validatePartitionPair ''Heal'' \<lparr>peerA = a, peerB = b\<rparr> of
        Some p \<Rightarrow> Inl p
      | None \<Rightarrow> let (k, w1) = resolvePair a b w in Inr (w1\<lparr>parts := heal_pair k (parts w1)\<rparr>))"

definition Reset :: "string \<Rightarrow> string \<Rightarrow> world \<Rightarrow> panic + world" where
  "Reset a b w =
     (case validatePartitionPair ''Reset'' \<lparr>peerA = a, peerB = b\<rparr> of
        Some p \<Rightarrow> Inl p
      | None \<Rightarrow> let (k, w1) = resolvePair a b w in Inr (reset_pair k w1))"

definition set_faults :: "(faultConfig \<Rightarrow> panic + faultConfig) \<Rightarrow> world \<Rightarrow> panic + world" where
  "set_faults f w = (case f (faults w) of Inl p \<Rightarrow> Inl p | Inr c \<Rightarrow> Inr (w\<lparr>faults := c\<rparr>))"

definition SetLatency :: "duration \<Rightarrow> duration \<Rightarrow> world \<Rightarrow> panic + world" where
  "SetLatency dmin dmax = set_faults (set_latency dmin dmax)"

definition SetPacketLoss :: "float64 \<Rightarrow> world \<Rightarrow> panic + world" where
  "SetPacketLoss rate = set_faults (set_packet_loss rate)"

definition SetDuplication :: "float64 \<Rightarrow> world \<Rightarrow> panic + world" where
  "SetDuplication rate = set_faults (set_duplication rate)"

definition SetCorruption :: "float64 \<Rightarrow> world \<Rightarrow> panic + world" where
  "SetCorruption rate = set_faults (set_corruption rate)"


section \<open>Valid configurations\<close>

definition rate_ok :: "float64 \<Rightarrow> bool" where
  "rate_ok r \<longleftrightarrow> (\<exists>q. r = Finite q \<and> 0 \<le> q \<and> q \<le> 1)"

definition faults_ok :: "'a faultConfig_scheme \<Rightarrow> bool" where
  "faults_ok c \<longleftrightarrow>
     (lossEnabled c \<longrightarrow> rate_ok (lossRate c))
     \<and> (latencyEnabled c \<longrightarrow> 0 \<le> latencyMin c \<and> latencyMin c \<le> latencyMax c)
     \<and> (bandwidthEnabled c \<longrightarrow> 0 < bandwidthBPS c)
     \<and> (duplicateEnabled c \<longrightarrow> rate_ok (duplicateRate c))
     \<and> (corruptEnabled c \<longrightarrow> rate_ok (corruptRate c))"

lemma rate_valid:
  "\<not> (r = NaN \<or> flt r (Finite 0) \<or> flt (Finite 1) r) \<longleftrightarrow> rate_ok r"
  by (cases r) (auto simp: rate_ok_def)

lemma validate_None:
  "validateLossRate who r = None \<longleftrightarrow> rate_ok r"
  "validateDuplicationRate who r = None \<longleftrightarrow> rate_ok r"
  "validateCorruptionRate who r = None \<longleftrightarrow> rate_ok r"
  "validateLatencyRange who dmin dmax = None \<longleftrightarrow> 0 \<le> dmin \<and> dmin \<le> dmax"
  "validateBandwidthRate bps = None \<longleftrightarrow> 0 < bps"
  "validatePipeBound b = None \<longleftrightarrow> 0 < b"
  "validateListenerBacklog b = None \<longleftrightarrow> 0 < b"
  "validatePartitionPair who pp = None \<longleftrightarrow> peerA pp \<noteq> [] \<and> peerB pp \<noteq> [] \<and> peerA pp \<noteq> peerB pp"
  by (auto simp: validateLossRate_def validateDuplicationRate_def validateCorruptionRate_def
      validateLatencyRange_def validateBandwidthRate_def validatePipeBound_def
      validateListenerBacklog_def validatePartitionPair_def rate_valid [symmetric])

lemma first_panic_None: "first_panic cs = None \<longleftrightarrow> (\<forall>c \<in> set cs. c = None)"
  by (induction cs rule: first_panic.induct) auto

lemma config_validate_None:
  "config_validate c = None \<longleftrightarrow>
     faults_ok c \<and> (pipeBoundEnabled c \<longrightarrow> 0 < cfg_pipeBound c)
     \<and> (listenerBacklogEnabled c \<longrightarrow> 0 < cfg_listenerBacklog c)
     \<and> (\<forall>pp \<in> set (staticPartitions c). peerA pp \<noteq> [] \<and> peerB pp \<noteq> [] \<and> peerA pp \<noteq> peerB pp)"
proof -
  have opt: "(if b then x else None) = None \<longleftrightarrow> (b \<longrightarrow> x = None)" for b and x :: "panic option" by simp
  show ?thesis
    unfolding config_validate_def first_panic_None
    by (simp only: set_append set_simps set_map ball_Un ball_simps opt validate_None faults_ok_def) blast
qed

lemma faults_ok_upd:
  assumes "faults_ok f"
  shows "0 \<le> dmin \<Longrightarrow> dmin \<le> dmax \<Longrightarrow>
      faults_ok (f\<lparr>latencyEnabled := True, latencyMin := dmin, latencyMax := dmax\<rparr>)"
    "rate_ok r \<Longrightarrow> faults_ok (f\<lparr>lossEnabled := True, lossRate := r\<rparr>)"
    "rate_ok r \<Longrightarrow> faults_ok (f\<lparr>duplicateEnabled := True, duplicateRate := r\<rparr>)"
    "rate_ok r \<Longrightarrow> faults_ok (f\<lparr>corruptEnabled := True, corruptRate := r\<rparr>)"
  using assms by (simp_all add: faults_ok_def)

lemma setters_Inr:
  "set_latency dmin dmax f = Inr f' \<longleftrightarrow> 0 \<le> dmin \<and> dmin \<le> dmax
     \<and> f' = f\<lparr>latencyEnabled := True, latencyMin := dmin, latencyMax := dmax\<rparr>"
  "set_packet_loss r f = Inr f' \<longleftrightarrow> rate_ok r \<and> f' = f\<lparr>lossEnabled := True, lossRate := r\<rparr>"
  "set_duplication r f = Inr f' \<longleftrightarrow> rate_ok r \<and> f' = f\<lparr>duplicateEnabled := True, duplicateRate := r\<rparr>"
  "set_corruption r f = Inr f' \<longleftrightarrow> rate_ok r \<and> f' = f\<lparr>corruptEnabled := True, corruptRate := r\<rparr>"
  using validate_None(1) [of "''SetPacketLoss''" r] validate_None(2) [of "''SetDuplication''" r]
    validate_None(3) [of "''SetCorruption''" r] validate_None(4) [of "''SetLatency''" dmin dmax]
  unfolding set_latency_def set_packet_loss_def set_duplication_def set_corruption_def
  by (fastforce split: option.split)+

lemma setters_ok:
  "faults_ok f \<Longrightarrow> set_latency dmin dmax f = Inr f' \<Longrightarrow> faults_ok f'"
  "faults_ok f \<Longrightarrow> set_packet_loss r f = Inr f' \<Longrightarrow> faults_ok f'"
  "faults_ok f \<Longrightarrow> set_duplication r f = Inr f' \<Longrightarrow> faults_ok f'"
  "faults_ok f \<Longrightarrow> set_corruption r f = Inr f' \<Longrightarrow> faults_ok f'"
  unfolding setters_Inr using faults_ok_upd by blast+

end
