(* ===== verification/NetworkInv.thy ===== *)
theory NetworkInv
  imports Network
begin

text \<open>
  The invariant of a network: what holds of its listeners, its settings, its connections and its
  registrations whatever its clients do, one call at a time.
\<close>

section \<open>The invariant of the network\<close>

text \<open>
  Whatever is registered is a listener, under its own peer and port; and, once no \<open>Close\<close> stands
  between marking its listener closed and taking it out of the table (\<open>exact\<close>), the open listeners
  are registered and nothing else is. Queued connections exist.
\<close>

definition listeners_inv :: "bool \<Rightarrow> world \<Rightarrow> bool" where
  "listeners_inv exact w \<longleftrightarrow>
     (\<forall>pr. distinct (map fst (listeners w pr)))
     \<and> (\<forall>pr p lid. map_of (listeners w pr) p = Some lid \<longrightarrow> lid < next_lst w \<and> (exact \<longrightarrow> \<not> l_closed (lsts w lid))
          \<and> peer (l_addr (lsts w lid)) = pr \<and> port (l_addr (lsts w lid)) = p)
     \<and> (exact \<longrightarrow> (\<forall>lid < next_lst w. \<not> l_closed (lsts w lid) \<longrightarrow>
          map_of (listeners w (peer (l_addr (lsts w lid)))) (port (l_addr (lsts w lid))) = Some lid))
     \<and> (\<forall>lid < next_lst w. listener_inv (lsts w lid)
          \<and> (\<forall>c \<in> set (incoming (lsts w lid)). c < next_conn w))"

definition net_inv :: "bool \<Rightarrow> world \<Rightarrow> bool" where
  "net_inv exact w \<longleftrightarrow>
     listeners_inv exact w \<and> faults_ok (faults w) \<and> 0 < w_pipeBound w \<and> 0 < w_listenerBacklog w"

definition world_inv :: "world \<Rightarrow> bool" where
  "world_inv w \<longleftrightarrow> store_inv w \<and> net_inv True w"

lemma store_inv_cong:
  assumes "pipes v = pipes w" "conns v = conns w" "resetTargets v = resetTargets w"
    "next_pipe v = next_pipe w" "next_conn v = next_conn w"
  shows "store_inv v = store_inv w"
  by (simp add: store_inv_def wired_def flags_inv_def registry_inv_def assms)

lemma listeners_inv_cong:
  assumes "lsts v = lsts w" "next_lst v = next_lst w" "listeners v = listeners w" "next_conn v = next_conn w"
  shows "listeners_inv x v = listeners_inv x w"
  by (simp add: listeners_inv_def assms)

text \<open>What every operation on pipes and connections leaves of the rest of the world.\<close>

definition same_net :: "world \<Rightarrow> world \<Rightarrow> bool" where
  "same_net v w \<longleftrightarrow>
     lsts v = lsts w \<and> next_lst v = next_lst w \<and> listeners v = listeners w
     \<and> faults v = faults w \<and> w_pipeBound v = w_pipeBound w \<and> w_listenerBacklog v = w_listenerBacklog w
     \<and> next_conn v = next_conn w"

lemma same_net_refl [simp]: "same_net w w"
  by (simp add: same_net_def)

lemma same_net_trans: "same_net u v \<Longrightarrow> same_net v w \<Longrightarrow> same_net u w"
  by (simp add: same_net_def)

lemma net_inv_cong: "same_net v w \<Longrightarrow> net_inv x v = net_inv x w"
  unfolding net_inv_def same_net_def using listeners_inv_cong [of v w] by simp

lemma world_inv_store:
  "world_inv w \<Longrightarrow> same_net v w \<Longrightarrow> store_inv v \<Longrightarrow> world_inv v"
  by (simp add: world_inv_def net_inv_cong)

text \<open>And what the operations on names, listeners and settings leave of pipes and connections.\<close>

definition same_store :: "world \<Rightarrow> world \<Rightarrow> bool" where
  "same_store v w \<longleftrightarrow>
     pipes v = pipes w \<and> conns v = conns w \<and> resetTargets v = resetTargets w
     \<and> next_pipe v = next_pipe w \<and> next_conn v = next_conn w"

lemma same_store_refl [simp]: "same_store w w"
  by (simp add: same_store_def)

lemma same_store_trans: "same_store u v \<Longrightarrow> same_store v w \<Longrightarrow> same_store u w"
  by (simp add: same_store_def)

lemma same_store_upd [simp]:
  "same_store (w\<lparr>book := b\<rparr>) w" "same_store (w\<lparr>clock := t\<rparr>) w" "same_store (w\<lparr>parts := pt\<rparr>) w"
  "same_store (w\<lparr>nextListenPort := n\<rparr>) w" "same_store (w\<lparr>nextWildcard := u\<rparr>) w"
  "same_store (w\<lparr>nextOrdinal := u\<rparr>) w" "same_store (w\<lparr>traces := trs\<rparr>) w" "same_store (w\<lparr>faults := f\<rparr>) w"
  "same_store (w\<lparr>lsts := ls\<rparr>) w" "same_store (w\<lparr>lsts := ls, listeners := lr\<rparr>) w"
  by (simp_all add: same_store_def)

lemma world_inv_net: "world_inv w \<Longrightarrow> same_store v w \<Longrightarrow> net_inv True v \<Longrightarrow> world_inv v"
  using store_inv_cong [of v w] by (simp add: world_inv_def same_store_def)

lemma same_net_upd [simp]:
  "same_net (upd_pipe i f w) w" "same_net (upd_conn c g w) w" "same_net (deregisterReset k c w) w"
  by (simp_all add: same_net_def upd_pipe_def upd_conn_def deregisterReset_def)

lemma same_net_read: "same_net (snd (read_step plan9 len c pc w)) w"
  by (cases pc) (auto simp: Let_def split: prod.split attempt.split option.split)

lemma same_net_write: "write_step plan9 data c pc w = Some (pc', w') \<Longrightarrow> same_net w' w"
  by (cases pc) (auto simp: Let_def split: if_splits option.splits attempt.splits)

lemma same_net_Close: "same_net (conn_Close c w) w"
proof (cases "c_closed (conns w c)")
  case True
  then show ?thesis by (simp add: conn_Close_closed)
next
  case False
  have "same_net (upd_conn c f (upd_pipe i g (upd_pipe j h (upd_conn c f' w)))) w"
    "same_net (upd_conn c f (upd_pipe i g (upd_pipe j h (deregisterReset k c (upd_conn c f' w))))) w"
    for f i g j h f' k
    by (metis same_net_trans same_net_upd)+
  with False show ?thesis by (simp add: conn_Close_def Let_def)
qed

lemma same_net_Closes: "same_net (fold conn_Close cs w) w"
  by (induction cs arbitrary: w) (auto intro: same_net_trans same_net_Close)

lemma same_net_signal: "same_net (fold signalReset cs w) w"
  by (induction cs arbitrary: w) (auto simp: signalReset_def intro: same_net_trans same_net_upd)

lemma same_net_abort1: "same_net (abortReset c w) w"
  unfolding abortReset_def by (metis same_net_trans same_net_upd(1))

lemma same_net_abort: "same_net (fold abortReset cs w) w"
  by (induction cs arbitrary: w) (auto intro: same_net_trans same_net_abort1)

lemma same_net_reset: "same_net (reset_pair k w) w"
proof -
  have "same_net (w\<lparr>resetTargets := f\<rparr>) w" for f by (simp add: same_net_def)
  then show ?thesis
    unfolding reset_pair_def Let_def by (metis same_net_trans same_net_signal same_net_abort)
qed

lemma Closes_inv: "store_inv (w :: world) \<Longrightarrow> \<forall>c \<in> set cs. c < next_conn w \<Longrightarrow> store_inv (fold conn_Close cs w)"
proof (induction cs arbitrary: w)
  case (Cons c cs)
  moreover have "next_conn (conn_Close c w) = next_conn w"
    using same_net_Close [of c w] by (simp add: same_net_def)
  ultimately show ?case by (simp add: conn_Close_inv)
qed simp


section \<open>Every operation keeps the invariant\<close>

lemma net_inv_upd [simp]:
  "net_inv x (w\<lparr>book := b\<rparr>) = net_inv x w" "net_inv x (w\<lparr>clock := t\<rparr>) = net_inv x w"
  "net_inv x (w\<lparr>parts := pt\<rparr>) = net_inv x w" "net_inv x (w\<lparr>nextListenPort := n\<rparr>) = net_inv x w"
  "net_inv x (w\<lparr>nextWildcard := u\<rparr>) = net_inv x w" "net_inv x (w\<lparr>nextOrdinal := u\<rparr>) = net_inv x w"
  "net_inv x (w\<lparr>traces := trs\<rparr>) = net_inv x w"
  by (rule net_inv_cong; simp add: same_net_def)+

lemma world_inv_upd [simp]:
  "world_inv (w\<lparr>book := b\<rparr>) = world_inv w" "world_inv (w\<lparr>clock := t\<rparr>) = world_inv w"
  "world_inv (w\<lparr>parts := pt\<rparr>) = world_inv w" "world_inv (w\<lparr>nextListenPort := n\<rparr>) = world_inv w"
  "world_inv (w\<lparr>nextWildcard := u\<rparr>) = world_inv w" "world_inv (w\<lparr>nextOrdinal := u\<rparr>) = world_inv w"
  "world_inv (w\<lparr>traces := trs\<rparr>) = world_inv w"
  unfolding world_inv_def
  by (rule arg_cong2 [where f = "(\<and>)", OF store_inv_cong]; simp)+

lemma listeners_exact:
  "listeners_inv True w \<Longrightarrow> map_of (listeners w pr) p = Some lid \<longleftrightarrow>
     lid < next_lst w \<and> \<not> l_closed (lsts w lid) \<and> peer (l_addr (lsts w lid)) = pr \<and> port (l_addr (lsts w lid)) = p"
  unfolding listeners_inv_def by blast

lemma net_inv_weak: "net_inv True w \<Longrightarrow> net_inv False w"
  by (auto simp: net_inv_def listeners_inv_def)

lemma net_inv_faults: "net_inv x w \<Longrightarrow> faults_ok f \<Longrightarrow> net_inv x (w\<lparr>faults := f\<rparr>)"
  using listeners_inv_cong [of "w\<lparr>faults := f\<rparr>" w] by (simp add: net_inv_def)

lemma world_invD: "world_inv w \<Longrightarrow> store_inv w" "world_inv w \<Longrightarrow> net_inv True w" "world_inv w \<Longrightarrow> listeners_inv True w"
  by (simp_all add: world_inv_def net_inv_def)

lemma canonicalPeer_net:
  "net_inv x w \<Longrightarrow> net_inv x (snd (canonicalPeer host w))" "same_store (snd (canonicalPeer host w)) w"
  by (simp_all add: canonicalPeer_def case_prod_beta)

lemma resolvePair_net:
  "net_inv x w \<Longrightarrow> net_inv x (snd (resolvePair a b w))" "same_store (snd (resolvePair a b w)) w"
proof -
  show "net_inv x w \<Longrightarrow> net_inv x (snd (resolvePair a b w))"
    by (simp add: resolvePair_def Let_def case_prod_beta canonicalPeer_net)
  show "same_store (snd (resolvePair a b w)) w"
    using same_store_trans [OF canonicalPeer_net(2) canonicalPeer_net(2)]
    by (simp add: resolvePair_def Let_def case_prod_beta)
qed

lemma resolvePair_inv: "world_inv w \<Longrightarrow> world_inv (snd (resolvePair a b w))"
  by (blast intro: world_inv_net resolvePair_net world_invD)

text \<open>A listener's own change, with its registration as it was.\<close>

lemma net_inv_lst:
  assumes "net_inv x w" "l_closed l = l_closed (lsts w lid)" "l_addr l = l_addr (lsts w lid)"
    "listener_inv l" "\<forall>c \<in> set (incoming l). c < next_conn w"
  shows "net_inv x (w\<lparr>lsts := (lsts w)(lid := l)\<rparr>)"
  using assms unfolding net_inv_def listeners_inv_def by auto

lemma net_listener:
  "net_inv x w \<Longrightarrow> lid < next_lst w \<Longrightarrow> listener_inv (lsts w lid)"
  "net_inv x w \<Longrightarrow> lid < next_lst w \<Longrightarrow> c \<in> set (incoming (lsts w lid)) \<Longrightarrow> c < next_conn w"
  by (auto simp: net_inv_def listeners_inv_def)

lemma world_listener:
  "world_inv w \<Longrightarrow> lid < next_lst w \<Longrightarrow> listener_inv (lsts w lid)"
  "world_inv w \<Longrightarrow> lid < next_lst w \<Longrightarrow> c \<in> set (incoming (lsts w lid)) \<Longrightarrow> c < next_conn w"
  using net_listener world_invD by blast+

lemma register_net:
  assumes "net_inv x w" "map_of (listeners w pr) p = None"
  shows "net_inv x (snd (register_listener network pr p i w))"
proof -
  let ?l = "newListener \<lparr>a_network = network, peer = pr, port = p, ip = Some i\<rparr> (w_listenerBacklog w)"
  let ?v = "w\<lparr>lsts := (lsts w)(next_lst w := ?l), next_lst := Suc (next_lst w),
              listeners := (listeners w)(pr := AList.update p (next_lst w) (listeners w pr))\<rparr>"
  have "listeners_inv x ?v"
    unfolding listeners_inv_def
  proof (intro conjI allI impI)
    fix pr' show "distinct (map fst (listeners ?v pr'))"
      using assms(1) by (simp add: net_inv_def listeners_inv_def distinct_update)
  next
    fix pr' p' lid
    assume m: "map_of (listeners ?v pr') p' = Some lid"
    have "map_of (listeners w pr') p' = Some lid \<Longrightarrow> lid < next_lst w \<and> (x \<longrightarrow> \<not> l_closed (lsts w lid))
        \<and> peer (l_addr (lsts w lid)) = pr' \<and> port (l_addr (lsts w lid)) = p'"
      using assms(1) unfolding net_inv_def listeners_inv_def by blast
    with m show "lid < next_lst ?v" "x \<Longrightarrow> \<not> l_closed (lsts ?v lid)"
      "peer (l_addr (lsts ?v lid)) = pr'" "port (l_addr (lsts ?v lid)) = p'"
      by (auto simp: update_conv' newListener_def split: if_splits)
  next
    fix lid
    assume x: "x" and lid: "lid < next_lst ?v" "\<not> l_closed (lsts ?v lid)"
    have "map_of (listeners w (peer (l_addr (lsts w lid)))) (port (l_addr (lsts w lid))) = Some lid"
      if "lid < next_lst w" using assms(1) x lid(2) that unfolding net_inv_def listeners_inv_def by simp
    with lid assms(2) show "map_of (listeners ?v (peer (l_addr (lsts ?v lid)))) (port (l_addr (lsts ?v lid))) = Some lid"
      by (cases "lid = next_lst w") (auto simp: update_conv' newListener_def)
  next
    fix lid assume "lid < next_lst ?v"
    then have "lid = next_lst w \<or> lid < next_lst w" by auto
    moreover have "listener_inv ?l" "incoming ?l = []"
      using assms(1) by (simp_all add: net_inv_def listener_inv_new) (simp add: newListener_def)
    ultimately show "listener_inv (lsts ?v lid)" "\<forall>c \<in> set (incoming (lsts ?v lid)). c < next_conn ?v"
      using net_listener [OF assms(1)] by auto
  qed
  then show ?thesis
    using assms(1) by (simp add: net_inv_def register_listener_def Let_def)
qed

lemma register_same: "same_store (snd (register_listener network pr p i w)) w"
  by (simp add: register_listener_def Let_def same_store_def)

lemma listen_at_net:
  assumes "net_inv x w"
  shows "net_inv x (snd (listen_at network laddr pr p0 explicit w))"
proof -
  obtain p w1 where pw: "(if explicit then (p0, w)
        else let (p, nxt) = listen_port_loop listen_attempts (listeners w pr) p0 (nextListenPort w)
             in (p, w\<lparr>nextListenPort := nxt\<rparr>)) = (p, w1)" by fastforce
  have inv: "net_inv x w1" using pw assms by (auto split: if_splits prod.splits)
  show ?thesis
  proof (cases "map_of (listeners w1 pr) p")
    case None
    obtain r bk where r: "peerIPLocked pr (addressFamily network pr) (book w1) = (r, bk)" by fastforce
    have "net_inv x (snd (register_listener network pr p i (w1\<lparr>book := bk\<rparr>)))" for i
      using inv None by (intro register_net) simp_all
    with r None inv pw show ?thesis
      unfolding listen_at_def by (cases r) (simp_all add: case_prod_beta Let_def)
  qed (use inv pw in \<open>simp add: listen_at_def\<close>)
qed

lemma listen_at_same: "same_store (snd (listen_at network laddr pr p0 explicit w)) w"
proof -
  have "same_store (snd (register_listener network pr p i (w\<lparr>book := bk\<rparr>))) w"
    "same_store (snd (register_listener network pr p i (w\<lparr>nextListenPort := n, book := bk\<rparr>))) w" for p i bk n
    by (simp_all add: register_listener_def Let_def same_store_def)
  then show ?thesis
    by (cases explicit) (auto simp: listen_at_def Let_def case_prod_beta same_store_def split: option.split sum.split)
qed

lemma Listen_net:
  assumes "net_inv x w"
  shows "net_inv x (snd (Listen network laddr w))"
proof -
  show ?thesis
  proof (cases "validateNetwork network")
    case None
    show ?thesis
    proof (cases "splitAddr laddr")
      case (Inr hpe)
      obtain host p explicit where h: "hpe = (host, p, explicit)" by (cases hpe)
      obtain pr w1 where pr: "(if host = [] then (wildcardPeerName (unat (nextWildcard w)), w\<lparr>nextWildcard := nextWildcard w + 1\<rparr>)
                     else (host, w)) = (pr, w1)" by fastforce
      then have inv: "net_inv x w1" using assms by (auto split: if_splits)
      have "net_inv x (snd (listen_at network laddr (fst (canonicalPeer pr w1)) p explicit (snd (canonicalPeer pr w1))))"
        by (rule listen_at_net [OF canonicalPeer_net(1) [OF inv]])
      with inv None Inr h show ?thesis
        unfolding Listen_def by (simp only: pr option.case sum.case case_prod_conv Let_def) (simp add: case_prod_beta)
    qed (use assms None in \<open>simp add: Listen_def\<close>)
  qed (use assms in \<open>simp add: Listen_def\<close>)
qed

lemma Listen_same: "same_store (snd (Listen network laddr w)) w"
proof -
  have "same_store (snd (listen_at network laddr (fst (canonicalPeer pr v)) p explicit (snd (canonicalPeer pr v)))) v"
    for pr p explicit v
    using same_store_trans [OF listen_at_same canonicalPeer_net(2)] .
  then have "same_store (snd (listen_at network laddr (fst (canonicalPeer pr v)) p explicit (snd (canonicalPeer pr v)))) w"
    if "same_store v w" for pr p explicit v
    using that same_store_trans by blast
  then show ?thesis
    by (auto simp: Listen_def Let_def case_prod_beta split: option.split sum.split)
qed

lemma Listen_inv [inv_intros]: "world_inv w \<Longrightarrow> world_inv (snd (Listen network laddr w))"
  by (blast intro: world_inv_net Listen_net Listen_same world_invD)

lemma mark_net:
  assumes "net_inv x w" "lid < next_lst w"
  shows "net_inv x (snd (listener_Close_mark lid w))"
proof (cases "l_closed (lsts w lid)")
  case True
  with assms show ?thesis by (simp add: listener_Close_mark_def listener_mark_closed_def)
next
  case False
  let ?a = "l_addr (lsts w lid)"
  let ?l = "(lsts w lid)\<lparr>l_closed := True\<rparr>"
  let ?v = "w\<lparr>lsts := (lsts w)(lid := ?l),
              listeners := (listeners w)(peer ?a := AList.delete (port ?a) (listeners w (peer ?a)))\<rparr>"
  have "listeners_inv x ?v"
    unfolding listeners_inv_def
  proof (intro conjI allI impI)
    fix pr' show "distinct (map fst (listeners ?v pr'))"
      using assms(1) by (simp add: net_inv_def listeners_inv_def distinct_delete)
  next
    fix pr' p' lid'
    assume m: "map_of (listeners ?v pr') p' = Some lid'"
    have old: "map_of (listeners w pr'') p'' = Some lid'' \<Longrightarrow> lid'' < next_lst w \<and> (x \<longrightarrow> \<not> l_closed (lsts w lid''))
        \<and> peer (l_addr (lsts w lid'')) = pr'' \<and> port (l_addr (lsts w lid'')) = p''" for pr'' p'' lid''
      using assms(1) unfolding net_inv_def listeners_inv_def by blast
    from m have w: "map_of (listeners w pr') p' = Some lid'" "(pr', p') \<noteq> (peer ?a, port ?a)"
      by (auto simp: delete_conv' restrict_map_def split: if_splits)
    with old have "lid' \<noteq> lid" by auto
    with old [OF w(1)] show "lid' < next_lst ?v" "x \<Longrightarrow> \<not> l_closed (lsts ?v lid')"
      "peer (l_addr (lsts ?v lid')) = pr'" "port (l_addr (lsts ?v lid')) = p'" by auto
  next
    fix lid'
    assume x: "x" and lid': "lid' < next_lst ?v" "\<not> l_closed (lsts ?v lid')"
    then have "lid' \<noteq> lid" by auto
    with x lid' have "map_of (listeners w (peer (l_addr (lsts w lid')))) (port (l_addr (lsts w lid'))) = Some lid'"
      using assms(1) unfolding net_inv_def listeners_inv_def by simp
    moreover have "map_of (listeners w (peer ?a)) (port ?a) = Some lid"
      using assms x False unfolding net_inv_def listeners_inv_def by simp
    ultimately have "(peer (l_addr (lsts w lid')), port (l_addr (lsts w lid'))) \<noteq> (peer ?a, port ?a)"
      using \<open>lid' \<noteq> lid\<close> by auto
    with \<open>map_of (listeners w (peer (l_addr (lsts w lid')))) (port (l_addr (lsts w lid'))) = Some lid'\<close> \<open>lid' \<noteq> lid\<close>
    show "map_of (listeners ?v (peer (l_addr (lsts ?v lid')))) (port (l_addr (lsts ?v lid'))) = Some lid'"
      by (auto simp: delete_conv' restrict_map_def)
  next
    fix lid' assume "lid' < next_lst ?v"
    then show "listener_inv (lsts ?v lid')" "\<forall>c \<in> set (incoming (lsts ?v lid')). c < next_conn ?v"
      using assms(1) by (auto simp: net_inv_def listeners_inv_def listener_inv_def)
  qed
  then have "net_inv x ?v" using assms(1) by (simp add: net_inv_def)
  with False show ?thesis
    by (simp add: listener_Close_mark_def listener_mark_closed_def deregister_def)
qed

text \<open>The two halves of the mark: the flag, and then the table.\<close>

lemma flag_net:
  assumes "net_inv False w"
  shows "net_inv False (w\<lparr>lsts := (lsts w)(lid := (lsts w lid)\<lparr>l_closed := True\<rparr>)\<rparr>)"
  using assms unfolding net_inv_def listeners_inv_def by (auto simp: listener_inv_def)

lemma deregister_net:
  assumes "net_inv False w"
  shows "net_inv False (deregister a w)"
proof -
  have same: "lsts (deregister a w) = lsts w" "next_lst (deregister a w) = next_lst w" "next_conn (deregister a w) = next_conn w"
    "faults (deregister a w) = faults w" "w_pipeBound (deregister a w) = w_pipeBound w"
    "w_listenerBacklog (deregister a w) = w_listenerBacklog w" by (simp_all add: deregister_def)
  have "map_of (listeners (deregister a w) pr) p = Some lid \<Longrightarrow> map_of (listeners w pr) p = Some lid" for pr p lid
    by (auto simp: deregister_def delete_conv' restrict_map_def simp del: map_of_eq_Some_iff split: if_splits)
  moreover have "distinct (map fst (listeners w pr)) \<Longrightarrow> distinct (map fst (listeners (deregister a w) pr))" for pr
    by (auto simp: deregister_def distinct_delete)
  ultimately show ?thesis using assms unfolding net_inv_def listeners_inv_def same by blast
qed

lemma mark_same: "same_store (snd (listener_Close_mark lid w)) w"
  by (simp add: listener_Close_mark_def case_prod_beta deregister_def)

lemma mark_inv [inv_intros]:
  "world_inv w \<Longrightarrow> lid < next_lst w \<Longrightarrow> world_inv (snd (listener_Close_mark lid w))"
  by (blast intro: world_inv_net mark_net mark_same world_invD)

lemma drain_inv [inv_intros]:
  assumes "world_inv w" "lid < next_lst w" "l_closed (lsts w lid)"
  shows "world_inv (listener_Close_drain lid w)"
proof -
  let ?l = "(lsts w lid)\<lparr>incoming := []\<rparr>"
  let ?v = "w\<lparr>lsts := (lsts w)(lid := ?l)\<rparr>"
  have v: "world_inv ?v"
    by (rule world_inv_net [OF assms(1)])
      (use assms world_listener(1) [OF assms(1,2)] in \<open>auto intro!: net_inv_lst simp: listener_inv_def dest: world_invD\<close>)
  have "\<forall>c \<in> set (incoming (lsts w lid)). c < next_conn ?v" using world_listener(2) [OF assms(1,2)] by simp
  from Closes_inv [OF world_invD(1) [OF v] this] show ?thesis
    unfolding listener_Close_drain_def listener_drain_def
    using world_inv_store [OF v same_net_Closes] by simp
qed

lemma accept_net:
  assumes "net_inv x w" "lid < next_lst w" "(r, w') \<in> set (Accept_outcomes lid w)"
  shows "net_inv x w'"
proof -
  from assms(3) obtain l where l: "(r, l) \<in> set (accept_outcomes (lsts w lid))"
    and w': "w' = w\<lparr>lsts := (lsts w)(lid := l)\<rparr>" by (auto simp: Accept_outcomes_def)
  from l consider c cs where "incoming (lsts w lid) = c # cs" "l = (lsts w lid)\<lparr>incoming := cs\<rparr>"
    | "l = lsts w lid"
    by (cases "incoming (lsts w lid)") (auto simp: accept_outcomes_def split: if_splits)
  then show ?thesis
  proof cases
    case 1
    with assms net_listener [OF assms(1,2)] show ?thesis
      unfolding w' by (intro net_inv_lst) (auto simp: listener_inv_def)
  next
    case 2
    with assms net_listener [OF assms(1,2)] show ?thesis
      unfolding w' by (intro net_inv_lst) auto
  qed
qed

lemma accept_same: "(r, w') \<in> set (Accept_outcomes lid w) \<Longrightarrow> same_store w' w"
  by (auto simp: Accept_outcomes_def)

lemma accept_inv [inv_intros]:
  "world_inv w \<Longrightarrow> lid < next_lst w \<Longrightarrow> (r, w') \<in> set (Accept_outcomes lid w) \<Longrightarrow> world_inv w'"
  by (blast intro: world_inv_net accept_net accept_same world_invD)

section \<open>Dials\<close>

definition dial_pair :: "dialTarget \<Rightarrow> u64 \<Rightarrow> pairKey" where
  "dial_pair t ordinal = newPairKey (dial_local_name t ordinal) (dt_peer t)"

definition dial_policy :: "dialTarget \<Rightarrow> u64 \<Rightarrow> faultPolicy" where
  "dial_policy t ordinal = \<lparr>fp_network = True, fp_pair = dial_pair t ordinal, fp_static = noFaults\<rparr>"

definition dial_local_addr :: "dialTarget \<Rightarrow> u64 \<Rightarrow> netIP \<Rightarrow> addr" where
  "dial_local_addr t ordinal i =
     \<lparr>a_network = dt_network t, peer = dial_local_name t ordinal, port = ephemeralPort (unat ordinal), ip = Some i\<rparr>"

definition dial_remote_addr :: "dialTarget \<Rightarrow> nat \<Rightarrow> world \<Rightarrow> addr" where
  "dial_remote_addr t lid w =
     \<lparr>a_network = dt_network t, peer = dt_peer t, port = port (l_addr (lsts w lid)), ip = ip (l_addr (lsts w lid))\<rparr>"

text \<open>The pipe of one direction of a dialed connection, with its policy installed.\<close>

definition dialed_pipe :: "dialTarget \<Rightarrow> u64 \<Rightarrow> connSide \<Rightarrow> world \<Rightarrow> pipe" where
  "dialed_pipe t ordinal side w =
     installFaultPolicy (dial_policy t ordinal)
       (directionPipe (w_pipeBound w) (seed w) ordinal side (w_traceEnabled w))"

lemma registerTrace_sel [simp]:
  "lsts (registerTrace o' sd r w) = lsts w" "next_lst (registerTrace o' sd r w) = next_lst w"
  "listeners (registerTrace o' sd r w) = listeners w" "book (registerTrace o' sd r w) = book w"
  "nextOrdinal (registerTrace o' sd r w) = nextOrdinal w" "nextListenPort (registerTrace o' sd r
  w) = nextListenPort w" "nextWildcard (registerTrace o' sd r w) = nextWildcard w" "w_pipeBound
  (registerTrace o' sd r w) = w_pipeBound w" "w_listenerBacklog (registerTrace o' sd r w) =
  w_listenerBacklog w" "seed (registerTrace o' sd r w) = seed w" "w_traceEnabled (registerTrace o'
  sd r w) = w_traceEnabled w" "clock (registerTrace o' sd r w) = clock w" "parts (registerTrace o'
  sd r w) = parts w" "faults (registerTrace o' sd r w) = faults w" "next_pipe (registerTrace o' sd
  r w) = next_pipe w" "next_conn (registerTrace o' sd r w) = next_conn w" "conns (registerTrace o'
  sd r w) = conns w" "pipes (registerTrace o' sd r w) = pipes w" "resetTargets (registerTrace o'
  sd r w) = resetTargets w" "same_net (registerTrace o' sd r w) w" "traces (registerTrace o' sd r
  w) = traces w @ [(o', sd, r)]"
  by (simp_all add: registerTrace_def same_net_def)

lemma upd_pipe_world [simp]:
  "lsts (upd_pipe j f w) = lsts w" "next_lst (upd_pipe j f w) = next_lst w" "listeners (upd_pipe j
  f w) = listeners w" "book (upd_pipe j f w) = book w" "nextOrdinal (upd_pipe j f w) = nextOrdinal
  w" "nextListenPort (upd_pipe j f w) = nextListenPort w" "nextWildcard (upd_pipe j f w) =
  nextWildcard w" "w_pipeBound (upd_pipe j f w) = w_pipeBound w" "w_listenerBacklog (upd_pipe j f
  w) = w_listenerBacklog w" "seed (upd_pipe j f w) = seed w" "w_traceEnabled (upd_pipe j f w) =
  w_traceEnabled w" "traces (upd_pipe j f w) = traces w"
  by (simp_all add: upd_pipe_def)

lemma upd_conn_world [simp]:
  "lsts (upd_conn c g w) = lsts w" "next_lst (upd_conn c g w) = next_lst w" "listeners (upd_conn c
  g w) = listeners w" "book (upd_conn c g w) = book w" "nextOrdinal (upd_conn c g w) = nextOrdinal
  w" "nextListenPort (upd_conn c g w) = nextListenPort w" "nextWildcard (upd_conn c g w) =
  nextWildcard w" "w_pipeBound (upd_conn c g w) = w_pipeBound w" "w_listenerBacklog (upd_conn c g
  w) = w_listenerBacklog w" "seed (upd_conn c g w) = seed w" "w_traceEnabled (upd_conn c g w) =
  w_traceEnabled w" "traces (upd_conn c g w) = traces w"
  by (simp_all add: upd_conn_def)

lemma registerReset_sel [simp]:
  "lsts (registerReset k cs w) = lsts w" "next_lst (registerReset k cs w) = next_lst w" "listeners
  (registerReset k cs w) = listeners w" "book (registerReset k cs w) = book w" "nextOrdinal
  (registerReset k cs w) = nextOrdinal w" "nextListenPort (registerReset k cs w) = nextListenPort
  w" "nextWildcard (registerReset k cs w) = nextWildcard w" "w_pipeBound (registerReset k cs w) =
  w_pipeBound w" "w_listenerBacklog (registerReset k cs w) = w_listenerBacklog w" "seed
  (registerReset k cs w) = seed w" "w_traceEnabled (registerReset k cs w) = w_traceEnabled w"
  "clock (registerReset k cs w) = clock w" "parts (registerReset k cs w) = parts w" "faults
  (registerReset k cs w) = faults w" "next_pipe (registerReset k cs w) = next_pipe w" "next_conn
  (registerReset k cs w) = next_conn w" "traces (registerReset k cs w) = traces w" "conns
  (registerReset k cs w) = conns w" "pipes (registerReset k cs w) = pipes w" "resetTargets
  (registerReset k cs w) = (resetTargets w)(k := resetTargets w k @ cs)"
  by (simp_all add: registerReset_def)

lemma newConnPair_sel [simp]:
  fixes w :: world
  shows
  "lsts (snd (newConnPairWithSeedAndTrace ca sa o' net bd sd tr w)) = lsts w" "next_lst (snd (newConnPairWithSeedAndTrace ca sa o' net bd sd tr w)) = next_lst w" "listeners (snd (newConnPairWithSeedAndTrace ca sa o' net bd sd tr w)) = listeners w" "book
  (snd (newConnPairWithSeedAndTrace ca sa o' net bd sd tr w)) = book w" "nextOrdinal (snd (newConnPairWithSeedAndTrace ca sa o' net bd sd tr w)) = nextOrdinal w" "nextListenPort (snd (newConnPairWithSeedAndTrace ca sa o' net bd sd tr w)) = nextListenPort
  w" "nextWildcard (snd (newConnPairWithSeedAndTrace ca sa o' net bd sd tr w)) = nextWildcard w" "w_pipeBound (snd (newConnPairWithSeedAndTrace ca sa o' net bd sd tr w)) = w_pipeBound w"
  "w_listenerBacklog (snd (newConnPairWithSeedAndTrace ca sa o' net bd sd tr w)) = w_listenerBacklog w" "seed (snd (newConnPairWithSeedAndTrace ca sa o' net bd sd tr w)) = seed w" "w_traceEnabled (snd
  (newConnPairWithSeedAndTrace ca sa o' net bd sd tr w)) = w_traceEnabled w" "traces (snd (newConnPairWithSeedAndTrace ca sa o' net bd sd tr w)) = traces w" "clock (snd (newConnPairWithSeedAndTrace ca sa o' net bd sd tr w)) = clock w" "parts (snd (newConnPairWithSeedAndTrace ca sa o' net bd sd tr w)) =
  parts w" "faults (snd (newConnPairWithSeedAndTrace ca sa o' net bd sd tr w)) = faults w" "resetTargets (snd (newConnPairWithSeedAndTrace ca sa o' net bd sd tr w)) = resetTargets w"
    "fst (newConnPairWithSeedAndTrace ca sa o' net bd sd tr w) = (next_conn w, Suc (next_conn w))"
    "next_conn (snd (newConnPairWithSeedAndTrace ca sa o' net bd sd tr w)) = Suc (Suc (next_conn w))" "next_pipe (snd (newConnPairWithSeedAndTrace ca sa o' net bd sd tr w)) = Suc (Suc (next_pipe w))"
    "pipes (snd (newConnPairWithSeedAndTrace ca sa o' net bd sd tr w)) = (pipes w)(next_pipe w := directionPipe bd sd o' sideDialer tr,
                               Suc (next_pipe w) := directionPipe bd sd o' sideAcceptor tr)"
    "conns (snd (newConnPairWithSeedAndTrace ca sa o' net bd sd tr w)) = (conns w)
       (next_conn w := newConn ca sa net o' sideDialer (Suc (next_pipe w)) (next_pipe w),
        Suc (next_conn w) := newConn sa ca net o' sideAcceptor (next_pipe w) (Suc (next_pipe w)))"
  by (simp_all add: newConnPairWithSeedAndTrace_def Let_def)

lemma newConn_sel [simp]:
  "readPipe (newConn la ra net o' sd rp wp) = rp" "writePipe (newConn la ra net o' sd rp wp) = wp"
  "\<not> c_closed (newConn la ra net o' sd rp wp)" "\<not> c_reset (newConn la ra net o' sd rp wp)"
  by (simp_all add: newConn_def)

lemma dial_connect_effect:
  assumes "wired w" "dial_connect t ordinal i lid w = ((client, server), w')"
  shows "client = next_conn w" "server = Suc (next_conn w)"
    "conns w' = (conns w)
       (client := (newConn (dial_local_addr t ordinal i) (dial_remote_addr t lid w) (dt_network t) ordinal
                     sideDialer server client)\<lparr>c_nw := True, c_pair := dial_pair t ordinal\<rparr>,
        server := (newConn (dial_remote_addr t lid w) (dial_local_addr t ordinal i) (dt_network t) ordinal
                     sideAcceptor client server)\<lparr>c_nw := True, c_pair := dial_pair t ordinal\<rparr>)"
    "pipes w' = (pipes w)(client := dialed_pipe t ordinal sideDialer w,
                          server := dialed_pipe t ordinal sideAcceptor w)"
    "resetTargets w' = (resetTargets w)
       (dial_pair t ordinal := resetTargets w (dial_pair t ordinal) @ [client, server])"
    "next_conn w' = Suc (Suc (next_conn w))" "next_pipe w' = Suc (Suc (next_pipe w))"
    "lsts w' = lsts w" "next_lst w' = next_lst w" "listeners w' = listeners w" "faults w' = faults w"
    "parts w' = parts w" "clock w' = clock w" "book w' = book w" "nextOrdinal w' = nextOrdinal w"
    "w_pipeBound w' = w_pipeBound w" "w_listenerBacklog w' = w_listenerBacklog w"
    "traces w' = traces w @ (if w_traceEnabled w
       then [(ordinal, sideDialer, client), (ordinal, sideAcceptor, server)] else [])"
proof -
  have n: "next_pipe w = next_conn w" using assms(1) by (simp add: wired_def)
  show "client = next_conn w" "server = Suc (next_conn w)"
    using assms(2) by (simp_all add: dial_connect_def dial_wire_def newConnPairWithSeedAndTrace_def Let_def case_prod_beta)
  then have cs: "client = next_pipe w" "server = Suc (next_pipe w)" "client \<noteq> server"
    "client = next_conn w" "server = Suc (next_conn w)" by (simp_all add: n)
  have w': "w' = snd (dial_connect t ordinal i lid w)" using assms(2) by simp
  note defs = dial_connect_def dial_wire_def Let_def case_prod_beta
  show "conns w' = (conns w)
       (client := (newConn (dial_local_addr t ordinal i) (dial_remote_addr t lid w) (dt_network t) ordinal
                     sideDialer server client)\<lparr>c_nw := True, c_pair := dial_pair t ordinal\<rparr>,
        server := (newConn (dial_remote_addr t lid w) (dial_local_addr t ordinal i) (dt_network t) ordinal
                     sideAcceptor client server)\<lparr>c_nw := True, c_pair := dial_pair t ordinal\<rparr>)"
    unfolding w' cs(4,5)
    by (cases "w_traceEnabled w"; simp add: defs n dial_local_addr_def dial_remote_addr_def dial_pair_def fun_upd_twist)
  show "pipes w' = (pipes w)(client := dialed_pipe t ordinal sideDialer w,
                          server := dialed_pipe t ordinal sideAcceptor w)"
    unfolding w' cs(4,5)
    by (cases "w_traceEnabled w"; simp add: defs n dialed_pipe_def dial_policy_def dial_pair_def fun_upd_twist)
  show "resetTargets w' = (resetTargets w)
       (dial_pair t ordinal := resetTargets w (dial_pair t ordinal) @ [client, server])"
    unfolding w' cs(4,5) by (cases "w_traceEnabled w"; simp add: defs n dial_pair_def)
  show "traces w' = traces w @ (if w_traceEnabled w
       then [(ordinal, sideDialer, client), (ordinal, sideAcceptor, server)] else [])"
    unfolding w' cs(4,5) by (cases "w_traceEnabled w"; simp add: defs n)
  show "next_conn w' = Suc (Suc (next_conn w))" "next_pipe w' = Suc (Suc (next_pipe w))"
    "lsts w' = lsts w" "next_lst w' = next_lst w" "listeners w' = listeners w" "faults w' = faults w"
    "parts w' = parts w" "clock w' = clock w" "book w' = book w" "nextOrdinal w' = nextOrdinal w"
    "w_pipeBound w' = w_pipeBound w" "w_listenerBacklog w' = w_listenerBacklog w"
    unfolding w' by (cases "w_traceEnabled w"; simp add: defs)+
qed

lemma dialed_pipe_ok [simp]:
  "pipe_inv (dialed_pipe t ordinal side w)" "\<not> p_closed (dialed_pipe t ordinal side w)"
  "\<not> readClosed (dialed_pipe t ordinal side w)"
  by (simp_all add: dialed_pipe_def directionPipe_inv)

lemma peer_of_pair: "even n \<Longrightarrow> peer_of n = Suc n" "even n \<Longrightarrow> peer_of (Suc n) = n"
  by (simp_all add: peer_of_def)

lemma dial_connect_store_inv:
  assumes inv: "store_inv w" and dc: "dial_connect t ordinal i lid w = ((client, server), w')"
  shows "store_inv w'"
proof -
  note wi = store_inv_wired [OF inv]
  note eff = dial_connect_effect [OF wi dc]
  have n: "next_pipe w = next_conn w" "even (next_conn w)" using wi by (simp_all add: wired_def)
  have pr: "peer_of client = server" "peer_of server = client"
    using n peer_of_pair [of "next_conn w"] by (simp_all add: eff(1,2))
  have old: "c < next_conn w \<Longrightarrow> peer_of c < next_conn w \<and> c \<noteq> client \<and> c \<noteq> server
      \<and> peer_of c \<noteq> client \<and> peer_of c \<noteq> server" for c
    using wired_peer [OF wi, of c] by (simp add: eff(1,2))
  have cases: "c < next_conn w' \<longleftrightarrow> c < next_conn w \<or> c = client \<or> c = server" for c
    by (auto simp: eff(1,2,6))
  have down: "\<not> conn_down (conns w' client)" "\<not> conn_down (conns w' server)"
    by (simp_all add: eff(3) conn_down_def newConn_def)
  have keep: "c < next_conn w \<Longrightarrow> conns w' c = conns w c" "c < next_conn w \<Longrightarrow> pipes w' c = pipes w c" for c
    using old [of c] by (simp_all add: eff(3,4))
  have ne: "client \<noteq> server" by (simp add: eff(1,2))
  have "wired w'"
    using wi n by (auto simp: wired_def eff(6,7) cases less_Suc_eq keep)
      (simp_all add: eff(1,2,3) newConn_def peer_of_pair)
  moreover have "\<forall>j < next_pipe w'. pipe_inv (pipes w' j)"
    using inv n by (auto simp: store_inv_def eff(4,7) eff(1,2) less_Suc_eq)
  moreover have "flags_inv w'"
    unfolding flags_inv_def
  proof (intro allI impI)
    fix c assume "c < next_conn w'"
    then consider "c < next_conn w" | "c = client" | "c = server" using cases by blast
    then show "(readClosed (pipes w' (peer_of c)) \<longleftrightarrow> conn_down (conns w' c))
        \<and> (p_closed (pipes w' c) \<longleftrightarrow> conn_down (conns w' c) \<or> conn_down (conns w' (peer_of c)))"
    proof cases
      case 1
      with old [OF 1] keep inv show ?thesis by (simp add: store_inv_def flags_inv_def)
    qed (use down pr ne in \<open>simp_all add: eff(4)\<close>)
  qed
  moreover have "registry_inv w'"
  proof -
    have dist: "distinct (resetTargets w k)" for k
      using inv by (simp add: store_inv_def registry_inv_def del: split_paired_All)
    have peers: "c < next_conn w \<Longrightarrow> c_nw (conns w (peer_of c)) = c_nw (conns w c)
        \<and> c_pair (conns w (peer_of c)) = c_pair (conns w c)" for c
      using inv by (simp add: store_inv_def registry_inv_def del: split_paired_All)
    have new: "client \<notin> set (resetTargets w k)" "server \<notin> set (resetTargets w k)" for k
      by (simp_all add: reset_targets [OF inv] eff(1,2))
    have mem: "c \<in> set (resetTargets w' k) \<longleftrightarrow>
        c < next_conn w' \<and> c_nw (conns w' c) \<and> c_pair (conns w' c) = k \<and> \<not> conn_down (conns w' c)" for c k
    proof (cases "c < next_conn w")
      case True
      with old [OF True] keep show ?thesis
        by (auto simp: eff(5) reset_targets [OF inv] cases)
    next
      case False
      with down ne show ?thesis
        by (auto simp: eff(3,5) reset_targets [OF inv] cases newConn_def conn_down_def)
    qed
    have "distinct (resetTargets w' k)" for k
      using dist new ne by (auto simp: eff(5))
    moreover have "c < next_conn w' \<Longrightarrow> c_nw (conns w' (peer_of c)) = c_nw (conns w' c)
        \<and> c_pair (conns w' (peer_of c)) = c_pair (conns w' c)" for c
      using peers [of c] old [of c] keep pr ne unfolding cases
      by (elim disjE) (simp_all add: eff(3))
    ultimately show ?thesis
      unfolding registry_inv_def by (auto simp: mem simp del: split_paired_All)
  qed
  ultimately show ?thesis by (simp add: store_inv_def)
qed


lemma lookup_registered:
  assumes "listeners_inv x w" "dial_lookup t w = Some lid"
  shows "lid < next_lst w \<and> (x \<longrightarrow> \<not> l_closed (lsts w lid)) \<and> peer (l_addr (lsts w lid)) = dt_peer t
    \<and> dial_matches t w lid \<and> (dt_explicit t \<longrightarrow> port (l_addr (lsts w lid)) = dt_port t)"
proof -
  have reg: "map_of (listeners w pr) p = Some l \<Longrightarrow>
      l < next_lst w \<and> (x \<longrightarrow> \<not> l_closed (lsts w l)) \<and> peer (l_addr (lsts w l)) = pr \<and> port (l_addr (lsts w l)) = p"
    and dist: "distinct (map fst (listeners w pr))" for pr p l
    using assms(1) unfolding listeners_inv_def by blast+
  show ?thesis
  proof (cases "dt_explicit t")
    case True
    with assms(2) have "map_of (listeners w (dt_peer t)) (dt_port t) = Some lid" "dial_matches t w lid"
      by (auto simp: dial_lookup_def split: option.splits if_splits)
    with reg True show ?thesis by simp
  next
    case False
    then have "filter (dial_matches t w) (map snd (listeners w (dt_peer t))) = [lid]"
      using assms(2) by (auto simp: dial_lookup_def split: list.splits)
    then have "lid \<in> set (filter (dial_matches t w) (map snd (listeners w (dt_peer t))))" by simp
    then obtain p where "(p, lid) \<in> set (listeners w (dt_peer t))" "dial_matches t w lid" by auto
    with dist have "map_of (listeners w (dt_peer t)) p = Some lid" "dial_matches t w lid"
      by (auto simp: map_of_eq_Some_iff)
    with reg False show ?thesis by simp
  qed
qed

lemma dial_reserve_net:
  assumes "net_inv x w" "lid < next_lst w"
  shows "net_inv x (snd (dial_reserve lid w))"
proof -
  have "listener_inv (snd (reserve (lsts w lid)))"
    using l_step_inv [OF net_listener(1) [OF assms], of LReserve] by simp
  moreover have "l_closed (snd (reserve (lsts w lid))) = l_closed (lsts w lid)"
    "l_addr (snd (reserve (lsts w lid))) = l_addr (lsts w lid)"
    "incoming (snd (reserve (lsts w lid))) = incoming (lsts w lid)"
    by (simp_all add: reserve_def)
  ultimately have "net_inv x (w\<lparr>lsts := (lsts w)(lid := snd (reserve (lsts w lid)))\<rparr>)"
    using assms net_listener(2) [OF assms] by (intro net_inv_lst) auto
  then show ?thesis by (simp add: dial_reserve_def case_prod_beta)
qed

lemma dial_reserve_same: "same_store (snd (dial_reserve lid w)) w"
  by (simp add: dial_reserve_def case_prod_beta)

lemma dial_reserve_inv: "world_inv w \<Longrightarrow> lid < next_lst w \<Longrightarrow> world_inv (snd (dial_reserve lid w))"
  by (blast intro: world_inv_net dial_reserve_net dial_reserve_same world_invD)

lemma dial_local_ip_net:
  "net_inv x w \<Longrightarrow> net_inv x (snd (dial_local_ip t ordinal lid w))" "same_store (snd (dial_local_ip t ordinal lid w)) w"
  by (simp_all add: dial_local_ip_def Let_def case_prod_beta)

lemma dial_local_ip_inv: "world_inv w \<Longrightarrow> world_inv (snd (dial_local_ip t ordinal lid w))"
  by (blast intro: world_inv_net dial_local_ip_net world_invD)

lemma dial_connect_inv:
  assumes "world_inv w" "dial_connect t ordinal i lid w = ((client, server), w')"
  shows "world_inv w'"
proof -
  note inv = world_invD [OF assms(1)]
  note eff = dial_connect_effect [OF store_inv_wired [OF inv(1)] assms(2)]
  have "listeners_inv True w'"
    using inv(3) unfolding listeners_inv_def eff(6,8-10) by (auto simp: less_SucI)
  with dial_connect_store_inv [OF inv(1) assms(2)] assms(1) show ?thesis
    by (simp add: world_inv_def net_inv_def eff)
qed

text \<open>The steps of a dial past the gate, each with the state it leaves.\<close>

lemma dial_establish_cases:
  assumes "dial_establish t w = Some (r, w')"
  obtains (refused) "dial_lookup t w = None" "w' = w"
      "r = DialFailed (dialOpError (dt_network t) (dt_addr t) ErrConnectionRefused)"
  | (unreserved) lid e where "dial_lookup t w = Some lid" "dial_reserve lid w = (Some e, w')"
      "r = DialFailed (dialOpError (dt_network t) (dt_addr t) e)"
  | (no_ip) lid w1 e where "dial_lookup t w = Some lid" "dial_reserve lid w = (None, w1)"
      "dial_local_ip t (nextOrdinal w1) lid (snd (dial_ordinal w1)) = (Inl e, w')"
      "r = DialFailed (dialOpError (dt_network t) (dt_addr t) e)"
  | (established) lid w1 i w3 client server w4 where
      "dial_lookup t w = Some lid" "dial_reserve lid w = (None, w1)"
      "dial_local_ip t (nextOrdinal w1) lid (snd (dial_ordinal w1)) = (Inr i, w3)"
      "dial_connect t (nextOrdinal w1) i lid w3 = ((client, server), w4)"
      "dial_fill lid server w4 = Some w'" "r = Dialed client"
proof (cases "dial_lookup t w")
  case None
  with assms show ?thesis by (intro refused) (simp_all add: dial_establish_def)
next
  case (Some lid)
  obtain e w1 where res: "dial_reserve lid w = (e, w1)" by fastforce
  show ?thesis
  proof (cases e)
    case e: (Some err)
    with assms Some res show ?thesis by (intro unreserved [of lid err]) (simp_all add: dial_establish_def)
  next
    case None
    obtain ri w3 where ipr: "dial_local_ip t (nextOrdinal w1) lid (snd (dial_ordinal w1)) = (ri, w3)" by fastforce
    show ?thesis
    proof (cases ri)
      case (Inl err)
      with assms Some res None ipr show ?thesis
        by (intro no_ip [of lid w1 err]) (simp_all add: dial_establish_def dial_ordinal_def)
    next
      case (Inr i)
      obtain client server w4 where dc: "dial_connect t (nextOrdinal w1) i lid w3 = ((client, server), w4)"
        by (metis prod.collapse)
      from assms Some res None ipr Inr dc have "dial_fill lid server w4 = Some w'" "r = Dialed client"
        by (auto simp: dial_establish_def dial_ordinal_def)
      with Some res None ipr Inr dc show ?thesis
        by (intro established [of lid w1 i w3 client server w4]) simp_all
    qed
  qed
qed

lemma dial_reserve_None:
  "dial_reserve lid w = (None, w1) \<Longrightarrow>
     \<not> l_closed (lsts w lid) \<and> int (length (incoming (lsts w lid))) + reserved (lsts w lid) < l_cap (lsts w lid)
     \<and> w1 = w\<lparr>lsts := (lsts w)(lid := (lsts w lid)\<lparr>reserved := reserved (lsts w lid) + 1\<rparr>)\<rparr>"
  by (auto simp: dial_reserve_def reserve_def split: if_splits)

lemma dial_local_ip_sel:
  "dial_local_ip t ordinal lid w = (r, w') \<Longrightarrow> \<exists>bk. w' = w\<lparr>book := bk\<rparr>
     \<and> peerIPLocked (dial_local_name t ordinal)
         (addressFamily (a_network (l_addr (lsts w lid))) (peer (l_addr (lsts w lid)))) (book w) = (r, bk)"
  by (auto simp: dial_local_ip_def Let_def split: prod.splits)

text \<open>The server end goes into the slot the dial claimed: the fill neither blocks nor closes it.\<close>

lemma dial_fill_claimed:
  assumes "lsts w lid = l\<lparr>reserved := reserved l + 1\<rparr>" "\<not> l_closed l"
    "int (length (incoming l)) + reserved l < l_cap l" "0 \<le> reserved l"
  shows "dial_fill lid c w = Some (w\<lparr>lsts := (lsts w)(lid := l\<lparr>incoming := incoming l @ [c]\<rparr>)\<rparr>)"
  using assms by (simp add: dial_fill_def fill_def Let_def)

lemma established_world:
  assumes inv: "world_inv w" and look: "dial_lookup t w = Some lid" and res: "dial_reserve lid w = (None, w1)"
    and ipr: "dial_local_ip t (nextOrdinal w1) lid (snd (dial_ordinal w1)) = (Inr i, w3)"
    and dc: "dial_connect t (nextOrdinal w1) i lid w3 = ((client, server), w4)"
  shows "dial_fill lid server w4 = Some (w4\<lparr>lsts := (lsts w)
      (lid := (lsts w lid)\<lparr>incoming := incoming (lsts w lid) @ [server]\<rparr>)\<rparr>)"
    "world_inv w4" "lid < next_lst w" "nextOrdinal w1 = nextOrdinal w" "wired w3" "next_conn w3 = next_conn w"
    "lsts w4 = (lsts w)(lid := (lsts w lid)\<lparr>reserved := reserved (lsts w lid) + 1\<rparr>)"
proof -
  note r = dial_reserve_None [OF res]
  have reg: "lid < next_lst w" using lookup_registered [OF world_invD(3) [OF inv] look] by simp
  then show "lid < next_lst w" .
  from dial_local_ip_sel [OF ipr] obtain bk where w3: "w3 = (snd (dial_ordinal w1))\<lparr>book := bk\<rparr>" by auto
  have "world_inv w1" using dial_reserve_inv [OF inv reg] res by simp
  then have inv3: "world_inv w3" by (simp add: w3 dial_ordinal_def)
  note eff = dial_connect_effect [OF store_inv_wired [OF world_invD(1) [OF inv3]] dc]
  show "nextOrdinal w1 = nextOrdinal w" using r by simp
  show "wired w3" by (rule store_inv_wired [OF world_invD(1) [OF inv3]])
  show "next_conn w3 = next_conn w" using r by (simp add: w3 dial_ordinal_def)
  show w4: "lsts w4 = (lsts w)(lid := (lsts w lid)\<lparr>reserved := reserved (lsts w lid) + 1\<rparr>)"
    using r by (simp add: eff(8) w3 dial_ordinal_def)
  show "world_inv w4" by (rule dial_connect_inv [OF inv3 dc])
  have "0 \<le> reserved (lsts w lid)" using world_listener(1) [OF inv reg] by (simp add: listener_inv_def)
  with r w4 show "dial_fill lid server w4 = Some (w4\<lparr>lsts := (lsts w)
      (lid := (lsts w lid)\<lparr>incoming := incoming (lsts w lid) @ [server]\<rparr>)\<rparr>)"
    by (subst dial_fill_claimed [of w4 lid "lsts w lid"]) simp_all
qed

lemma dial_establish_inv [inv_intros]:
  assumes inv: "world_inv w" and run: "dial_establish t w = Some (r, w')"
  shows "world_inv w'"
  using run
proof (cases rule: dial_establish_cases)
  case refused
  with inv show ?thesis by simp
next
  case (unreserved lid e)
  with dial_reserve_inv [OF inv, of lid] lookup_registered [OF world_invD(3) [OF inv] unreserved(1)]
  show ?thesis by simp
next
  case (no_ip lid w1 e)
  then have "world_inv w1"
    using dial_reserve_inv [OF inv, of lid] lookup_registered [OF world_invD(3) [OF inv] no_ip(1)] by simp
  then have "world_inv (snd (dial_ordinal w1))" by (simp add: dial_ordinal_def)
  from dial_local_ip_inv [OF this, of t "nextOrdinal w1" lid] no_ip(3) show ?thesis by simp
next
  case (established lid w1 i w3 client server w4)
  note e = established_world [OF inv established(1-4)]
  note eff = dial_connect_effect [OF e(5) established(4)]
  have lt: "lid < next_lst w4"
    using e(2,3) dial_reserve_None [OF established(2)] dial_local_ip_sel [OF established(3)]
    by (auto simp: eff(9) dial_ordinal_def)
  have w': "w' = w4\<lparr>lsts := (lsts w4)(lid := (lsts w lid)\<lparr>incoming := incoming (lsts w lid) @ [server]\<rparr>)\<rparr>"
    using e(1,7) established(5) by simp
  have "listener_inv ((lsts w lid)\<lparr>incoming := incoming (lsts w lid) @ [server]\<rparr>)"
    using dial_reserve_None [OF established(2)] world_listener(1) [OF inv e(3)]
    by (simp add: listener_inv_def)
  moreover have "server < next_conn w4" by (simp add: eff(2,6))
  moreover have "c < next_conn w4" if "c \<in> set (incoming (lsts w lid))" for c
    using world_listener(2) [OF inv e(3) that] by (simp add: eff(6) e(6))
  ultimately show ?thesis
    unfolding w' using e(2,7) by (intro world_inv_net [OF e(2)] net_inv_lst) (auto dest: world_invD)
qed

lemma dial_establish_returns:
  assumes "world_inv w"
  shows "\<exists>r w'. dial_establish t w = Some (r, w')"
proof (cases "dial_lookup t w")
  case None
  then show ?thesis by (simp add: dial_establish_def)
next
  case (Some lid)
  obtain e w1 where res: "dial_reserve lid w = (e, w1)" by fastforce
  show ?thesis
  proof (cases e)
    case None
    obtain ri w3 where ipr: "dial_local_ip t (nextOrdinal w1) lid (snd (dial_ordinal w1)) = (ri, w3)" by fastforce
    show ?thesis
    proof (cases ri)
      case (Inr i)
      obtain client server w4 where dc: "dial_connect t (nextOrdinal w1) i lid w3 = ((client, server), w4)"
        by (metis prod.collapse)
      from established_world(1) [OF assms Some res [unfolded None] ipr [unfolded Inr] dc]
      show ?thesis using Some res None ipr Inr dc by (simp add: dial_establish_def dial_ordinal_def)
    qed (use Some res None ipr in \<open>simp add: dial_establish_def dial_ordinal_def\<close>)
  qed (use Some res in \<open>simp add: dial_establish_def\<close>)
qed

lemma dial_resolve_net:
  "net_inv x w \<Longrightarrow> net_inv x (snd (dial_resolve ctx network a w))" "same_store (snd (dial_resolve ctx network a w)) w"
  using canonicalPeer_net
  by (auto simp: dial_resolve_def Let_def case_prod_beta split: option.split sum.split)

lemma dial_self_net:
  "net_inv x w \<Longrightarrow> net_inv x (snd (dial_self ctx t w))" "same_store (snd (dial_self ctx t w)) w"
  using canonicalPeer_net by (auto simp: dial_self_def case_prod_beta split: option.split)

lemma dial_prepare_inv [inv_intros]:
  assumes "world_inv w" "dial_prepare ctx network a w = (r, w')"
  shows "world_inv w'"
proof -
  obtain e w1 where d: "dial_resolve ctx network a w = (e, w1)" by fastforce
  have w1: "net_inv True w1" "same_store w1 w"
    using dial_resolve_net(1) [of True w ctx network a] dial_resolve_net(2) [of ctx network a w] d world_invD(2) [OF assms(1)] by simp_all
  have "net_inv True w' \<and> same_store w' w"
  proof (cases e)
    case (Inr t)
    with assms(2) d have "w' = snd (dial_self ctx t w1)" by (auto simp: dial_prepare_def Let_def split: prod.splits)
    with w1 dial_self_net(1) [of True w1 ctx t] dial_self_net(2) [of ctx t w1] same_store_trans show ?thesis by blast
  qed (use assms(2) d w1 in \<open>simp add: dial_prepare_def\<close>)
  with world_inv_net [OF assms(1)] show ?thesis by blast
qed

lemma dial_established:
  assumes "world_inv w" and "dial_establish t w = Some (Dialed client, w')"
  shows "\<exists>lid i. dial_lookup t w = Some lid \<and> client = next_conn w
    \<and> lsts w' = (lsts w)(lid := (lsts w lid)\<lparr>incoming := incoming (lsts w lid) @ [Suc client]\<rparr>)
    \<and> nextOrdinal w' = nextOrdinal w + 1
    \<and> conns w' = (conns w)
        (client := (newConn (dial_local_addr t (nextOrdinal w) i) (dial_remote_addr t lid w) (dt_network t)
                      (nextOrdinal w) sideDialer (Suc client) client)\<lparr>c_nw := True, c_pair := dial_pair t (nextOrdinal w)\<rparr>,
         Suc client := (newConn (dial_remote_addr t lid w) (dial_local_addr t (nextOrdinal w) i) (dt_network t)
                      (nextOrdinal w) sideAcceptor client (Suc client))\<lparr>c_nw := True, c_pair := dial_pair t (nextOrdinal w)\<rparr>)
    \<and> pipes w' = (pipes w)(client := dialed_pipe t (nextOrdinal w) sideDialer w,
                           Suc client := dialed_pipe t (nextOrdinal w) sideAcceptor w)
    \<and> resetTargets w' = (resetTargets w)(dial_pair t (nextOrdinal w) :=
        resetTargets w (dial_pair t (nextOrdinal w)) @ [client, Suc client])
    \<and> traces w' = traces w @ (if w_traceEnabled w
        then [(nextOrdinal w, sideDialer, client), (nextOrdinal w, sideAcceptor, Suc client)] else [])
    \<and> clock w' = clock w \<and> parts w' = parts w \<and> faults w' = faults w
    \<and> next_conn w' = Suc (Suc client) \<and> next_lst w' = next_lst w"
  using assms(2)
proof (cases rule: dial_establish_cases)
  case (established lid w1 i w3 c server w4)
  note e = established_world [OF assms(1) established(1-4)]
  note eff = dial_connect_effect [OF e(5) established(4)]
  from dial_local_ip_sel [OF established(3)] obtain bk where
    w3: "w3 = (snd (dial_ordinal w1))\<lparr>book := bk\<rparr>" by auto
  note r = dial_reserve_None [OF established(2)]
  have same: "conns w3 = conns w" "pipes w3 = pipes w" "resetTargets w3 = resetTargets w" "seed w3 = seed w"
    "traces w3 = traces w" "w_traceEnabled w3 = w_traceEnabled w" "w_pipeBound w3 = w_pipeBound w"
    "nextOrdinal w3 = nextOrdinal w + 1" "l_addr (lsts w3 lid) = l_addr (lsts w lid)" "clock w3 = clock w" "parts w3 = parts w" "faults w3 = faults w"
    "next_conn w3 = next_conn w" "next_lst w3 = next_lst w"
    using r by (simp_all add: w3 dial_ordinal_def)
  have c: "client = c" "c = next_conn w" "server = Suc c" using established(6) eff(1,2) e(6) by simp_all
  have w': "w' = w4\<lparr>lsts := (lsts w)(lid := (lsts w lid)\<lparr>incoming := incoming (lsts w lid) @ [server]\<rparr>)\<rparr>"
    using e(1) established(5) by simp
  have ad: "dial_remote_addr t lid w3 = dial_remote_addr t lid w" "dialed_pipe t o' sd w3 = dialed_pipe t o' sd w" for o' sd
    by (simp_all add: dial_remote_addr_def dialed_pipe_def same)
  show ?thesis
    unfolding c(1) using established(1) c(2)
    by (intro exI [of _ lid] exI [of _ i]) (simp add: w' eff(3-6,9,11-13,15,18) same ad e(4) c(3))
qed simp_all

section \<open>The network as a step system\<close>

text \<open>
  What the clients of a network, the clock and the timers may do next. Reads and writes take
  one atomic section at a time, from any place of their loop; the preparation of a dial, its
  establishment, \<open>Close\<close> and \<open>Reset\<close> are one step each.
\<close>

inductive world_step :: "bool \<Rightarrow> world \<Rightarrow> world \<Rightarrow> bool" for plan9 :: bool where
  ws_tick: "clock w \<le> t \<Longrightarrow> world_step plan9 w (w\<lparr>clock := t\<rparr>)"
| ws_timer: "i < next_pipe w \<Longrightarrow> timer (pipes w i) = Some t \<Longrightarrow> t \<le> clock w \<Longrightarrow>
    world_step plan9 w (upd_pipe i (releaseDueLatency (env_of w)) w)"
| ws_fire_read: "dl_timer (rd (conns w c)) = Some t \<Longrightarrow> t \<le> clock w \<Longrightarrow>
    world_step plan9 w (upd_conn c (\<lambda>cn. cn\<lparr>rd := deadline_fire (rd cn)\<rparr>) w)"
| ws_fire_write: "dl_timer (wd (conns w c)) = Some t \<Longrightarrow> t \<le> clock w \<Longrightarrow>
    world_step plan9 w (upd_conn c (\<lambda>cn. cn\<lparr>wd := deadline_fire (wd cn)\<rparr>) w)"
| ws_read: "c < next_conn w \<Longrightarrow> world_step plan9 w (snd (read_step plan9 len c pc w))"
| ws_write: "c < next_conn w \<Longrightarrow> write_step plan9 data c pc w = Some (pc', w') \<Longrightarrow> world_step plan9 w w'"
| ws_close: "c < next_conn w \<Longrightarrow> world_step plan9 w (conn_Close c w)"
| ws_deadline: "c < next_conn w \<Longrightarrow> world_step plan9 w (snd (SetDeadline t c w))"
| ws_read_deadline: "c < next_conn w \<Longrightarrow> world_step plan9 w (snd (SetReadDeadline t c w))"
| ws_write_deadline: "c < next_conn w \<Longrightarrow> world_step plan9 w (snd (SetWriteDeadline t c w))"
| ws_listen: "world_step plan9 w (snd (Listen network laddr w))"
| ws_mark: "lid < next_lst w \<Longrightarrow> world_step plan9 w (snd (listener_Close_mark lid w))"
| ws_drain: "lid < next_lst w \<Longrightarrow> l_closed (lsts w lid) \<Longrightarrow> world_step plan9 w (listener_Close_drain lid w)"
| ws_accept: "lid < next_lst w \<Longrightarrow> (r, w') \<in> set (Accept_outcomes lid w) \<Longrightarrow> world_step plan9 w w'"
| ws_prepare: "dial_prepare ctx network a w = (r, w') \<Longrightarrow> world_step plan9 w w'"
| ws_establish: "dial_gate t w = None \<Longrightarrow> dial_establish t w = Some (r, w') \<Longrightarrow> world_step plan9 w w'"
| ws_partition: "Partition a b w = Inr w' \<Longrightarrow> world_step plan9 w w'"
| ws_heal: "Heal a b w = Inr w' \<Longrightarrow> world_step plan9 w w'"
| ws_reset: "Reset a b w = Inr w' \<Longrightarrow> world_step plan9 w w'"
| ws_latency: "SetLatency dmin dmax w = Inr w' \<Longrightarrow> world_step plan9 w w'"
| ws_loss: "SetPacketLoss rate w = Inr w' \<Longrightarrow> world_step plan9 w w'"
| ws_duplication: "SetDuplication rate w = Inr w' \<Longrightarrow> world_step plan9 w w'"
| ws_corruption: "SetCorruption rate w = Inr w' \<Longrightarrow> world_step plan9 w w'"

definition world_init :: "world \<Rightarrow> bool" where
  "world_init w \<longleftrightarrow> (\<exists>now opts. NewNetwork now opts = Inr w)"

lemma static_partitions_inv:
  "world_inv w \<Longrightarrow> world_inv (fold addStaticPartition ps w)"
proof (induction ps arbitrary: w)
  case (Cons pp ps)
  have "world_inv (addStaticPartition pp w)"
    using resolvePair_inv [OF Cons.prems] by (simp add: addStaticPartition_def Let_def case_prod_beta)
  with Cons.IH show ?case by simp
qed simp

lemma faults_ok_truncate: "faults_ok (faultConfig.truncate c) = faults_ok c"
  by (simp add: faults_ok_def faultConfig.truncate_def)

lemma emptyWorld_inv:
  assumes "config_validate cfg = None"
  shows "world_inv (emptyWorld now cfg)"
proof -
  have "0 < defaultPipeBound" "0 < listenerBacklogDefault"
    by (simp_all add: defaultPipeBound_def listenerBacklogDefault_def)
  with assms have "faults_ok (faults (emptyWorld now cfg))" "0 < w_pipeBound (emptyWorld now cfg)"
    "0 < w_listenerBacklog (emptyWorld now cfg)"
    by (auto simp: emptyWorld_def faults_ok_truncate config_validate_None)
  moreover have "store_inv (emptyWorld now cfg)"
    by (simp add: emptyWorld_def store_inv_def wired_def flags_inv_def registry_inv_def)
  moreover have "listeners_inv True (emptyWorld now cfg)"
    by (simp add: emptyWorld_def listeners_inv_def)
  ultimately show ?thesis by (simp add: world_inv_def net_inv_def)
qed

lemma NewNetwork_inv: "NewNetwork now opts = Inr w \<Longrightarrow> world_inv w"
  by (auto simp: NewNetwork_def emptyWorld_inv static_partitions_inv split: sum.splits option.splits)

lemma set_faults_inv:
  assumes "world_inv w" "set_faults f w = Inr w'" "\<And>c c'. faults_ok c \<Longrightarrow> f c = Inr c' \<Longrightarrow> faults_ok c'"
  shows "world_inv w'"
proof -
  have "faults_ok (faults w)" using assms(1) by (simp add: world_inv_def net_inv_def)
  with assms have "net_inv True w'" "same_store w' w"
    by (auto simp: set_faults_def intro!: net_inv_faults dest: world_invD split: sum.splits)
  with world_inv_net [OF assms(1)] show ?thesis by blast
qed

lemma set_parts_inv:
  assumes "world_inv w"
  shows "Partition a b w = Inr w' \<Longrightarrow> world_inv w'" "Heal a b w = Inr w' \<Longrightarrow> world_inv w'"
  using resolvePair_inv [OF assms, of a b]
  by (auto simp: Partition_def Heal_def Let_def case_prod_beta split: option.splits)

lemma Reset_inv:
  assumes "world_inv w" "Reset a b w = Inr w'"
  shows "world_inv w'"
proof -
  from assms(2) have w': "w' = reset_pair (fst (resolvePair a b w)) (snd (resolvePair a b w))"
    by (auto simp: Reset_def Let_def case_prod_beta split: option.splits)
  have "world_inv (snd (resolvePair a b w))" by (rule resolvePair_inv [OF assms(1)])
  then show ?thesis
    unfolding w' using world_inv_store [OF _ same_net_reset reset_pair_inv] world_invD(1) by blast
qed

lemma timer_world_inv:
  assumes inv: "world_inv w" and i: "i < next_pipe w"
  shows "world_inv (upd_pipe i (releaseDueLatency (env_of w)) w)"
proof -
  have "store_inv (upd_pipe i (releaseDueLatency (env_of w)) w)"
  proof (rule store_inv_pipe [OF world_invD(1) [OF inv]])
    show "pipe_inv (releaseDueLatency (env_of w) (pipes w i))"
      using world_invD(1) [OF inv] i by (intro release_inv) (simp add: store_inv_def)
    show "p_closed (releaseDueLatency (env_of w) (pipes w i)) = p_closed (pipes w i)"
      "readClosed (releaseDueLatency (env_of w) (pipes w i)) = readClosed (pipes w i)"
      by (simp_all add: releaseDueLatency_def Let_def)
  qed
  then show ?thesis using world_inv_store [OF inv] by simp
qed

lemma conn_world_inv:
  assumes inv: "world_inv w"
  shows "world_inv (upd_conn c (\<lambda>cn. cn\<lparr>rd := deadline_fire (rd cn)\<rparr>) w)"
    "world_inv (upd_conn c (\<lambda>cn. cn\<lparr>wd := deadline_fire (wd cn)\<rparr>) w)"
    "world_inv (snd (SetDeadline t c w))" "world_inv (snd (SetReadDeadline t c w))"
    "world_inv (snd (SetWriteDeadline t c w))"
proof -
  have "store_inv (upd_conn c (\<lambda>cn. cn\<lparr>rd := deadline_fire (rd cn)\<rparr>) w)"
    "store_inv (upd_conn c (\<lambda>cn. cn\<lparr>wd := deadline_fire (wd cn)\<rparr>) w)"
    by (rule store_inv_conn [OF world_invD(1) [OF inv]]; simp)+
  then show "world_inv (upd_conn c (\<lambda>cn. cn\<lparr>rd := deadline_fire (rd cn)\<rparr>) w)"
    "world_inv (upd_conn c (\<lambda>cn. cn\<lparr>wd := deadline_fire (wd cn)\<rparr>) w)"
    using world_inv_store [OF inv] by simp_all
  have "same_net (snd (SetDeadline t c w)) w" "same_net (snd (SetReadDeadline t c w)) w"
    "same_net (snd (SetWriteDeadline t c w)) w"
    by (simp_all add: SetDeadline_def SetReadDeadline_def SetWriteDeadline_def)
  then show "world_inv (snd (SetDeadline t c w))" "world_inv (snd (SetReadDeadline t c w))"
    "world_inv (snd (SetWriteDeadline t c w))"
    using world_inv_store [OF inv] deadline_inv [OF world_invD(1) [OF inv]] by blast+
qed

lemma io_world_inv:
  assumes inv: "world_inv w" and c: "c < next_conn w"
  shows "world_inv (snd (read_step plan9 len c pc w))"
    "write_step plan9 data c wpc w = Some (wpc', w') \<Longrightarrow> world_inv w'"
    "world_inv (conn_Close c w)"
  using world_inv_store [OF inv same_net_read read_step_inv [OF world_invD(1) [OF inv] c]]
    world_inv_store [OF inv same_net_write write_step_inv [OF world_invD(1) [OF inv] c]]
    world_inv_store [OF inv same_net_Close conn_Close_inv [OF world_invD(1) [OF inv] c]]
  by blast+

lemma setters_world_inv:
  assumes inv: "world_inv w"
  shows "SetLatency dmin dmax w = Inr w' \<Longrightarrow> world_inv w'" "SetPacketLoss rate w = Inr w' \<Longrightarrow> world_inv w'"
    "SetDuplication rate w = Inr w' \<Longrightarrow> world_inv w'" "SetCorruption rate w = Inr w' \<Longrightarrow> world_inv w'"
  unfolding SetLatency_def SetPacketLoss_def SetDuplication_def SetCorruption_def
  using set_faults_inv [OF inv] setters_ok by metis+

lemma world_step_inv:
  assumes "world_step plan9 w w'" "world_inv w"
  shows "world_inv w'"
  using assms
proof (induction rule: world_step.induct)
  case (ws_tick w t)
  then show ?case by simp
next
  case (ws_reset a b w w')
  then show ?case by (blast intro: Reset_inv)
qed (blast intro: timer_world_inv conn_world_inv io_world_inv Listen_inv mark_inv drain_inv accept_inv
       dial_prepare_inv dial_establish_inv set_parts_inv setters_world_inv)+

interpretation network: invariant_system world_init "world_step plan9" world_inv
proof
  show "world_init s \<Longrightarrow> world_inv s" for s
    by (auto simp: world_init_def NewNetwork_inv)
  show "world_inv s \<Longrightarrow> world_step plan9 s t \<Longrightarrow> world_inv t" for s t
    by (blast intro: world_step_inv)
qed

end
