(* ===== verification/Examples.thy ===== *)
theory Examples
  imports NetworkInv
begin

text \<open>
  A concrete network for the witnesses: one listener on \<open>s:80\<close>, and the phases of a dial to it.
\<close>

section \<open>A network with one listener\<close>

definition net0 :: world where
  "net0 = emptyWorld 0 initialConfig"

lemma initialConfig_eq:
  "initialConfig = \<lparr>lossEnabled = False, lossRate = Finite 0, latencyEnabled = False, latencyMin = 0,
     latencyMax = 0, bandwidthEnabled = False, bandwidthBPS = 0, duplicateEnabled = False,
     duplicateRate = Finite 0, corruptEnabled = False, corruptRate = Finite 0,
     cfg_seed = defaultSeed, cfg_traceEnabled = True, staticPartitions = [], pipeBoundEnabled = False,
     cfg_pipeBound = 0, listenerBacklogEnabled = False, cfg_listenerBacklog = 0\<rparr>"
  by (simp add: initialConfig_def noFaults_def faultConfig.defs networkConfig.defs)

lemma net0_new: "NewNetwork 0 [] = Inr net0"
proof -
  have "config_validate initialConfig = None"
    unfolding config_validate_None by (simp add: faults_ok_def initialConfig_eq)
  then show ?thesis by (simp add: NewNetwork_def net0_def) (simp add: initialConfig_eq)
qed

definition serverAddr :: addr where
  "serverAddr = \<lparr>a_network = ''tcp'', peer = ''s'', port = 80, ip = Some [198, 18, 0, 0]\<rparr>"

definition serverBook :: addressBook where
  "serverBook = \<lparr>ipOwners = [Addr_String (candidate4 0) \<mapsto> ''s''],
     peerIPs = (\<lambda>_. Map.empty)(''s'' := [4 \<mapsto> [198, 18, 0, 0]]), nextIPv4 = 1, nextIPv6 = 0\<rparr>"

definition net1 :: world where
  "net1 = net0\<lparr>lsts := (lsts net0)(0 := newListener serverAddr listenerBacklogDefault), next_lst := 1,
      listeners := (listeners net0)(''s'' := [(80, 0)]), book := serverBook\<rparr>"

lemma parse_facts:
  "validateNetwork ''tcp'' = None" "parseLiteralIP ''s'' = None" "splitAddr ''s:80'' = Inr (''s'', 80, True)"
proof -
  show "validateNetwork ''tcp'' = None" "parseLiteralIP ''s'' = None" by code_simp+
  have "parseLiteralIP ''s:80'' = None"
    by (simp add: parseLiteralIP_def ParseAddr_def parseIPv6_def Let_def hex_val_def numeral_eq_Suc)
  moreover have "SplitHostPort ''s:80'' = Some (''s'', ''80'')" "Atoi ''80'' = Some 80" by code_simp+
  ultimately show "splitAddr ''s:80'' = Inr (''s'', 80, True)"
    by (simp add: splitAddr_def maxPort_def)
qed

lemma server_address: "peerIPLocked ''s'' 4 emptyBook = (Inr [198, 18, 0, 0], serverBook)"
proof -
  have "alloc4 Map.empty 0 = (Some (candidate4 0), 1)" by (subst alloc4.simps) simp
  then show ?thesis
    by (simp add: peerIPLocked_def parse_facts emptyBook_def allocate_def candidate4_def serverBook_def)
qed

lemma net0_sel:
  "listeners net0 = (\<lambda>_. [])" "book net0 = emptyBook" "next_lst net0 = 0" "w_listenerBacklog net0 = listenerBacklogDefault"
  "next_conn net0 = 0" "next_pipe net0 = 0" "nextOrdinal net0 = 0" "clock net0 = 0" "w_traceEnabled net0"
  "parts net0 = \<lparr>partitions = {}, partNotify = 0\<rparr>" "resetTargets net0 = (\<lambda>_. [])" "faults net0 = noFaults" "traces net0 = []"
  by (simp_all add: net0_def emptyWorld_def initialConfig_eq noFaults_def faultConfig.truncate_def)

lemma listen_s: "Listen ''tcp'' ''s:80'' net0 = (Inr 0, net1)"
  by (simp add: Listen_def parse_facts canonicalPeer_def canonical_name listen_at_def net0_sel
      addressFamily_def server_address register_listener_def net1_def serverAddr_def Let_def)

lemma net1_sel:
  "lsts net1 0 = newListener serverAddr listenerBacklogDefault" "next_lst net1 = 1"
  "listeners net1 = (\<lambda>_. [])(''s'' := [(80, 0)])" "book net1 = serverBook"
  "next_conn net1 = 0" "next_pipe net1 = 0" "nextOrdinal net1 = 0" "clock net1 = 0" "w_traceEnabled net1"
  "parts net1 = \<lparr>partitions = {}, partNotify = 0\<rparr>" "resetTargets net1 = (\<lambda>_. [])" "faults net1 = noFaults" "traces net1 = []"
  by (simp_all add: net1_def net0_sel)

lemma net1_inv: "world_inv net1"
  using Listen_inv [OF NewNetwork_inv [OF net0_new], of "''tcp''" "''s:80''"] by (simp add: listen_s)

section \<open>A dial to it\<close>

definition tgt :: dialTarget where
  "tgt = \<lparr>dt_network = ''tcp'', dt_addr = ''s:80'', dt_peer = ''s'', dt_port = 80, dt_explicit = True,
     dt_ip = None, dt_local = None\<rparr>"

lemma tgt_resolved: "dial_resolve backgroundCtx ''tcp'' ''s:80'' net1 = (Inr tgt, net1)"
  by (simp add: dial_resolve_def backgroundCtx_def parse_facts canonicalPeer_def canonical_name tgt_def)

lemma tgt_self: "dial_self backgroundCtx tgt net1 = (tgt, net1)"
  by (simp add: dial_self_def backgroundCtx_def)

lemma tgt_lookup: "dial_lookup tgt net1 = Some 0"
  by (simp add: dial_lookup_def tgt_def net1_sel dial_matches_def)

definition net2 :: world where
  "net2 = net1\<lparr>lsts := (lsts net1)(0 := (newListener serverAddr listenerBacklogDefault)\<lparr>reserved := 1\<rparr>)\<rparr>"

lemma tgt_reserved: "dial_reserve 0 net1 = (None, net2)"
  by (simp add: dial_reserve_def reserve_def net1_sel newListener_def listenerBacklogDefault_def net2_def)

lemma tgt_ip:
  "\<exists>bk. dial_local_ip tgt 0 0 (net2\<lparr>nextOrdinal := 1\<rparr>) = (Inr [198, 18, 0, 1], net2\<lparr>nextOrdinal := 1, book := bk\<rparr>)"
proof -
  have d0: "digit 0 = CHR ''0''" by code_simp
  have name: "dial_local_name tgt 0 = ''ephemeral-0''" "parseLiteralIP ''ephemeral-0'' = None"
    by (simp_all add: dial_local_name_def dialer_named_def tgt_def ephemeralPeerName_def itoa.simps
        parseLiteralIP_def ParseAddr_def d0)
  have "Addr_String (candidate4 0) = ''198.18.0.0''" "Addr_String (candidate4 1) = ''198.18.0.1''" by code_simp+
  then have "alloc4 [Addr_String (candidate4 0) \<mapsto> ''s''] 1 = (Some (candidate4 1), 2)"
    by (subst alloc4.simps) (simp add: word_le_nat_alt)
  then show ?thesis
    by (simp add: dial_local_ip_def name net2_def net1_sel serverBook_def peerIPLocked_def newListener_def
        serverAddr_def addressFamily_def parse_facts allocate_def candidate4_def)
      (rule exI, rule refl)
qed

lemma establish_net1: "\<exists>w'. dial_establish tgt net1 = Some (Dialed 0, w')"
proof -
  obtain r w' where run: "dial_establish tgt net1 = Some (r, w')" using dial_establish_returns [OF net1_inv] by blast
  from run show ?thesis
  proof (cases rule: dial_establish_cases)
    case (no_ip lid w1 e)
    with tgt_ip tgt_lookup tgt_reserved show ?thesis by (auto simp: dial_ordinal_def net2_def net1_sel)
  next
    case (established lid w1 i w3 client server w4)
    note e = established_world [OF net1_inv established(1-4)]
    have "client = 0" using dial_connect_effect(1) [OF e(5) established(4)] e(6) by (simp add: net1_sel)
    with established(6) run show ?thesis by simp
  qed (use tgt_lookup tgt_reserved in auto)
qed

text \<open>The world after the dial: both ends are fresh, over two empty pipes.\<close>

lemma dialed_world:
  "\<exists>v. DialContext backgroundCtx ''tcp'' ''s:80'' net1 = Some (Dialed 0, v) \<and> next_conn v = 2 \<and> next_lst v = 1
     \<and> (\<exists>la ra. conns v 0 = (newConn la ra ''tcp'' 0 sideDialer 1 0)\<lparr>c_nw := True, c_pair := dial_pair tgt 0\<rparr>)
     \<and> (\<exists>la ra. conns v 1 = (newConn la ra ''tcp'' 0 sideAcceptor 0 1)\<lparr>c_nw := True, c_pair := dial_pair tgt 0\<rparr>)
     \<and> pipes v 0 = dialed_pipe tgt 0 sideDialer net1 \<and> pipes v 1 = dialed_pipe tgt 0 sideAcceptor net1
     \<and> parts v = \<lparr>partitions = {}, partNotify = 0\<rparr> \<and> clock v = 0
     \<and> faults v = noFaults \<and> traces v = [(0, sideDialer, 0), (0, sideAcceptor, 1)]"
proof -
  obtain v where run: "dial_establish tgt net1 = Some (Dialed 0, v)" using establish_net1 by blast
  have "dial_prepare backgroundCtx ''tcp'' ''s:80'' net1 = (Inr tgt, net1)"
    by (simp add: dial_prepare_def tgt_resolved tgt_self)
  moreover have "dial_gate tgt net1 = None" by (simp add: dial_gate_def dialer_named_def tgt_def)
  ultimately have d: "DialContext backgroundCtx ''tcp'' ''s:80'' net1 = Some (Dialed 0, v)"
    using run by (simp add: DialContext_def)
  have t: "dt_network tgt = ''tcp''" by (simp add: tgt_def)
  from dial_established [OF net1_inv run]
  show ?thesis
    by (elim exE conjE, intro exI [of _ v]) (simp add: d net1_sel t numeral_2_eq_2, blast)
qed

lemma dial_net1: "\<exists>v. DialContext backgroundCtx ''tcp'' ''s:80'' net1 = Some (Dialed 0, v)"
  using dialed_world by blast

end
