(* ===== verification/Service.thy ===== *)
theory Service
  imports Examples
begin

text \<open>
  What the calls of a network do, one call at a time: the well-formedness of every reachable
  network, what \<open>Listen\<close> and a dial do when they succeed and when they fail, and the partition
  gate a named dial waits at.
\<close>

section \<open>The invariant\<close>

text \<open>
  C3. In every state a network can reach, one call at a time: connections and pipes are allocated
  in crossed pairs and every pipe is in order; a pipe is aborted exactly when its reading end is
  closed or reset, and closed exactly when either end is; the reset registry holds exactly the
  ends that are up, each under its pair; a listener is registered under its peer and port exactly
  while it is open, and its queue never exceeds its backlog.
\<close>

theorem network_wellformed:
  assumes "reach world_init (world_step plan9) w"
  shows "(\<forall>c < next_conn w. writePipe (conns w c) = c \<and> readPipe (conns w c) = peer_of c \<and> pipe_inv (pipes w c)
      \<and> (readClosed (pipes w (peer_of c)) \<longleftrightarrow> conn_down (conns w c))
      \<and> (p_closed (pipes w c) \<longleftrightarrow> conn_down (conns w c) \<or> conn_down (conns w (peer_of c))))
    \<and> (\<forall>k c. c \<in> set (resetTargets w k) \<longleftrightarrow>
        c < next_conn w \<and> c_nw (conns w c) \<and> c_pair (conns w c) = k \<and> \<not> conn_down (conns w c))
    \<and> (\<forall>pr p lid. map_of (listeners w pr) p = Some lid \<longleftrightarrow>
        lid < next_lst w \<and> \<not> l_closed (lsts w lid)
        \<and> peer (l_addr (lsts w lid)) = pr \<and> port (l_addr (lsts w lid)) = p)
    \<and> (\<forall>lid < next_lst w. \<not> l_closed (lsts w lid) \<longrightarrow>
        int (length (incoming (lsts w lid))) + reserved (lsts w lid) \<le> l_cap (lsts w lid))"
proof -
  have inv: "world_inv w" by (rule network.reach_inv [OF assms])
  note st = world_invD(1) [OF inv]
  have "writePipe (conns w c) = c \<and> readPipe (conns w c) = peer_of c \<and> pipe_inv (pipes w c)
      \<and> (readClosed (pipes w (peer_of c)) \<longleftrightarrow> conn_down (conns w c))
      \<and> (p_closed (pipes w c) \<longleftrightarrow> conn_down (conns w c) \<or> conn_down (conns w (peer_of c)))"
    if "c < next_conn w" for c
    using that wired_pipes [OF store_inv_wired [OF st] that] st by (auto simp: store_inv_def wired_def flags_inv_def)
  moreover have "\<forall>k c. c \<in> set (resetTargets w k) \<longleftrightarrow>
        c < next_conn w \<and> c_nw (conns w c) \<and> c_pair (conns w c) = k \<and> \<not> conn_down (conns w c)"
    using reset_targets [OF st] by blast
  moreover have "\<forall>pr p lid. map_of (listeners w pr) p = Some lid \<longleftrightarrow>
        lid < next_lst w \<and> \<not> l_closed (lsts w lid)
        \<and> peer (l_addr (lsts w lid)) = pr \<and> port (l_addr (lsts w lid)) = p"
    using listeners_exact [OF world_invD(3) [OF inv]] by blast
  moreover have "\<forall>lid < next_lst w. \<not> l_closed (lsts w lid) \<longrightarrow>
        int (length (incoming (lsts w lid))) + reserved (lsts w lid) \<le> l_cap (lsts w lid)"
    using world_listener(1) [OF inv] by (simp add: listener_inv_def)
  ultimately show ?thesis by blast
qed

theorem network_wellformed_witness:
  "map_of (listeners net1 ''s'') 80 = Some 0
    \<and> (0 < next_lst net1 \<and> \<not> l_closed (lsts net1 0) \<and> peer (l_addr (lsts net1 0)) = ''s'' \<and> port (l_addr (lsts net1 0)) = 80)"
proof -
  have "reach world_init (world_step False) net0"
    using net0_new by (intro reach_init) (auto simp: world_init_def)
  moreover have "world_step False net0 net1" using ws_listen [of False net0 "''tcp''" "''s:80''"] by (simp add: listen_s)
  ultimately have "reach world_init (world_step False) net1" by (rule reach_step)
  from network_wellformed [OF this] have "map_of (listeners net1 ''s'') 80 = Some 0 \<longleftrightarrow>
     0 < next_lst net1 \<and> \<not> l_closed (lsts net1 0) \<and> peer (l_addr (lsts net1 0)) = ''s'' \<and> port (l_addr (lsts net1 0)) = 80"
    by blast
  then show ?thesis by (simp add: net1_sel)
qed

section \<open>Establishing a connection\<close>

text \<open>
  C5. A dial that succeeds takes the next ordinal and makes one pair of connections: the two
  addresses mirror each other and the server's is its listener's; each direction has streams
  derived from the seed, that ordinal and its own side; both ends can be reset under the pair; both
  directions are traced; the server end is at the back of the listener's queue and the slot the
  dial claimed is given back. Nothing else of connections and pipes changes.
\<close>

theorem dial_establishes:
  assumes "world_inv w" and "dial_establish t w = Some (Dialed client, w')"
  shows "\<exists>lid i. dial_lookup t w = Some lid \<and> client = next_conn w
    \<and> lsts w' = (lsts w)(lid := (lsts w lid)\<lparr>incoming := incoming (lsts w lid) @ [Suc client]\<rparr>)
    \<and> nextOrdinal w' = nextOrdinal w + 1
    \<and> conns w' = (conns w)
        (client := (newConn (dial_local_addr t (nextOrdinal w) i) (dial_remote_addr t lid w) (dt_network t)
                      (nextOrdinal w) sideDialer (Suc client) client)\<lparr>c_nw := True, c_pair := dial_pair t (nextOrdinal w)\<rparr>,
         Suc client := (newConn (dial_remote_addr t lid w) (dial_local_addr t (nextOrdinal w) i) (dt_network t)
                      (nextOrdinal w) sideAcceptor client (Suc client))\<lparr>c_nw := True, c_pair := dial_pair t (nextOrdinal w)\<rparr>)
    \<and> pipes w' = (pipes w)(client := dialed_pipe t (nextOrdinal w) sideDialer w,
                           Suc client := dialed_pipe t (nextOrdinal w) sideAcceptor w)
    \<and> resetTargets w' = (resetTargets w)(dial_pair t (nextOrdinal w) :=
        resetTargets w (dial_pair t (nextOrdinal w)) @ [client, Suc client])
    \<and> traces w' = traces w @ (if w_traceEnabled w
        then [(nextOrdinal w, sideDialer, client), (nextOrdinal w, sideAcceptor, Suc client)] else [])
    \<and> clock w' = clock w \<and> parts w' = parts w \<and> faults w' = faults w
    \<and> next_conn w' = Suc (Suc client) \<and> next_lst w' = next_lst w"
  by (rule dial_established [OF assms])

theorem dial_establishes_witness:
  "\<exists>w'. dial_establish tgt net1 = Some (Dialed 0, w') \<and> incoming (lsts w' 0) = [1] \<and> nextOrdinal w' = 1
     \<and> c_remote (conns w' 0) = \<lparr>a_network = ''tcp'', peer = ''s'', port = 80, ip = Some [198, 18, 0, 0]\<rparr>
     \<and> c_local (conns w' (Suc 0)) = c_remote (conns w' 0)"
proof -
  obtain w' where run: "dial_establish tgt net1 = Some (Dialed 0, w')" using establish_net1 by blast
  from dial_establishes [OF net1_inv run] tgt_lookup run show ?thesis
    by (auto simp: net1_sel newListener_def newConn_def dial_remote_addr_def serverAddr_def tgt_def)
qed

section \<open>Dials that fail\<close>

text \<open>
  C22. How a dial past the gate fails. Refused because nothing matches, or because the backlog is
  full: nothing changes, no ordinal is taken. The one other way is that the dialer's name has no
  address of the listener's family: then an ordinal has been taken, and the slot claimed in the
  listener's queue is never given back.
\<close>

theorem dial_failures:
  assumes "world_inv w" and "dial_establish t w = Some (DialFailed e, w')"
  shows "(dial_lookup t w = None \<and> w' = w
        \<and> e = dialOpError (dt_network t) (dt_addr t) ErrConnectionRefused)
    \<or> (\<exists>lid. dial_lookup t w = Some lid \<and> w' = w
        \<and> l_cap (lsts w lid) \<le> int (length (incoming (lsts w lid))) + reserved (lsts w lid)
        \<and> e = dialOpError (dt_network t) (dt_addr t) ErrBacklogFull)
    \<or> (\<exists>lid err bk. dial_lookup t w = Some lid
        \<and> peerIPLocked (dial_local_name t (nextOrdinal w))
            (addressFamily (a_network (l_addr (lsts w lid))) (peer (l_addr (lsts w lid)))) (book w) = (Inl err, bk)
        \<and> e = dialOpError (dt_network t) (dt_addr t) err
        \<and> w' = w\<lparr>lsts := (lsts w)(lid := (lsts w lid)\<lparr>reserved := reserved (lsts w lid) + 1\<rparr>),
                 nextOrdinal := nextOrdinal w + 1, book := bk\<rparr>)"
  using assms(2)
proof (cases rule: dial_establish_cases)
  case (unreserved lid err)
  have "\<not> l_closed (lsts w lid)"
    using lookup_registered [OF world_invD(3) [OF assms(1)] unreserved(1)] by blast
  with unreserved(2) have "err = ErrBacklogFull" "w' = w"
    "l_cap (lsts w lid) \<le> int (length (incoming (lsts w lid))) + reserved (lsts w lid)"
    by (auto simp: dial_reserve_def reserve_def split: if_splits)
  with unreserved(1,3) show ?thesis by auto
next
  case (no_ip lid w1 err)
  note r = dial_reserve_None [OF no_ip(2)]
  from dial_local_ip_sel [OF no_ip(3)] obtain bk where w': "w' = (snd (dial_ordinal w1))\<lparr>book := bk\<rparr>"
    and ip: "peerIPLocked (dial_local_name t (nextOrdinal w1))
         (addressFamily (a_network (l_addr (lsts (snd (dial_ordinal w1)) lid)))
           (peer (l_addr (lsts (snd (dial_ordinal w1)) lid)))) (book (snd (dial_ordinal w1))) = (Inl err, bk)" by auto
  have "peerIPLocked (dial_local_name t (nextOrdinal w))
         (addressFamily (a_network (l_addr (lsts w lid))) (peer (l_addr (lsts w lid)))) (book w) = (Inl err, bk)"
    using ip r by (simp add: dial_ordinal_def)
  moreover have "w' = w\<lparr>lsts := (lsts w)(lid := (lsts w lid)\<lparr>reserved := reserved (lsts w lid) + 1\<rparr>),
                 nextOrdinal := nextOrdinal w + 1, book := bk\<rparr>"
    using w' r by (simp add: dial_ordinal_def)
  ultimately show ?thesis using no_ip(1,4) by auto
qed simp_all

text \<open>A dialer that names itself by an IPv6 literal, at a listener of the other family.\<close>

definition mismatched :: "dialTarget \<Rightarrow> nat \<Rightarrow> world \<Rightarrow> bool" where
  "mismatched t lid w \<longleftrightarrow> dial_lookup t w = Some lid \<and> dialer_named t
     \<and> (case parseLiteralIP (the (dt_local t)) of
          None \<Rightarrow> False
        | Some a \<Rightarrow> Is6 a \<and> addressFamily (a_network (l_addr (lsts w lid))) (peer (l_addr (lsts w lid))) = 4)"

definition leaked :: "nat \<Rightarrow> nat \<Rightarrow> world \<Rightarrow> world" where
  "leaked n lid w = w\<lparr>lsts := (lsts w)(lid := (lsts w lid)\<lparr>reserved := reserved (lsts w lid) + int n\<rparr>),
     nextOrdinal := nextOrdinal w + of_nat n\<rparr>"

lemma leaked_Suc: "leaked 1 lid (leaked n lid w) = leaked (Suc n) lid w"
  by (simp add: leaked_def algebra_simps)

lemma leaked_sel [simp]:
  "l_addr (lsts (leaked n lid w) j) = l_addr (lsts w j)" "l_closed (lsts (leaked n lid w) j) = l_closed (lsts w j)"
  "incoming (lsts (leaked n lid w) j) = incoming (lsts w j)" "l_cap (lsts (leaked n lid w) j) = l_cap (lsts w j)"
  "reserved (lsts (leaked n lid w) lid) = reserved (lsts w lid) + int n" "listeners (leaked n lid w) = listeners w"
  by (simp_all add: leaked_def)

lemma leaked_lookup: "dial_lookup t (leaked n lid w) = dial_lookup t w"
proof -
  have "dial_matches t (leaked n lid w) = dial_matches t w"
    by (simp add: dial_matches_def fun_eq_iff)
  then show ?thesis by (simp add: dial_lookup_def split: option.split)
qed

lemma mismatch_fails:
  assumes "mismatched t lid w" "\<not> l_closed (lsts w lid)"
    "int (length (incoming (lsts w lid))) + reserved (lsts w lid) < l_cap (lsts w lid)"
  shows "\<exists>e. dial_establish t w = Some (DialFailed e, leaked 1 lid w)"
proof -
  obtain a where a: "parseLiteralIP (the (dt_local t)) = Some a" "Is6 a"
    and fam: "addressFamily (a_network (l_addr (lsts w lid))) (peer (l_addr (lsts w lid))) = 4"
    and t: "dial_lookup t w = Some lid" "dialer_named t"
    using assms(1) by (auto simp: mismatched_def split: option.splits)
  have "dial_reserve lid w = (None, w\<lparr>lsts := (lsts w)(lid := (lsts w lid)\<lparr>reserved := reserved (lsts w lid) + 1\<rparr>)\<rparr>)"
    using assms(2,3) by (simp add: dial_reserve_def reserve_def)
  then show ?thesis
    by (simp add: dial_establish_def t dial_ordinal_def dial_local_ip_def dial_local_name_def peerIPLocked_def a fam leaked_def)
qed

text \<open>
  C17. A dialer named by an IPv6 literal that keeps dialing an IPv4 listener uses the listener up.
  Each such dial fails, takes an ordinal and leaves a slot claimed; after as many as there was
  room for, with nothing ever queued, every dial to that listener by anyone is told that the
  backlog is full.
\<close>

theorem mismatch_exhausts_backlog:
  assumes "mismatched t lid w" and "\<not> l_closed (lsts w lid)"
    and "int (length (incoming (lsts w lid))) + reserved (lsts w lid) + int n = l_cap (lsts w lid)"
  shows "((\<lambda>v. snd (the (dial_establish t v))) ^^ n) w = leaked n lid w
    \<and> incoming (lsts (leaked n lid w) lid) = incoming (lsts w lid)
    \<and> (\<forall>t'. dial_lookup t' w = Some lid \<longrightarrow> dial_establish t' (leaked n lid w)
         = Some (DialFailed (dialOpError (dt_network t') (dt_addr t') ErrBacklogFull), leaked n lid w))"
proof -
  have "((\<lambda>v. snd (the (dial_establish t v))) ^^ k) w = leaked k lid w" if "k \<le> n" for k
    using that
  proof (induction k)
    case 0
    show ?case by (simp add: leaked_def)
  next
    case (Suc k)
    let ?v = "leaked k lid w"
    have "mismatched t lid ?v" using assms(1) by (simp add: mismatched_def leaked_lookup split: option.splits)
    moreover have "\<not> l_closed (lsts ?v lid)" using assms(2) by simp
    moreover have "int (length (incoming (lsts ?v lid))) + reserved (lsts ?v lid) < l_cap (lsts ?v lid)"
      using assms(3) Suc.prems by simp
    ultimately obtain e where "dial_establish t ?v = Some (DialFailed e, leaked 1 lid ?v)"
      using mismatch_fails by blast
    with Suc show ?case by (simp add: leaked_Suc [unfolded One_nat_def])
  qed
  moreover have "dial_establish t' (leaked n lid w)
       = Some (DialFailed (dialOpError (dt_network t') (dt_addr t') ErrBacklogFull), leaked n lid w)"
    if "dial_lookup t' w = Some lid" for t'
  proof -
    have "dial_reserve lid (leaked n lid w) = (Some ErrBacklogFull, leaked n lid w)"
      using assms(2,3) by (simp add: dial_reserve_def reserve_def)
    then show ?thesis by (simp add: dial_establish_def leaked_lookup that)
  qed
  ultimately show ?thesis by simp
qed

theorem dial_failures_witness:
  "dial_establish (tgt\<lparr>dt_port := 81\<rparr>) net1
     = Some (DialFailed (dialOpError ''tcp'' ''s:80'' ErrConnectionRefused), net1)"
proof -
  let ?t = "tgt\<lparr>dt_port := 81\<rparr>"
  have look: "dial_lookup ?t net1 = None" by (simp add: dial_lookup_def tgt_def net1_sel)
  then obtain e where "dial_establish ?t net1 = Some (DialFailed e, net1)" by (simp add: dial_establish_def)
  with dial_failures [OF net1_inv this] look show ?thesis by (auto simp: tgt_def)
qed

text \<open>A dialer named by the literal \<open>fd00::\<close>.\<close>

definition tgt6 :: dialTarget where
  "tgt6 = tgt\<lparr>dt_local := Some (Addr_String (candidate6 0))\<rparr>"

lemma tgt6_mismatched: "mismatched tgt6 0 net1"
proof -
  have p: "parseLiteralIP (Addr_String (candidate6 0)) = Some (candidate6 0)" by (rule candidate_parse(2))
  moreover have "parseLiteralIP [] = None" by code_simp
  ultimately have "Addr_String (candidate6 0) \<noteq> []" by (metis option.distinct(1))
  moreover have "dial_lookup tgt6 net1 = Some 0"
    by (simp add: dial_lookup_def tgt6_def tgt_def net1_sel dial_matches_def)
  ultimately show ?thesis
    using p by (simp add: mismatched_def dialer_named_def tgt6_def net1_sel newListener_def serverAddr_def
        addressFamily_def parse_facts) (simp add: candidate6_def)
qed

theorem mismatch_exhausts_backlog_witness:
  "incoming (lsts (leaked 128 0 net1) 0) = []
    \<and> dial_establish tgt (leaked 128 0 net1)
        = Some (DialFailed (dialOpError ''tcp'' ''s:80'' ErrBacklogFull), leaked 128 0 net1)"
proof -
  have "int (length (incoming (lsts net1 0))) + reserved (lsts net1 0) + int 128 = l_cap (lsts net1 0)"
    "\<not> l_closed (lsts net1 0)" "incoming (lsts net1 0) = []"
    by (simp_all add: net1_sel newListener_def listenerBacklogDefault_def)
  with mismatch_exhausts_backlog [OF tgt6_mismatched, of 128] tgt_lookup show ?thesis by (simp add: tgt_def)
qed

section \<open>Listening\<close>

lemma listen_port_loop_spec:
  assumes "listenPortBase \<le> nxt" "nxt \<le> maxPort" "listen_port_loop n taken p0 nxt = (p, nxt')"
  shows "listenPortBase \<le> nxt' \<and> nxt' \<le> maxPort
    \<and> (map_of taken p \<noteq> None \<and> 0 < n \<longrightarrow>
        (\<forall>k < n. map_of taken (listenPortBase + (nxt - listenPortBase + int k) mod (maxPort - listenPortBase + 1)) \<noteq> None))
    \<and> (0 < n \<longrightarrow> listenPortBase \<le> p \<and> p \<le> maxPort)"
  using assms
proof (induction n arbitrary: p0 nxt)
  case (Suc n)
  let ?m = "maxPort - listenPortBase + 1"
  let ?nxt = "if maxPort < nxt + 1 then listenPortBase else nxt + 1"
  have m: "0 < ?m" by (simp add: listenPortBase_def maxPort_def)
  have here: "listenPortBase + (nxt - listenPortBase) mod ?m = nxt"
    using Suc.prems(1,2) by simp
  have rng: "listenPortBase \<le> ?nxt" "?nxt \<le> maxPort" using Suc.prems(1,2) m by auto
  show ?case
  proof (cases "map_of taken nxt")
    case None
    with Suc.prems rng show ?thesis by (auto simp: Let_def)
  next
    case (Some l)
    with Suc.prems(3) have rec: "listen_port_loop n taken nxt ?nxt = (p, nxt')" by (simp add: Let_def)
    note IH = Suc.IH [OF rng rec]
    have shift: "(?nxt - listenPortBase + int k) mod ?m = (nxt - listenPortBase + int (Suc k)) mod ?m" for k
    proof (cases "maxPort < nxt + 1")
      case True
      then have e: "nxt - listenPortBase + int (Suc k) = int k + ?m" using Suc.prems(2) by simp
      show ?thesis unfolding e using True by simp
    qed (simp add: algebra_simps)
    show ?thesis
    proof (cases n)
      case 0
      with rec Some Suc.prems(1,2) here rng show ?thesis by auto
    next
      case (Suc n')
      have "map_of taken (listenPortBase + (nxt - listenPortBase + int k) mod ?m) \<noteq> None"
        if "map_of taken p \<noteq> None" "k < Suc n" for k
      proof (cases k)
        case 0
        then show ?thesis using Some here by simp
      next
        case (Suc j)
        with IH that \<open>n = Suc n'\<close> shift [of j] show ?thesis by auto
      qed
      with IH \<open>n = Suc n'\<close> show ?thesis by auto
    qed
  qed
qed simp

text \<open>
  C34. The search for a port when none is asked for: it goes once round the range from the
  counter, so it ends on a free port whenever the peer has one left there, and the counter stays
  in the range.
\<close>

theorem listen_port_free:
  assumes "listenPortBase \<le> nxt" "nxt \<le> maxPort"
    and "listen_port_loop listen_attempts taken p0 nxt = (p, nxt')"
    and "listenPortBase \<le> q" "q \<le> maxPort" "map_of taken q = None"
  shows "map_of taken p = None \<and> listenPortBase \<le> p \<and> p \<le> maxPort
    \<and> listenPortBase \<le> nxt' \<and> nxt' \<le> maxPort"
proof -
  let ?m = "maxPort - listenPortBase + 1"
  have n: "int listen_attempts = ?m" "0 < listen_attempts"
    by (simp_all add: listen_attempts_def listenPortBase_def maxPort_def)
  note spec = listen_port_loop_spec [OF assms(1-3)]
  let ?k = "nat ((q - nxt) mod ?m)"
  have m: "0 < ?m" using n by linarith
  have k: "int ?k = (q - nxt) mod ?m" using m by simp
  moreover have "(q - nxt) mod ?m < ?m" using m by (rule pos_mod_bound)
  ultimately have lt: "?k < listen_attempts" using n by linarith
  have "(nxt - listenPortBase + int ?k) mod ?m = (nxt - listenPortBase + (q - nxt)) mod ?m"
    unfolding k by (rule mod_add_right_eq)
  also have "\<dots> = q - listenPortBase" using assms(4,5) by simp
  finally have "listenPortBase + (nxt - listenPortBase + int ?k) mod ?m = q" by simp
  with spec lt n(2) assms(6) show ?thesis by fastforce
qed

theorem listen_port_free_witness:
  "map_of [(10000, 0), (10001 :: int, 1 :: nat)] (fst (listen_port_loop listen_attempts [(10000, 0), (10001, 1)] 0 10000)) = None"
proof -
  obtain p nxt' where "listen_port_loop listen_attempts [(10000, 0 :: nat), (10001, 1)] 0 10000 = (p, nxt')" by fastforce
  with listen_port_free [OF _ _ this, of 10002] show ?thesis
    by (simp add: listenPortBase_def maxPort_def)
qed

text \<open>
  The name a \<open>Listen\<close> on a host stands for (a fresh one for no host), and the port it is given: the
  one asked for or what the search comes to.
\<close>

definition listen_name :: "string \<Rightarrow> world \<Rightarrow> string" where
  "listen_name host w = (if host = [] then wildcardPeerName (unat (nextWildcard w)) else host)"

definition listen_port :: "bool \<Rightarrow> int \<Rightarrow> string \<Rightarrow> world \<Rightarrow> int" where
  "listen_port explicit p pr w =
     (if explicit then p else fst (listen_port_loop listen_attempts (listeners w pr) p (nextListenPort w)))"

text \<open>A state that differs in the address book and the counters of \<open>Listen\<close> alone.\<close>

definition untouched :: "world \<Rightarrow> world \<Rightarrow> bool" where
  "untouched w v \<longleftrightarrow> (\<exists>bk n u. v = w\<lparr>book := bk, nextListenPort := n, nextWildcard := u\<rparr>)"

lemma untouchedI: "untouched w (w\<lparr>book := bk, nextListenPort := n, nextWildcard := u\<rparr>)"
  by (auto simp: untouched_def)

lemma untouched_id: "untouched w w"
  unfolding untouched_def by (intro exI [of _ "book w"] exI [of _ "nextListenPort w"] exI [of _ "nextWildcard w"]) simp

lemma untouched_counter: "untouched w (w\<lparr>nextWildcard := u\<rparr>)"
  unfolding untouched_def by (intro exI [of _ "book w"] exI [of _ "nextListenPort w"] exI [of _ u]) simp

lemma counters_last:
  "w\<lparr>nextWildcard := u, book := bk\<rparr> = w\<lparr>book := bk, nextWildcard := u\<rparr>"
  "w\<lparr>nextWildcard := u, nextListenPort := n\<rparr> = w\<lparr>nextListenPort := n, nextWildcard := u\<rparr>"
  "w\<lparr>nextListenPort := n, book := bk\<rparr> = w\<lparr>book := bk, nextListenPort := n\<rparr>"
  by simp_all

lemma fst_register: "fst (register_listener network pr p i w) = next_lst w"
  by (simp add: register_listener_def Let_def)

lemma listen_at_cases:
  assumes "listen_at network laddr pr p x (w\<lparr>book := bk, nextWildcard := u\<rparr>) = (r, w')"
  obtains (taken) "map_of (listeners w pr) (listen_port x p pr w) \<noteq> None" "r = Inl (listenOpError network laddr ErrAddressInUse)"
      "untouched w w'"
  | (unaddressed) e where "map_of (listeners w pr) (listen_port x p pr w) = None" "r = Inl e" "untouched w w'"
  | (registered) i bk' v where "map_of (listeners w pr) (listen_port x p pr w) = None"
      "peerIPLocked pr (addressFamily network pr) bk = (Inr i, bk')" "untouched w v" "book v = bk'" "r = Inr (next_lst w)"
      "w' = snd (register_listener network pr (listen_port x p pr w) i v)"
proof -
  let ?n = "if x then nextListenPort w else snd (listen_port_loop listen_attempts (listeners w pr) p (nextListenPort w))"
  let ?v = "\<lambda>bk. w\<lparr>book := bk, nextListenPort := ?n, nextWildcard := u\<rparr>"
  obtain ri bk' where ri: "peerIPLocked pr (addressFamily network pr) bk = (ri, bk')" by fastforce
  have eq: "listen_at network laddr pr p x (w\<lparr>book := bk, nextWildcard := u\<rparr>) =
      (if map_of (listeners w pr) (listen_port x p pr w) \<noteq> None then (Inl (listenOpError network laddr ErrAddressInUse), ?v bk)
       else case ri of Inl err \<Rightarrow> (Inl (listenOpError network laddr err), ?v bk')
       | Inr i \<Rightarrow> (Inr (next_lst w), snd (register_listener network pr (listen_port x p pr w) i (?v bk'))))"
  proof (cases x)
    case True
    with ri show ?thesis
      by (cases ri) (simp_all add: listen_at_def listen_port_def case_prod_beta fst_register counters_last)
  next
    case False
    with ri show ?thesis
      by (cases ri) (simp_all add: listen_at_def listen_port_def case_prod_beta fst_register counters_last)
  qed
  show ?thesis
  proof (cases "map_of (listeners w pr) (listen_port x p pr w) = None")
    case True
    show ?thesis
    proof (cases ri)
      case (Inl err)
      from assms have "r = Inl (listenOpError network laddr err)" "w' = ?v bk'" unfolding eq using True Inl by simp_all
      with unaddressed [OF True this(1)] untouchedI show ?thesis by blast
    next
      case (Inr i)
      from assms have "r = Inr (next_lst w)" "w' = snd (register_listener network pr (listen_port x p pr w) i (?v bk'))"
        unfolding eq using True Inr by simp_all
      with registered [OF True _ untouchedI _ this(1)] ri Inr show ?thesis by simp
    qed
  next
    case False
    from assms have "r = Inl (listenOpError network laddr ErrAddressInUse)" "w' = ?v bk" unfolding eq using False by simp_all
    with taken [OF False this(1)] untouchedI show ?thesis by blast
  qed
qed

lemma Listen_cases:
  assumes "Listen network laddr w = (r, w')"
  obtains (failed) e where "r = Inl e" "untouched w w'"
      "\<And>host p x. validateNetwork network = None \<Longrightarrow> splitAddr laddr = Inr (host, p, x) \<Longrightarrow>
         map_of (listeners w (fst (canonicalPeerLocked (listen_name host w) (book w))))
           (listen_port x p (fst (canonicalPeerLocked (listen_name host w) (book w))) w) \<noteq> None \<Longrightarrow>
         e = listenOpError network laddr ErrAddressInUse"
  | (registered) host p x pr bk i bk' v where "validateNetwork network = None" "splitAddr laddr = Inr (host, p, x)"
      "canonicalPeerLocked (listen_name host w) (book w) = (pr, bk)" "map_of (listeners w pr) (listen_port x p pr w) = None"
      "peerIPLocked pr (addressFamily network pr) bk = (Inr i, bk')" "untouched w v" "book v = bk'" "r = Inr (next_lst w)"
      "w' = snd (register_listener network pr (listen_port x p pr w) i v)"
proof -
  have same: "untouched w w" "untouched w (w\<lparr>nextWildcard := u\<rparr>)" for u
    by (simp_all add: untouched_id untouched_counter)
  show ?thesis
  proof (cases "validateNetwork network")
    case (Some e)
    with assms have "r = Inl (listenOpError network laddr e)" "w' = w" by (simp_all add: Listen_def)
    with failed [OF this(1)] same(1) Some show ?thesis by simp
  next
    case valid: None
    show ?thesis
    proof (cases "splitAddr laddr")
      case (Inl e)
      with assms valid have "r = Inl (listenOpError network laddr (AddrErr e))" "w' = w" by (simp_all add: Listen_def)
      with failed [OF this(1)] same(1) Inl show ?thesis by simp
    next
      case (Inr hpx)
      then obtain host p x where sp: "splitAddr laddr = Inr (host, p, x)" by (cases hpx) auto
      obtain pr bk where can: "canonicalPeerLocked (listen_name host w) (book w) = (pr, bk)" by fastforce
      define u where "u = (if host = [] then nextWildcard w + 1 else nextWildcard w)"
      have L: "Listen network laddr w = (Inl (listenOpError network laddr ErrAddressInUse), w\<lparr>nextWildcard := u\<rparr>)
          \<or> Listen network laddr w = listen_at network laddr pr p x (w\<lparr>book := bk, nextWildcard := u\<rparr>)"
        using valid sp can by (auto simp: Listen_def listen_name_def u_def canonicalPeer_def counters_last Let_def)
      show ?thesis
      proof (cases "Listen network laddr w = listen_at network laddr pr p x (w\<lparr>book := bk, nextWildcard := u\<rparr>)")
        case True
        from assms have "listen_at network laddr pr p x (w\<lparr>book := bk, nextWildcard := u\<rparr>) = (r, w')" by (simp add: True)
        then show ?thesis
        proof (cases rule: listen_at_cases)
          case (unaddressed e)
          show ?thesis
          proof (rule failed [OF unaddressed(2,3)])
            fix h q y
            assume "splitAddr laddr = Inr (h, q, y)" "map_of (listeners w (fst (canonicalPeerLocked (listen_name h w) (book w))))
                (listen_port y q (fst (canonicalPeerLocked (listen_name h w) (book w))) w) \<noteq> None"
            with sp can unaddressed(1) show "e = listenOpError network laddr ErrAddressInUse" by simp
          qed
        next
          case (registered i bk' v)
          with that(2) [OF valid sp can] show ?thesis by blast
        qed (use failed in blast)
      next
        case False
        with L assms have "r = Inl (listenOpError network laddr ErrAddressInUse)" "w' = w\<lparr>nextWildcard := u\<rparr>" by simp_all
        with failed [OF this(1)] same(2) show ?thesis by simp
      qed
    qed
  qed
qed

text \<open>
  C35. What \<open>Listen\<close> registers, and what it refuses. When it succeeds the new listener, open, with an
  empty queue and the network's backlog, stands under the peer the host names (a fresh name for no
  host), at the very port that was asked for, or the one the search found when none was, with the
  address the book has for that peer in the listener's family; nothing was registered there, and no
  other registration changes. When that place is taken it fails with \<open>ErrAddressInUse\<close>; when it
  fails for whatever reason it registers nothing. In either case nothing else of the network changes
  but the address book and the two counters.
\<close>

theorem listen_registers:
  assumes "Listen network laddr w = (r, w')"
  shows "(case r of
      Inl e \<Rightarrow> listeners w' = listeners w \<and> lsts w' = lsts w \<and> next_lst w' = next_lst w
    | Inr lid \<Rightarrow> lid = next_lst w \<and> next_lst w' = Suc lid \<and> validateNetwork network = None
        \<and> (\<exists>host p explicit a bk i. splitAddr laddr = Inr (host, p, explicit)
            \<and> canonicalPeerLocked (listen_name host w) (book w) = (peer a, bk)
            \<and> port a = (if explicit then p
                else fst (listen_port_loop listen_attempts (listeners w (peer a)) p (nextListenPort w)))
            \<and> peerIPLocked (peer a) (addressFamily network (peer a)) bk = (Inr i, book w') \<and> ip a = Some i
            \<and> a_network a = network
            \<and> map_of (listeners w (peer a)) (port a) = None
            \<and> lsts w' = (lsts w)(lid := newListener a (w_listenerBacklog w))
            \<and> (\<forall>pr q. map_of (listeners w' pr) q
                 = (if pr = peer a \<and> q = port a then Some lid else map_of (listeners w pr) q))))
    \<and> (\<forall>host p explicit pr bk. validateNetwork network = None \<and> splitAddr laddr = Inr (host, p, explicit)
        \<and> canonicalPeerLocked (listen_name host w) (book w) = (pr, bk)
        \<and> map_of (listeners w pr) (listen_port explicit p pr w) \<noteq> None
        \<longrightarrow> r = Inl (listenOpError network laddr ErrAddressInUse))
    \<and> w' = w\<lparr>lsts := lsts w', next_lst := next_lst w', listeners := listeners w', book := book w',
        nextListenPort := nextListenPort w', nextWildcard := nextWildcard w'\<rparr>"
  using assms
proof (cases rule: Listen_cases)
  case (failed e)
  from failed(2) obtain bk n u where "w' = w\<lparr>book := bk, nextListenPort := n, nextWildcard := u\<rparr>" by (auto simp: untouched_def)
  with failed(1,3) show ?thesis by auto
next
  case (registered host p x pr bk i bk' v)
  let ?a = "\<lparr>a_network = network, peer = pr, port = listen_port x p pr w, ip = Some i\<rparr>"
  from registered(6,7) obtain n u where v: "v = w\<lparr>book := bk', nextListenPort := n, nextWildcard := u\<rparr>" by (auto simp: untouched_def)
  have w': "w' = v\<lparr>lsts := (lsts w)(next_lst w := newListener ?a (w_listenerBacklog w)), next_lst := Suc (next_lst w),
      listeners := (listeners w)(pr := AList.update (listen_port x p pr w) (next_lst w) (listeners w pr))\<rparr>"
    by (simp add: registered(9) register_listener_def v)
  have "map_of (listeners w' pr') q = (if pr' = pr \<and> q = listen_port x p pr w then Some (next_lst w) else map_of (listeners w pr') q)" for pr' q
    by (simp add: w' update_conv')
  then have "\<exists>host p explicit a bk i. splitAddr laddr = Inr (host, p, explicit)
            \<and> canonicalPeerLocked (listen_name host w) (book w) = (peer a, bk)
            \<and> port a = (if explicit then p
                else fst (listen_port_loop listen_attempts (listeners w (peer a)) p (nextListenPort w)))
            \<and> peerIPLocked (peer a) (addressFamily network (peer a)) bk = (Inr i, book w') \<and> ip a = Some i
            \<and> a_network a = network
            \<and> map_of (listeners w (peer a)) (port a) = None
            \<and> lsts w' = (lsts w)(next_lst w := newListener a (w_listenerBacklog w))
            \<and> (\<forall>pr q. map_of (listeners w' pr) q
                 = (if pr = peer a \<and> q = port a then Some (next_lst w) else map_of (listeners w pr) q))"
    using registered(2,3,4,5)
    by (intro exI [of _ host] exI [of _ p] exI [of _ x] exI [of _ ?a] exI [of _ bk] exI [of _ i])
       (simp add: w' v, simp add: listen_port_def)
  moreover have "r = Inl (listenOpError network laddr ErrAddressInUse)"
    if "splitAddr laddr = Inr (h, q, y)" "canonicalPeerLocked (listen_name h w) (book w) = (pr', bk2)"
      "map_of (listeners w pr') (listen_port y q pr' w) \<noteq> None" for h q y pr' bk2
    using that registered(2,3,4) by simp
  moreover have "w' = w\<lparr>lsts := lsts w', next_lst := next_lst w', listeners := listeners w', book := book w',
        nextListenPort := nextListenPort w', nextWildcard := nextWildcard w'\<rparr>" "next_lst w' = Suc (next_lst w)"
    by (simp_all add: w' v)
  ultimately show ?thesis using registered(1) unfolding registered(8) sum.case by (intro conjI) blast+
qed

theorem listen_registers_witness:
  "(\<exists>a. peer a = ''s'' \<and> port a = 80 \<and> ip a = Some [198, 18, 0, 0] \<and> lsts net1 = (lsts net0)(0 := newListener a (w_listenerBacklog net0))
      \<and> map_of (listeners net0 ''s'') 80 = None \<and> map_of (listeners net1 ''s'') 80 = Some 0)
    \<and> fst (Listen ''tcp'' ''s:80'' net1) = Inl (listenOpError ''tcp'' ''s:80'' ErrAddressInUse)"
proof -
  have n: "listen_name ''s'' w = ''s''" for w by (simp add: listen_name_def)
  have c: "canonicalPeerLocked ''s'' bk = (''s'', bk)" for bk by (simp add: canonicalPeerLocked_def parse_facts)
  have f: "addressFamily ''tcp'' ''s'' = 4" by (simp add: addressFamily_def parse_facts)
  have "fst (Listen ''tcp'' ''s:80'' net1) = Inl (listenOpError ''tcp'' ''s:80'' ErrAddressInUse)"
    using listen_registers [OF prod.collapse [symmetric], of "''tcp''" "''s:80''" net1, THEN conjunct2, THEN conjunct1,
        THEN spec, of "''s''", THEN spec, of 80, THEN spec, of True, THEN spec, of "''s''", THEN spec, of serverBook]
    by (simp add: parse_facts n c net1_sel listen_port_def)
  moreover have "\<exists>a. peer a = ''s'' \<and> port a = 80 \<and> ip a = Some [198, 18, 0, 0] \<and> lsts net1 = (lsts net0)(0 := newListener a (w_listenerBacklog net0))
      \<and> map_of (listeners net0 ''s'') 80 = None \<and> map_of (listeners net1 ''s'') 80 = Some 0"
  proof -
    from listen_registers [OF listen_s, THEN conjunct1] obtain p explicit a bk i
      where "splitAddr ''s:80'' = Inr (''s'', p, explicit)" "canonicalPeerLocked ''s'' emptyBook = (peer a, bk)"
        "port a = (if explicit then p else fst (listen_port_loop listen_attempts (listeners net0 (peer a)) p (nextListenPort net0)))"
        "peerIPLocked (peer a) (addressFamily ''tcp'' (peer a)) bk = (Inr i, book net1)" "ip a = Some i"
        "map_of (listeners net0 (peer a)) (port a) = None" "lsts net1 = (lsts net0)(0 := newListener a (w_listenerBacklog net0))"
        "map_of (listeners net1 (peer a)) (port a) = Some 0"
      by (auto simp: parse_facts n net0_sel(2))
    moreover from this(1,2) have "p = 80" "explicit" "peer a = ''s''" "bk = emptyBook" by (auto simp: parse_facts c)
    ultimately show ?thesis by (intro exI [of _ a]) (simp add: f server_address)
  qed
  ultimately show ?thesis by simp
qed

section \<open>The partition gate\<close>

datatype part_op = PartOp pairKey | HealOp pairKey

fun part_step :: "part_op \<Rightarrow> partTable \<Rightarrow> partTable option" where
  "part_step (PartOp k) t = Some (partition_pair k t)"
| "part_step (HealOp k) t = Some (heal_pair k t)"

interpretation gates: wait_channel partNotify bumpPartNotifyLocked part_step isPartitioned
proof unfold_locales
  fix l s t
  assume "part_step l s = Some t"
  then show "partNotify s \<le> partNotify t" using partNotify_mono by (cases l) auto
next
  fix l s t w
  assume "part_step l s = Some t" "partNotify t = partNotify s" "isPartitioned w s"
  then show "isPartitioned w t"
    by (cases l) (auto simp: heal_pair_def bumpPartNotifyLocked_def split: if_splits)
qed

text \<open>
  C31. A dial into a partition. A named dialer waits exactly while its pair is partitioned, and one
  that gave no name never does. Whatever pairs are partitioned and healed while it waits: once its
  own pair is healed, the channel it waits on is closed, and its next look at the table lets it
  pass; a context that is done while it waits ends it with the context's error.
\<close>

theorem gate_no_lost_wakeup:
  assumes "dial_gate t w = Some ch" and "run_steps part_step ops (parts w) = Some tab"
    and "\<not> isPartitioned (newPairKey (the (dt_local t)) (dt_peer t)) tab"
  shows "dialer_named t \<and> isPartitioned (newPairKey (the (dt_local t)) (dt_peer t)) (parts w)
    \<and> gate_next None t (GateWait ch) (w\<lparr>parts := tab\<rparr>) = [GateCheck]
    \<and> gate_next done_err t GateCheck (w\<lparr>parts := tab\<rparr>) = [GatePassed]
    \<and> GateFailed (dialOpError (dt_network t) (dt_addr t) e) \<in> set (gate_next (Some e) t (GateWait ch) w)"
proof -
  let ?k = "newPairKey (the (dt_local t)) (dt_peer t)"
  from assms(1) have g: "dialer_named t" "isPartitioned ?k (parts w)" "ch = partNotify (parts w)"
    by (auto simp: dial_gate_def checkPartition_def isPartitioned_def Let_def split: if_splits)
  have "chan_closed ch (partNotify tab)"
    using gates.no_lost_wakeup [OF assms(2) g(2) assms(3)] g(3) by simp
  with g assms(3) show ?thesis
    by (simp add: dial_gate_def checkPartition_def isPartitioned_def)
qed

theorem gate_no_lost_wakeup_witness:
  "gate_next None (tgt\<lparr>dt_local := Some ''c''\<rparr>) (GateWait 0)
     ((net1\<lparr>parts := \<lparr>partitions = {(''c'', ''s'')}, partNotify = 0\<rparr>\<rparr>)\<lparr>parts := \<lparr>partitions = {(''a'', ''b'')}, partNotify = 2\<rparr>\<rparr>)
   = [GateCheck]"
proof -
  let ?t = "tgt\<lparr>dt_local := Some ''c''\<rparr>"
  let ?w = "net1\<lparr>parts := \<lparr>partitions = {(''c'', ''s'')}, partNotify = 0\<rparr>\<rparr>"
  have k: "newPairKey ''c'' ''s'' = (''c'', ''s'')" by code_simp
  have "dial_gate ?t ?w = Some 0"
    by (simp add: dial_gate_def dialer_named_def tgt_def k checkPartition_def)
  note gate = gate_no_lost_wakeup [OF this]
  have "run_steps part_step [PartOp (''a'', ''b''), HealOp (''c'', ''s'')] (parts ?w)
      = Some \<lparr>partitions = {(''a'', ''b'')}, partNotify = 2\<rparr>"
    by (simp add: partition_pair_def heal_pair_def bumpPartNotifyLocked_def) auto
  from gate [OF this] show ?thesis by (simp add: tgt_def k isPartitioned_def)
qed

end
