(* ===== verification/Threads.thy ===== *)
theory Threads
  imports NetworkInv
begin

text \<open>
  Concurrent use: goroutines whose operations interleave between critical sections. \<open>NetworkInv\<close>
  takes each call as one step; here a call is the sequence of its critical sections
  (\<open>conn.Close\<close>, \<open>Network.Reset\<close>, \<open>listener.Close\<close>, the phases of \<open>DialContext\<close>, the loops of
  \<open>Read\<close> and \<open>Write\<close>) and any other thread, the clock or a timer may come between two of them. A
  second \<open>Close\<close> of a connection returns at once here, where \<open>sync.Once\<close> makes it wait for the
  first: the system has more interleavings than the code, so what holds here holds there.
\<close>

section \<open>Threads\<close>

text \<open>
  An action is one critical section of an operation, or the place of a loop it stands at. A
  thread is the list of the actions it still has to take; taking the first gives the actions it
  is replaced by. Pair operations resolve their two names one after the other.
\<close>

datatype pair_op = OpPartition | OpHeal | OpReset

datatype act =
    ARead nat nat "bytes pc" | AWrite bytes nat "nat pc"
  | AClose nat | ADeregister nat | ACloseWrite nat | AAbortRead nat | AStopRead nat | AStopWrite nat
  | ASetDeadline time nat | ASetReadDeadline time nat | ASetWriteDeadline time nat
  | ASetRd time nat | ASetWd time nat
  | APair pair_op string string | APair2 pair_op string string | APair3 pair_op pairKey
  | ASignal nat | AAbortW nat | AAbortR nat
  | ASetLatency duration duration | ASetLoss float64 | ASetDuplication float64 | ASetCorruption float64
  | AListen string string | AAccept nat | ACloseListener nat | ADelist nat | ADrain nat
  | ADial dialCtx string string | ASelf dialCtx dialTarget | AGate dialTarget gate_pc
  | ALookup dialTarget | AReserve dialTarget nat | AOrdinal dialTarget nat
  | AAddress dialTarget nat u64 | AWire dialTarget nat u64 netIP | ATrace u64 connSide nat
  | AFill nat nat | AResult dial_result | AAccepted nat accepted

definition pair_who :: "pair_op \<Rightarrow> string" where
  "pair_who op = (case op of OpPartition \<Rightarrow> ''Partition'' | OpHeal \<Rightarrow> ''Heal'' | OpReset \<Rightarrow> ''Reset'')"

text \<open>\<open>Reset\<close>: the targets are taken, then all are signalled, then all are aborted.\<close>

definition reset_acts :: "nat list \<Rightarrow> act list" where
  "reset_acts targets = map ASignal targets @ concat (map (\<lambda>c. [AAbortW c, AAbortR c]) targets)"

definition from_panic :: "world \<Rightarrow> panic + world \<Rightarrow> (act list \<times> world) list" where
  "from_panic w r = (case r of Inl p \<Rightarrow> [([], w)] | Inr v \<Rightarrow> [([], v)])"

definition fail :: "dialTarget \<Rightarrow> go_error \<Rightarrow> act list" where
  "fail t e = [AResult (DialFailed (dialOpError (dt_network t) (dt_addr t) e))]"

text \<open>
  The outcomes of taking an action; none when it waits or has returned, which for the loops of
  \<open>Read\<close> and \<open>Write\<close> is a step that stays where it is. \<open>done_err\<close> is the error
  of the context of a waiting dial, if it is done by then.
\<close>

fun act_step :: "bool \<Rightarrow> go_error option \<Rightarrow> act \<Rightarrow> world \<Rightarrow> (act list \<times> world) list" where
  "act_step plan9 done_err (ARead len c pc) w =
     (let (pc', v) = read_step plan9 len c pc w in if pc' = pc then [] else [([ARead len c pc'], v)])"
| "act_step plan9 done_err (AWrite data c pc) w =
     (case write_step plan9 data c pc w of
        None \<Rightarrow> []
      | Some (pc', v) \<Rightarrow> if pc' = pc then [] else [([AWrite data c pc'], v)])"
| "act_step plan9 done_err (AClose c) w =
     (if c_closed (conns w c) then [([], w)]
      else [([ADeregister c, ACloseWrite c, AAbortRead c, AStopRead c, AStopWrite c],
             upd_conn c (\<lambda>cn. cn\<lparr>c_closed := True\<rparr>) w)])"
| "act_step plan9 done_err (ADeregister c) w =
     [([], if c_nw (conns w c) then deregisterReset (c_pair (conns w c)) c w else w)]"
| "act_step plan9 done_err (ACloseWrite c) w = [([], upd_pipe (writePipe (conns w c)) close_pipe w)]"
| "act_step plan9 done_err (AAbortRead c) w = [([], upd_pipe (readPipe (conns w c)) abort w)]"
| "act_step plan9 done_err (AStopRead c) w = [([], upd_conn c (\<lambda>cn. cn\<lparr>rd := deadline_stop (rd cn)\<rparr>) w)]"
| "act_step plan9 done_err (AStopWrite c) w = [([], upd_conn c (\<lambda>cn. cn\<lparr>wd := deadline_stop (wd cn)\<rparr>) w)]"
| "act_step plan9 done_err (ASetDeadline t c) w =
     [(if c_closed (conns w c) then [] else [ASetRd t c, ASetWd t c], w)]"
| "act_step plan9 done_err (ASetReadDeadline t c) w =
     [(if c_closed (conns w c) then [] else [ASetRd t c], w)]"
| "act_step plan9 done_err (ASetWriteDeadline t c) w =
     [(if c_closed (conns w c) then [] else [ASetWd t c], w)]"
| "act_step plan9 done_err (ASetRd t c) w =
     [([], upd_conn c (\<lambda>cn. cn\<lparr>rd := deadline_set (clock w) t (rd cn)\<rparr>) w)]"
| "act_step plan9 done_err (ASetWd t c) w =
     [([], upd_conn c (\<lambda>cn. cn\<lparr>wd := deadline_set (clock w) t (wd cn)\<rparr>) w)]"
| "act_step plan9 done_err (APair op a b) w =
     (case validatePartitionPair (pair_who op) \<lparr>peerA = a, peerB = b\<rparr> of
        Some p \<Rightarrow> [([], w)]
      | None \<Rightarrow> let (ka, v) = canonicalPeer (peerName a) w in [([APair2 op ka b], v)])"
| "act_step plan9 done_err (APair2 op ka b) w =
     (let (kb, v) = canonicalPeer (peerName b) w in [([APair3 op (newPairKey ka kb)], v)])"
| "act_step plan9 done_err (APair3 op k) w =
     (case op of
        OpPartition \<Rightarrow> [([], w\<lparr>parts := partition_pair k (parts w)\<rparr>)]
      | OpHeal \<Rightarrow> [([], w\<lparr>parts := heal_pair k (parts w)\<rparr>)]
      | OpReset \<Rightarrow> [(reset_acts (resetTargets w k), w\<lparr>resetTargets := (resetTargets w)(k := [])\<rparr>)])"
| "act_step plan9 done_err (ASignal c) w = [([], signalReset c w)]"
| "act_step plan9 done_err (AAbortW c) w = [([], upd_pipe (writePipe (conns w c)) abort w)]"
| "act_step plan9 done_err (AAbortR c) w = [([], upd_pipe (readPipe (conns w c)) abort w)]"
| "act_step plan9 done_err (ASetLatency dmin dmax) w = from_panic w (SetLatency dmin dmax w)"
| "act_step plan9 done_err (ASetLoss rate) w = from_panic w (SetPacketLoss rate w)"
| "act_step plan9 done_err (ASetDuplication rate) w = from_panic w (SetDuplication rate w)"
| "act_step plan9 done_err (ASetCorruption rate) w = from_panic w (SetCorruption rate w)"
| "act_step plan9 done_err (AListen network laddr) w = [([], snd (Listen network laddr w))]"
| "act_step plan9 done_err (AAccept lid) w = map (\<lambda>(r, v). ([AAccepted lid r], v)) (Accept_outcomes lid w)"
| "act_step plan9 done_err (ACloseListener lid) w =
     (let (first, l) = listener_mark_closed (lsts w lid)
      in [if first then ([ADelist lid, ADrain lid], w\<lparr>lsts := (lsts w)(lid := l)\<rparr>) else ([], w)])"
| "act_step plan9 done_err (ADelist lid) w = [([], deregister (l_addr (lsts w lid)) w)]"
| "act_step plan9 done_err (ADrain lid) w =
     (case incoming (lsts w lid) of
        [] \<Rightarrow> [([], w)]
      | c # cs \<Rightarrow> [([AClose c, ADrain lid], w\<lparr>lsts := (lsts w)(lid := (lsts w lid)\<lparr>incoming := cs\<rparr>)\<rparr>)])"
| "act_step plan9 done_err (ADial ctx network a) w =
     (let (r, v) = dial_resolve ctx network a w
      in [(case r of Inl e \<Rightarrow> [AResult (DialFailed e)] | Inr t \<Rightarrow> [ASelf ctx t], v)])"
| "act_step plan9 done_err (ASelf ctx t) w = (let (t', v) = dial_self ctx t w in [([AGate t' GateCheck], v)])"
| "act_step plan9 done_err (AGate t pc) w =
     map (\<lambda>pc'. (case pc' of
                   GatePassed \<Rightarrow> [ALookup t]
                 | GateFailed e \<Rightarrow> [AResult (DialFailed e)]
                 | _ \<Rightarrow> [AGate t pc'], w)) (gate_next done_err t pc w)"
| "act_step plan9 done_err (ALookup t) w =
     [(case dial_lookup t w of None \<Rightarrow> fail t ErrConnectionRefused | Some lid \<Rightarrow> [AReserve t lid], w)]"
| "act_step plan9 done_err (AReserve t lid) w =
     (let (e, v) = dial_reserve lid w in [(case e of Some err \<Rightarrow> fail t err | None \<Rightarrow> [AOrdinal t lid], v)])"
| "act_step plan9 done_err (AOrdinal t lid) w =
     (let (ordinal, v) = dial_ordinal w in [([AAddress t lid ordinal], v)])"
| "act_step plan9 done_err (AAddress t lid ordinal) w =
     (let (r, v) = dial_local_ip t ordinal lid w
      in [(case r of Inl e \<Rightarrow> fail t e | Inr i \<Rightarrow> [AWire t lid ordinal i], v)])"
| "act_step plan9 done_err (AWire t lid ordinal i) w =
     (let ((client, server), v) = dial_wire t ordinal i lid w
      in [((if w_traceEnabled v
            then [ATrace ordinal sideDialer (writePipe (conns v client)),
                  ATrace ordinal sideAcceptor (writePipe (conns v server))] else [])
           @ [AFill lid server, AResult (Dialed client)], v)])"
| "act_step plan9 done_err (ATrace ordinal side rec) w = [([], registerTrace ordinal side rec w)]"
| "act_step plan9 done_err (AFill lid c) w =
     (case fill c (lsts w lid) of
        None \<Rightarrow> []
      | Some (cs, l) \<Rightarrow> [(map AClose cs, w\<lparr>lsts := (lsts w)(lid := l)\<rparr>)])"
| "act_step plan9 done_err (AResult r) w = []"
| "act_step plan9 done_err (AAccepted lid r) w = []"

text \<open>The calls a client may make, on the connections and listeners there are.\<close>

fun api_act :: "world \<Rightarrow> act \<Rightarrow> bool" where
  "api_act w (ARead len c pc) = (c < next_conn w \<and> pc = AtClosed)"
| "api_act w (AWrite data c pc) = (c < next_conn w \<and> pc = AtClosed)"
| "api_act w (AClose c) = (c < next_conn w)"
| "api_act w (ASetDeadline t c) = (c < next_conn w)"
| "api_act w (ASetReadDeadline t c) = (c < next_conn w)"
| "api_act w (ASetWriteDeadline t c) = (c < next_conn w)"
| "api_act w (APair op a b) = True"
| "api_act w (ASetLatency dmin dmax) = True"
| "api_act w (ASetLoss rate) = True"
| "api_act w (ASetDuplication rate) = True"
| "api_act w (ASetCorruption rate) = True"
| "api_act w (AListen network laddr) = True"
| "api_act w (AAccept lid) = (lid < next_lst w)"
| "api_act w (ACloseListener lid) = (lid < next_lst w)"
| "api_act w (ADial ctx network a) = True"
| "api_act w _ = False"

text \<open>
  The system: a client starts a call on a thread of its own, a thread takes its next action, the
  clock moves, the callback of a latency timer or of a deadline's timer runs. A callback may run
  at any moment, as one may have started before its timer was stopped.
\<close>

type_synonym conf = "world \<times> act list list"

inductive conf_step :: "bool \<Rightarrow> conf \<Rightarrow> conf \<Rightarrow> bool" for plan9 :: bool where
  cs_call: "api_act w a \<Longrightarrow> conf_step plan9 (w, ts) (w, ts @ [[a]])"
| cs_act: "i < length ts \<Longrightarrow> ts ! i = a # rest \<Longrightarrow> (bs, v) \<in> set (act_step plan9 done_err a w) \<Longrightarrow>
    conf_step plan9 (w, ts) (v, ts[i := bs @ rest])"
| cs_tick: "clock w \<le> t \<Longrightarrow> conf_step plan9 (w, ts) (w\<lparr>clock := t\<rparr>, ts)"
| cs_timer: "i < next_pipe w \<Longrightarrow> conf_step plan9 (w, ts) (upd_pipe i (releaseDueLatency (env_of w)) w, ts)"
| cs_fire_read: "conf_step plan9 (w, ts) (upd_conn c (\<lambda>cn. cn\<lparr>rd := deadline_fire (rd cn)\<rparr>) w, ts)"
| cs_fire_write: "conf_step plan9 (w, ts) (upd_conn c (\<lambda>cn. cn\<lparr>wd := deadline_fire (wd cn)\<rparr>) w, ts)"

definition conf_init :: "conf \<Rightarrow> bool" where
  "conf_init s \<longleftrightarrow> world_init (fst s) \<and> snd s = []"

end
