(* ===== verification/ThreadsInv.thy ===== *)
theory ThreadsInv
  imports Threads
begin

text \<open>
  The invariant of a network whose calls interleave: what the flags of connections and pipes say
  in the middle of a close or a reset, what a thread may rely on when it takes its next action,
  and the slots of the accept queues the threads hold. Every action keeps it (\<open>act_sound\<close>).
\<close>

section \<open>What a connection's flags say at any moment\<close>

text \<open>
  In the middle of a close or a reset the flags of a connection and of its pipes need not agree.
  What always holds is that a pipe is never ahead of the connections: a pipe whose reader is gone
  has a reading end that is down, and a writing end that is down or a reading end that closed; a
  pipe that is only finished has a closed writer. A registered end whose peer is not registered
  has a peer that is down.
\<close>

definition live_flags :: "world \<Rightarrow> nat \<Rightarrow> bool" where
  "live_flags w c \<longleftrightarrow>
     (readClosed (pipes w c) \<longrightarrow> conn_down (conns w (peer_of c))
        \<and> (conn_down (conns w c) \<or> c_closed (conns w (peer_of c))))
     \<and> (p_closed (pipes w c) \<longrightarrow> readClosed (pipes w c) \<or> c_closed (conns w c))"

definition live_registry :: "world \<Rightarrow> bool" where
  "live_registry w \<longleftrightarrow>
     (\<forall>k. \<forall>c \<in> set (resetTargets w k). c < next_conn w
        \<and> (peer_of c \<in> set (resetTargets w k) \<or> conn_down (conns w (peer_of c))))"

definition live_inv :: "world \<Rightarrow> bool" where
  "live_inv w \<longleftrightarrow> wired w \<and> (\<forall>i < next_pipe w. pipe_inv (pipes w i))
     \<and> (\<forall>c < next_conn w. live_flags w c) \<and> live_registry w \<and> net_inv False w"

lemma live_invD:
  assumes "live_inv w"
  shows "wired w" "c < next_conn w \<Longrightarrow> pipe_inv (pipes w c)" "c < next_conn w \<Longrightarrow> live_flags w c"
    "live_registry w" "net_inv False w" "c < next_conn w \<Longrightarrow> peer_of c < next_conn w"
    "c < next_conn w \<Longrightarrow> writePipe (conns w c) = c" "c < next_conn w \<Longrightarrow> readPipe (conns w c) = peer_of c"
  using assms wired_peer wired_pipes by (auto simp: live_inv_def wired_def)

text \<open>What no action takes back.\<close>

definition grows :: "world \<Rightarrow> world \<Rightarrow> bool" where
  "grows w v \<longleftrightarrow> next_conn w \<le> next_conn v \<and> next_lst w \<le> next_lst v
     \<and> (\<forall>c < next_conn w. (c_closed (conns w c) \<longrightarrow> c_closed (conns v c))
          \<and> (c_reset (conns w c) \<longrightarrow> c_reset (conns v c))
          \<and> conn_opError (conns v c) = conn_opError (conns w c))
     \<and> (\<forall>lid < next_lst w. l_closed (lsts w lid) \<longrightarrow> l_closed (lsts v lid))"

lemma grows_refl [simp]: "grows w w"
  by (simp add: grows_def)

lemma grows_trans: "grows u v \<Longrightarrow> grows v w \<Longrightarrow> grows u w"
  unfolding grows_def by (metis order_less_le_trans order_trans)

lemma grows_down: "grows w v \<Longrightarrow> c < next_conn w \<Longrightarrow> conn_down (conns w c) \<Longrightarrow> conn_down (conns v c)"
  by (auto simp: grows_def conn_down_def)

lemma grows_store:
  assumes "same_store v w" "next_lst w \<le> next_lst v"
    "\<And>lid. lid < next_lst w \<Longrightarrow> l_closed (lsts w lid) \<Longrightarrow> l_closed (lsts v lid)"
  shows "grows w v"
  using assms by (simp add: grows_def same_store_def)

lemma live_inv_store: "live_inv w \<Longrightarrow> same_store v w \<Longrightarrow> net_inv False v \<Longrightarrow> live_inv v"
  by (simp add: live_inv_def same_store_def wired_def live_flags_def live_registry_def)

text \<open>A change of one pipe by its reader, its writer or its timer.\<close>

lemma live_inv_pipe:
  assumes "live_inv w" "pipe_inv (f (pipes w i))"
    "p_closed (f (pipes w i)) = p_closed (pipes w i)" "readClosed (f (pipes w i)) = readClosed (pipes w i)"
  shows "live_inv (upd_pipe i f w)"
proof -
  have "net_inv False (upd_pipe i f w)" using assms(1) net_inv_cong [of "upd_pipe i f w" w] by (simp add: live_inv_def)
  with assms show ?thesis by (auto simp: live_inv_def wired_def live_flags_def live_registry_def)
qed

lemma grows_pipe [simp]: "grows w (upd_pipe i f w)"
  by (simp add: grows_def)

text \<open>A change of one connection that raises flags only.\<close>

lemma conn_opError_eqI:
  "c_network c = c_network d \<Longrightarrow> c_local c = c_local d \<Longrightarrow> c_remote c = c_remote d \<Longrightarrow>
     conn_opError c = conn_opError d"
  by (simp add: conn_opError_def fun_eq_iff)

lemma grows_conn:
  assumes "c_closed (conns w c) \<Longrightarrow> c_closed (f (conns w c))" "c_reset (conns w c) \<Longrightarrow> c_reset (f (conns w c))"
    "conn_opError (f (conns w c)) = conn_opError (conns w c)"
  shows "grows w (upd_conn c f w)"
  using assms by (simp add: grows_def)

lemma live_inv_conn:
  assumes inv: "live_inv w"
    and f: "writePipe (f (conns w c)) = writePipe (conns w c)" "readPipe (f (conns w c)) = readPipe (conns w c)"
    and up: "c_closed (conns w c) \<Longrightarrow> c_closed (f (conns w c))" "c_reset (conns w c) \<Longrightarrow> c_reset (f (conns w c))"
  shows "live_inv (upd_conn c f w)"
proof -
  let ?v = "upd_conn c f w"
  have down: "conn_down (conns w d) \<Longrightarrow> conn_down (conns ?v d)" "c_closed (conns w d) \<Longrightarrow> c_closed (conns ?v d)" for d
    using up by (auto simp: conn_down_def)
  have "net_inv False ?v" using inv net_inv_cong [of ?v w] by (simp add: live_inv_def)
  moreover have "wired ?v" using inv f by (auto simp: live_inv_def wired_def)
  moreover have "live_flags ?v d" if "d < next_conn w" for d
    using live_invD(3) [OF inv that] down unfolding live_flags_def upd_conn_sel(2) by blast
  moreover have "live_registry ?v"
    using live_invD(4) [OF inv] down unfolding live_registry_def upd_conn_sel by blast
  ultimately show ?thesis using inv by (simp add: live_inv_def)
qed

text \<open>An abort, when the ends it concerns are down already.\<close>

lemma live_inv_abort:
  assumes inv: "live_inv w" and i: "i < next_conn w"
    and down: "conn_down (conns w (peer_of i))" "conn_down (conns w i) \<or> c_closed (conns w (peer_of i))"
  shows "live_inv (upd_pipe i abort w)"
proof -
  let ?v = "upd_pipe i abort w"
  have "net_inv False ?v" using inv net_inv_cong [of ?v w] by (simp add: live_inv_def)
  moreover have "readClosed (abort p)" for p by (simp add: abort_def)
  then have "live_flags ?v d" if "d < next_conn w" for d
    using live_invD(3) [OF inv that] down by (cases "d = i") (auto simp: live_flags_def)
  moreover have "live_registry ?v"
    using live_invD(4) [OF inv] by (simp add: live_registry_def)
  ultimately show ?thesis using inv by (auto simp: live_inv_def wired_def abort_inv)
qed

lemma live_inv_close:
  assumes inv: "live_inv w" and i: "i < next_conn w" "c_closed (conns w i)"
  shows "live_inv (upd_pipe i close_pipe w)"
proof -
  let ?v = "upd_pipe i close_pipe w"
  have "net_inv False ?v" using inv net_inv_cong [of ?v w] by (simp add: live_inv_def)
  moreover have "readClosed (close_pipe p) = readClosed p" for p by (simp add: close_pipe_def)
  then have "live_flags ?v d" if "d < next_conn w" for d
    using live_invD(3) [OF inv that] i by (cases "d = i") (auto simp: live_flags_def)
  moreover have "live_registry ?v"
    using live_invD(4) [OF inv] by (simp add: live_registry_def)
  ultimately show ?thesis using inv by (auto simp: live_inv_def wired_def close_inv)
qed

text \<open>Fewer registrations, when whoever leaves is down or leaves with its peer.\<close>

lemma live_inv_targets:
  assumes "live_inv w" "\<And>k c. c \<in> set (f k) \<Longrightarrow> c \<in> set (resetTargets w k)
      \<and> (peer_of c \<in> set (f k) \<or> conn_down (conns w (peer_of c)))"
  shows "live_inv (w\<lparr>resetTargets := f\<rparr>)"
proof -
  have "net_inv False (w\<lparr>resetTargets := f\<rparr>)"
    using assms(1) net_inv_cong [of "w\<lparr>resetTargets := f\<rparr>" w] by (simp add: live_inv_def same_net_def)
  moreover have "live_registry (w\<lparr>resetTargets := f\<rparr>)"
    using assms(2) live_invD(4) [OF assms(1)] by (simp add: live_registry_def) blast
  ultimately show ?thesis
    using assms(1) by (simp add: live_inv_def wired_def live_flags_def)
qed

section \<open>What a thread may rely on\<close>

text \<open>
  What an operation under way may report: its own end's close or reset, or the peer's close; a
  reset of its own end is never reported as the end of the stream or as a broken pipe.
\<close>

fun read_ok :: "bool \<Rightarrow> world \<Rightarrow> nat \<Rightarrow> bytes pc \<Rightarrow> bool" where
  "read_ok plan9 w c (AtPostClosed out err) =
     (err = EOF \<and> (conn_down (conns w c) \<or> c_closed (conns w (peer_of c))))"
| "read_ok plan9 w c (AtPostReset out err) =
     (err = EOF \<and> (c_reset (conns w c) \<or> c_closed (conns w (peer_of c))))"
| "read_ok plan9 w c (Returned out (Some err)) =
     (err = EOF \<and> c_closed (conns w (peer_of c))
      \<or> err = conn_opError (conns w c) ''read'' NetErrClosed \<and> c_closed (conns w c)
      \<or> err = conn_opError (conns w c) ''read'' (errConnReset plan9) \<and> c_reset (conns w c)
      \<or> err = conn_opError (conns w c) ''read'' ErrDeadlineExceeded)"
| "read_ok plan9 w c (AtPostExpired ch g) = False"
| "read_ok plan9 w c pc = True"

fun write_ok :: "bool \<Rightarrow> world \<Rightarrow> nat \<Rightarrow> nat pc \<Rightarrow> bool" where
  "write_ok plan9 w c (AtPostClosed n err) = (conn_down (conns w c) \<or> c_closed (conns w (peer_of c)))"
| "write_ok plan9 w c (AtPostReset n err) = (c_reset (conns w c) \<or> c_closed (conns w (peer_of c)))"
| "write_ok plan9 w c (Returned n (Some err)) =
     (err = conn_opError (conns w c) ''write'' (errBrokenPipe plan9) \<and> c_closed (conns w (peer_of c))
      \<or> err = conn_opError (conns w c) ''write'' NetErrClosed \<and> c_closed (conns w c)
      \<or> err = conn_opError (conns w c) ''write'' (errConnReset plan9) \<and> c_reset (conns w c)
      \<or> err = conn_opError (conns w c) ''write'' ErrDeadlineExceeded)"
| "write_ok plan9 w c pc = True"

text \<open>
  What holds before an action is taken; \<open>D\<close> are the connections its thread will have signalled
  by then.
\<close>

fun act_ok :: "bool \<Rightarrow> world \<Rightarrow> nat set \<Rightarrow> act \<Rightarrow> bool" where
  "act_ok plan9 w D (ARead len c pc) = (c < next_conn w \<and> read_ok plan9 w c pc)"
| "act_ok plan9 w D (AWrite data c pc) = (c < next_conn w \<and> write_ok plan9 w c pc)"
| "act_ok plan9 w D (AClose c) = (c < next_conn w)"
| "act_ok plan9 w D (ADeregister c) = (c < next_conn w \<and> c_closed (conns w c))"
| "act_ok plan9 w D (ACloseWrite c) = (c < next_conn w \<and> c_closed (conns w c))"
| "act_ok plan9 w D (AAbortRead c) = (c < next_conn w \<and> c_closed (conns w c))"
| "act_ok plan9 w D (ASignal c) = (c < next_conn w)"
| "act_ok plan9 w D (AAbortW c) = (c < next_conn w
     \<and> (c \<in> D \<or> conn_down (conns w c)) \<and> (peer_of c \<in> D \<or> conn_down (conns w (peer_of c))))"
| "act_ok plan9 w D (AAbortR c) = (c < next_conn w
     \<and> (c \<in> D \<or> conn_down (conns w c)) \<and> (peer_of c \<in> D \<or> conn_down (conns w (peer_of c))))"
| "act_ok plan9 w D (AAccept lid) = (lid < next_lst w)"
| "act_ok plan9 w D (ACloseListener lid) = (lid < next_lst w)"
| "act_ok plan9 w D (ADelist lid) = (lid < next_lst w)"
| "act_ok plan9 w D (ADrain lid) = (lid < next_lst w \<and> l_closed (lsts w lid))"
| "act_ok plan9 w D (AGate t pc) = (pc = GateCheck \<or> (\<exists>ch. pc = GateWait ch))"
| "act_ok plan9 w D (AReserve t lid) = (lid < next_lst w)"
| "act_ok plan9 w D (AOrdinal t lid) = (lid < next_lst w)"
| "act_ok plan9 w D (AAddress t lid ordinal) = (lid < next_lst w)"
| "act_ok plan9 w D (AWire t lid ordinal i) = (lid < next_lst w)"
| "act_ok plan9 w D (AFill lid c) = (lid < next_lst w \<and> c < next_conn w)"
| "act_ok plan9 w D _ = True"

fun signals :: "act \<Rightarrow> nat set" where
  "signals (ASignal c) = {c}"
| "signals a = {}"

fun acts_ok :: "bool \<Rightarrow> world \<Rightarrow> nat set \<Rightarrow> act list \<Rightarrow> bool" where
  "acts_ok plan9 w D [] = True"
| "acts_ok plan9 w D (a # as) = (act_ok plan9 w D a \<and> acts_ok plan9 w (D \<union> signals a) as)"

lemma acts_ok_append:
  "acts_ok plan9 w D (as @ bs) \<longleftrightarrow> acts_ok plan9 w D as \<and> acts_ok plan9 w (D \<union> (\<Union>a \<in> set as. signals a)) bs"
  by (induction as arbitrary: D) (auto simp: Un_assoc)

text \<open>What a thread relies on is not lost by what others do.\<close>

lemma read_ok_mono:
  assumes "read_ok plan9 w c pc" "grows w v" "c < next_conn w" "peer_of c < next_conn w"
  shows "read_ok plan9 v c pc"
proof -
  have "c_closed (conns w (peer_of c)) \<Longrightarrow> c_closed (conns v (peer_of c))"
    "c_closed (conns w c) \<Longrightarrow> c_closed (conns v c)" "c_reset (conns w c) \<Longrightarrow> c_reset (conns v c)"
    "conn_opError (conns v c) = conn_opError (conns w c)"
    using assms(2-4) by (auto simp: grows_def)
  then show ?thesis using assms(1)
    by (cases "(plan9, w, c, pc)" rule: read_ok.cases) (auto simp: conn_down_def)
qed

lemma write_ok_mono:
  assumes "write_ok plan9 w c pc" "grows w v" "c < next_conn w" "peer_of c < next_conn w"
  shows "write_ok plan9 v c pc"
proof -
  have "c_closed (conns w (peer_of c)) \<Longrightarrow> c_closed (conns v (peer_of c))"
    "c_closed (conns w c) \<Longrightarrow> c_closed (conns v c)" "c_reset (conns w c) \<Longrightarrow> c_reset (conns v c)"
    "conn_opError (conns v c) = conn_opError (conns w c)"
    using assms(2-4) by (auto simp: grows_def)
  then show ?thesis using assms(1)
    by (cases "(plan9, w, c, pc)" rule: write_ok.cases) (auto simp: conn_down_def)
qed

lemma act_ok_mono:
  assumes "act_ok plan9 w D a" "grows w v" "wired w" "\<And>c. c \<in> D \<Longrightarrow> c \<in> D' \<or> conn_down (conns v c)"
  shows "act_ok plan9 v D' a"
proof -
  have lt: "c < next_conn w \<Longrightarrow> c < next_conn v" "lid < next_lst w \<Longrightarrow> lid < next_lst v" for c lid
    using assms(2) by (auto simp: grows_def)
  have pl: "c < next_conn w \<Longrightarrow> peer_of c < next_conn w" for c by (rule wired_peer [OF assms(3)])
  have cl: "c < next_conn w \<Longrightarrow> c_closed (conns w c) \<Longrightarrow> c_closed (conns v c)"
    "lid < next_lst w \<Longrightarrow> l_closed (lsts w lid) \<Longrightarrow> l_closed (lsts v lid)" for c lid
    using assms(2) by (auto simp: grows_def)
  note down = grows_down [OF assms(2)]
  show ?thesis
  proof (cases a)
    case (ARead len c pc)
    with assms(1) read_ok_mono [OF _ assms(2)] lt pl show ?thesis by simp
  next
    case (AWrite data c pc)
    with assms(1) write_ok_mono [OF _ assms(2)] lt pl show ?thesis by simp
  next
    case (AAbortW c)
    with assms(1,4) lt pl [of c] down [of c] down [of "peer_of c"] show ?thesis by auto
  next
    case (AAbortR c)
    with assms(1,4) lt pl [of c] down [of c] down [of "peer_of c"] show ?thesis by auto
  qed (use assms(1) lt cl in auto)
qed

lemma acts_ok_mono:
  "acts_ok plan9 w D as \<Longrightarrow> grows w v \<Longrightarrow> wired w \<Longrightarrow> (\<And>c. c \<in> D \<Longrightarrow> c \<in> D' \<or> conn_down (conns v c)) \<Longrightarrow>
     acts_ok plan9 v D' as"
proof (induction as arbitrary: D D')
  case (Cons a as)
  have "acts_ok plan9 v (D' \<union> signals a) as"
    using Cons.prems by (intro Cons.IH [of "D \<union> signals a"]) auto
  moreover have "act_ok plan9 v D' a" using Cons.prems by (intro act_ok_mono [of plan9 w D a v]) auto
  ultimately show ?case by simp
qed simp

text \<open>A call made by a client needs nothing more.\<close>

lemma api_ok: "api_act w a \<Longrightarrow> act_ok plan9 w {} a"
  by (cases "(w, a)" rule: api_act.cases) auto

section \<open>Wiring a pair\<close>

lemma dial_wire_connect:
  "dial_connect t ordinal i lid w =
     (let ((client, server), v) = dial_wire t ordinal i lid w
      in ((client, server),
          if w_traceEnabled v
          then registerTrace ordinal sideAcceptor (writePipe (conns v server))
                 (registerTrace ordinal sideDialer (writePipe (conns v client)) v)
          else v))"
  by (simp add: dial_connect_def Let_def case_prod_beta)

lemma dial_wire_effect:
  assumes "wired w" "dial_wire t ordinal i lid w = ((client, server), v)"
  shows "client = next_conn w" "server = Suc (next_conn w)"
    "conns v = (conns w)
       (client := (newConn (dial_local_addr t ordinal i) (dial_remote_addr t lid w) (dt_network t) ordinal
                     sideDialer server client)\<lparr>c_nw := True, c_pair := dial_pair t ordinal\<rparr>,
        server := (newConn (dial_remote_addr t lid w) (dial_local_addr t ordinal i) (dt_network t) ordinal
                     sideAcceptor client server)\<lparr>c_nw := True, c_pair := dial_pair t ordinal\<rparr>)"
    "pipes v = (pipes w)(client := dialed_pipe t ordinal sideDialer w,
                          server := dialed_pipe t ordinal sideAcceptor w)"
    "resetTargets v = (resetTargets w)
       (dial_pair t ordinal := resetTargets w (dial_pair t ordinal) @ [client, server])"
    "next_conn v = Suc (Suc (next_conn w))" "next_pipe v = Suc (Suc (next_pipe w))"
    "lsts v = lsts w" "next_lst v = next_lst w" "listeners v = listeners w" "faults v = faults w"
    "w_pipeBound v = w_pipeBound w" "w_listenerBacklog v = w_listenerBacklog w" "nextOrdinal v = nextOrdinal w"
proof -
  obtain v' where dc: "dial_connect t ordinal i lid w = ((client, server), v')"
    and v': "v' = (if w_traceEnabled v
          then registerTrace ordinal sideAcceptor (writePipe (conns v server))
                 (registerTrace ordinal sideDialer (writePipe (conns v client)) v)
          else v)"
    using assms(2) by (simp add: dial_wire_connect)
  have same: "conns v' = conns v" "pipes v' = pipes v" "resetTargets v' = resetTargets v"
    "next_conn v' = next_conn v" "next_pipe v' = next_pipe v" "lsts v' = lsts v" "next_lst v' = next_lst v"
    "listeners v' = listeners v" "faults v' = faults v" "w_pipeBound v' = w_pipeBound v"
    "w_listenerBacklog v' = w_listenerBacklog v" "nextOrdinal v' = nextOrdinal v"
    by (simp_all add: v')
  note eff = dial_connect_effect [OF assms(1) dc, unfolded same]
  show "client = next_conn w" "server = Suc (next_conn w)"
    "conns v = (conns w)
       (client := (newConn (dial_local_addr t ordinal i) (dial_remote_addr t lid w) (dt_network t) ordinal
                     sideDialer server client)\<lparr>c_nw := True, c_pair := dial_pair t ordinal\<rparr>,
        server := (newConn (dial_remote_addr t lid w) (dial_local_addr t ordinal i) (dt_network t) ordinal
                     sideAcceptor client server)\<lparr>c_nw := True, c_pair := dial_pair t ordinal\<rparr>)"
    "pipes v = (pipes w)(client := dialed_pipe t ordinal sideDialer w,
                          server := dialed_pipe t ordinal sideAcceptor w)"
    "resetTargets v = (resetTargets w)
       (dial_pair t ordinal := resetTargets w (dial_pair t ordinal) @ [client, server])"
    "next_conn v = Suc (Suc (next_conn w))" "next_pipe v = Suc (Suc (next_pipe w))"
    "lsts v = lsts w" "next_lst v = next_lst w" "listeners v = listeners w" "faults v = faults w"
    "w_pipeBound v = w_pipeBound w" "w_listenerBacklog v = w_listenerBacklog w" "nextOrdinal v = nextOrdinal w"
    by (fact eff(1-11,15-17))+
qed

lemma dial_wire_live:
  assumes inv: "live_inv w" and dw: "dial_wire t ordinal i lid w = ((client, server), v)"
  shows "live_inv v" "grows w v"
proof -
  note wi = live_invD(1) [OF inv]
  note eff = dial_wire_effect [OF wi dw]
  have n: "next_pipe w = next_conn w" "even (next_conn w)" using wi by (simp_all add: wired_def)
  have pr: "peer_of client = server" "peer_of server = client"
    using n peer_of_pair [of "next_conn w"] by (simp_all add: eff(1,2))
  have old: "c < next_conn w \<Longrightarrow> peer_of c < next_conn w \<and> c \<noteq> client \<and> c \<noteq> server
      \<and> peer_of c \<noteq> client \<and> peer_of c \<noteq> server" for c
    using wired_peer [OF wi, of c] by (simp add: eff(1,2))
  have cases: "c < next_conn v \<longleftrightarrow> c < next_conn w \<or> c = client \<or> c = server" for c
    by (auto simp: eff(1,2,6))
  have keep: "c < next_conn w \<Longrightarrow> conns v c = conns w c" "c < next_conn w \<Longrightarrow> pipes v c = pipes w c" for c
    using old [of c] by (simp_all add: eff(3,4))
  have "wired v"
    using wi n by (auto simp: wired_def eff(6,7) cases less_Suc_eq keep)
      (simp_all add: eff(1,2,3) newConn_def peer_of_pair)
  moreover have "\<forall>j < next_pipe v. pipe_inv (pipes v j)"
    using inv n by (auto simp: live_inv_def eff(4,7) eff(1,2) less_Suc_eq)
  moreover have "live_flags v c" if "c < next_conn v" for c
  proof (cases "c < next_conn w")
    case True
    with live_invD(3) [OF inv True] keep old [OF True] show ?thesis by (simp add: live_flags_def)
  next
    case False
    with that cases have "c = client \<or> c = server" by blast
    then show ?thesis by (auto simp: live_flags_def eff(4))
  qed
  moreover have "live_registry v"
    unfolding live_registry_def
  proof (intro allI ballI)
    fix k c assume c: "c \<in> set (resetTargets v k)"
    show "c < next_conn v \<and> (peer_of c \<in> set (resetTargets v k) \<or> conn_down (conns v (peer_of c)))"
    proof (cases "c \<in> set (resetTargets w k)")
      case True
      then have "c < next_conn w" "peer_of c \<in> set (resetTargets w k) \<or> conn_down (conns w (peer_of c))"
        using live_invD(4) [OF inv] unfolding live_registry_def by blast+
      with old [of c] keep(1) [of "peer_of c"] show ?thesis by (auto simp: eff(5) cases)
    next
      case False
      with c have "k = dial_pair t ordinal" "c = client \<or> c = server" by (auto simp: eff(5) split: if_splits)
      with pr cases show ?thesis by (auto simp: eff(5))
    qed
  qed
  moreover have "net_inv False v"
    using live_invD(5) [OF inv] unfolding net_inv_def listeners_inv_def eff(6,8-13) by (auto simp: less_SucI)
  ultimately show "live_inv v" by (simp add: live_inv_def)
  show "grows w v" using keep by (simp add: grows_def eff(6,8,9))
qed

section \<open>Every action keeps the invariant\<close>

lemma tryRead_error:
  assumes "tryRead e len p = (Done out (Some err), q)"
  shows "err = EOF \<and> (readClosed p \<or> p_closed p)"
  using assms
  by (cases rule: tryRead_cases [where p = p and len = len])
     (auto simp: tryRead_closed tryRead_data tryRead_idle read_idle_def split: if_splits)

lemma live_read:
  assumes inv: "live_inv w" and c: "c < next_conn w" and ok: "read_ok plan9 w c pc"
    and st: "read_step plan9 len c pc w = (pc', v)"
  shows "live_inv v \<and> grows w v \<and> read_ok plan9 v c pc'"
proof (cases pc)
  case (AtTry g)
  obtain r p where t: "tryRead (env_of w) len (pipes w (readPipe (conns w c))) = (r, p)" by fastforce
  let ?i = "peer_of c"
  have i: "readPipe (conns w c) = ?i" "?i < next_conn w" using live_invD [OF inv] c by auto
  have v: "v = upd_pipe ?i (\<lambda>_. p) w" using st AtTry t i
    by (auto simp: Let_def split: attempt.splits option.splits)
  have "live_inv v"
    unfolding v using live_invD(2) [OF inv i(2)] tryRead_inv [of "pipes w ?i" "env_of w" len]
      tryRead_frame [of "env_of w" len "pipes w ?i"] t i(1)
    by (intro live_inv_pipe [OF inv]) simp_all
  moreover have "read_ok plan9 v c pc'"
  proof (cases r)
    case (Done out e)
    show ?thesis
    proof (cases e)
      case (Some err)
      with Done t i have "err = EOF" "readClosed (pipes w ?i) \<or> p_closed (pipes w ?i)"
        using tryRead_error by fastforce+
      moreover have "live_flags w ?i" by (rule live_invD(3) [OF inv i(2)])
      ultimately have "conn_down (conns w c) \<or> c_closed (conns w ?i)" "err = EOF"
        by (auto simp: live_flags_def)
      with Some Done AtTry st t show ?thesis by (auto simp: v)
    qed (use Done AtTry st t in auto)
  qed (use AtTry st t in auto)
  ultimately show ?thesis by (simp add: v)
next
  case (AtPostClosed out err)
  with ok inv st show ?thesis by (auto simp: conn_down_def split: if_splits)
next
  case (AtPostReset out err)
  with ok inv st show ?thesis by (auto split: if_splits)
qed (use assms in \<open>auto split: if_splits\<close>)

lemma live_write:
  assumes inv: "live_inv w" and c: "c < next_conn w" and ok: "write_ok plan9 w c pc"
    and st: "write_step plan9 data c pc w = Some (pc', v)"
  shows "live_inv v \<and> grows w v \<and> write_ok plan9 v c pc'"
proof (cases pc)
  case (AtTry g)
  have i: "writePipe (conns w c) = c" using live_invD(7) [OF inv c] .
  with st AtTry obtain r p where t: "tryWrite (env_of w) data (pipes w c) = Some (r, p)"
    and v: "v = upd_pipe c (\<lambda>_. p) w"
    and pc': "pc' = (case r of Done n None \<Rightarrow> Returned n None | Done n (Some err) \<Rightarrow> AtPostClosed n err
                      | Wait ch \<Rightarrow> AtPostExpired ch g)"
    by (auto simp: Let_def split: option.splits attempt.splits)
  have "live_inv v"
    unfolding v using tryWrite_inv [OF t live_invD(2) [OF inv c]] tryWrite_flags [OF t]
    by (intro live_inv_pipe [OF inv]) simp_all
  moreover have "write_ok plan9 v c pc'"
    using t
  proof (cases rule: tryWrite_cases)
    case closed
    with live_invD(3) [OF inv c] show ?thesis
      by (auto simp: pc' v live_flags_def conn_down_def)
  qed (simp_all add: pc')
  ultimately show ?thesis by (simp add: v)
next
  case (AtPostClosed n err)
  with ok inv st show ?thesis by (auto simp: conn_down_def split: if_splits)
next
  case (AtPostReset n err)
  with ok inv st show ?thesis by (auto split: if_splits)
qed (use assms in \<open>auto split: if_splits\<close>)

text \<open>The actions that concern names, listeners and settings only.\<close>

lemma listeners_grow:
  "next_lst w \<le> next_lst (snd (Listen network laddr w))"
  "lid < next_lst w \<Longrightarrow> lsts (snd (Listen network laddr w)) lid = lsts w lid"
proof -
  have c: "lsts (snd (canonicalPeer h v)) = lsts v" "next_lst (snd (canonicalPeer h v)) = next_lst v" for h v
    by (simp_all add: canonicalPeer_def case_prod_beta)
  have r: "next_lst v \<le> next_lst (snd (register_listener network pr p i v))"
    "lid < next_lst v \<Longrightarrow> lsts (snd (register_listener network pr p i v)) lid = lsts v lid" for pr p i v
    by (simp_all add: register_listener_def Let_def)
  have a: "next_lst v \<le> next_lst (snd (listen_at network laddr pr p x v))
      \<and> (lid < next_lst v \<longrightarrow> lsts (snd (listen_at network laddr pr p x v)) lid = lsts v lid)" for pr p x v
    using r [of "v\<lparr>book := _\<rparr>"] r [of "v\<lparr>nextListenPort := _, book := _\<rparr>"]
    by (cases x) (auto simp: listen_at_def Let_def case_prod_beta register_listener_def split: option.split sum.split)
  have "next_lst w \<le> next_lst (snd (Listen network laddr w))
      \<and> (lid < next_lst w \<longrightarrow> lsts (snd (Listen network laddr w)) lid = lsts w lid)"
    using a [of "snd (canonicalPeer _ w)"] a [of "snd (canonicalPeer _ (w\<lparr>nextWildcard := _\<rparr>))"]
    by (auto simp: Listen_def Let_def case_prod_beta c split: option.split sum.split)
  then show "next_lst w \<le> next_lst (snd (Listen network laddr w))"
    "lid < next_lst w \<Longrightarrow> lsts (snd (Listen network laddr w)) lid = lsts w lid" by blast+
qed

definition quiet :: "world \<Rightarrow> world \<Rightarrow> bool" where
  "quiet w v \<longleftrightarrow> same_store v w \<and> (net_inv False w \<longrightarrow> net_inv False v) \<and> lsts v = lsts w \<and> next_lst v = next_lst w"

lemma quiet_live: "quiet w v \<Longrightarrow> live_inv w \<Longrightarrow> live_inv v \<and> grows w v"
  using live_inv_store [of w v] live_invD(5) [of w] grows_store [of v w] by (simp add: quiet_def)

lemma quiet_trans: "quiet u v \<Longrightarrow> quiet v w \<Longrightarrow> quiet u w"
  by (simp add: quiet_def same_store_def)

lemma quiet_canonical: "quiet w (snd (canonicalPeer h w))"
  by (simp add: quiet_def canonicalPeer_def case_prod_beta)

lemma quiet_upd [simp]:
  "quiet w w" "quiet w (w\<lparr>book := b\<rparr>)" "quiet w (w\<lparr>clock := t\<rparr>)" "quiet w (w\<lparr>parts := pt\<rparr>)"
  "quiet w (w\<lparr>nextOrdinal := u\<rparr>)" "quiet w (w\<lparr>traces := trs\<rparr>)" "quiet w (registerTrace o' sd r w)"
  by (simp_all add: quiet_def registerTrace_def)

lemma quiet_dial:
  "quiet w (snd (dial_resolve ctx network a w))" "quiet w (snd (dial_self ctx t w))"
  "quiet w (snd (dial_ordinal w))" "quiet w (snd (dial_local_ip t ordinal lid w))"
  using quiet_canonical
  by (auto simp: dial_resolve_def dial_self_def dial_ordinal_def dial_local_ip_def Let_def case_prod_beta
      split: option.split sum.split)

lemma quiet_setters:
  "from_panic w (SetLatency dmin dmax w) = [(bs, v)] \<Longrightarrow> quiet w v \<and> bs = []"
  "from_panic w (SetPacketLoss rate w) = [(bs, v)] \<Longrightarrow> quiet w v \<and> bs = []"
  "from_panic w (SetDuplication rate w) = [(bs, v)] \<Longrightarrow> quiet w v \<and> bs = []"
  "from_panic w (SetCorruption rate w) = [(bs, v)] \<Longrightarrow> quiet w v \<and> bs = []"
proof -
  have gen: "quiet w v \<and> bs = []"
    if "from_panic w (set_faults f w) = [(bs, v)]" "\<And>c c'. faults_ok c \<Longrightarrow> f c = Inr c' \<Longrightarrow> faults_ok c'" for f
    using that net_inv_faults [of False w]
    by (cases "f (faults w)") (auto simp: from_panic_def set_faults_def quiet_def net_inv_def)
  show "from_panic w (SetLatency dmin dmax w) = [(bs, v)] \<Longrightarrow> quiet w v \<and> bs = []"
    "from_panic w (SetPacketLoss rate w) = [(bs, v)] \<Longrightarrow> quiet w v \<and> bs = []"
    "from_panic w (SetDuplication rate w) = [(bs, v)] \<Longrightarrow> quiet w v \<and> bs = []"
    "from_panic w (SetCorruption rate w) = [(bs, v)] \<Longrightarrow> quiet w v \<and> bs = []"
    unfolding SetLatency_def SetPacketLoss_def SetDuplication_def SetCorruption_def
    using gen setters_ok by blast+
qed

lemma from_panic_single: "(bs, v) \<in> set (from_panic w r) \<Longrightarrow> from_panic w r = [(bs, v)]"
  by (cases r) (auto simp: from_panic_def)

section \<open>Claimed slots\<close>

text \<open>The listener on whose queue an action holds a claimed slot.\<close>

fun slot :: "act \<Rightarrow> nat option" where
  "slot (AOrdinal t lid) = Some lid"
| "slot (AAddress t lid ordinal) = Some lid"
| "slot (AWire t lid ordinal i) = Some lid"
| "slot (AFill lid c) = Some lid"
| "slot a = None"

definition claims :: "nat \<Rightarrow> act list \<Rightarrow> nat" where
  "claims lid as = length (filter (\<lambda>a. slot a = Some lid) as)"

lemma claims_simps [simp]:
  "claims lid [] = 0" "claims lid (a # as) = (if slot a = Some lid then 1 else 0) + claims lid as"
  "claims lid (as @ bs) = claims lid as + claims lid bs"
  by (simp_all add: claims_def)

lemma claims_map: "(\<And>x. slot (f x) = None) \<Longrightarrow> claims lid (map f xs) = 0"
  by (simp add: claims_def)

text \<open>What taking an action must keep.\<close>

definition sound :: "bool \<Rightarrow> world \<Rightarrow> act \<Rightarrow> act list \<Rightarrow> world \<Rightarrow> bool" where
  "sound plan9 w a bs v \<longleftrightarrow>
     live_inv v \<and> grows w v \<and> acts_ok plan9 v {} bs \<and> (\<forall>c \<in> signals a. conn_down (conns v c))
     \<and> (\<forall>lid < next_lst w. int (claims lid bs) + reserved (lsts w lid) \<le> int (claims lid [a]) + reserved (lsts v lid))
     \<and> (\<forall>lid \<ge> next_lst w. claims lid bs \<le> claims lid [a])"

lemma sound_quiet:
  assumes "live_inv w" "quiet w v" "acts_ok plan9 v {} bs" "signals a = {}" "\<And>lid. claims lid bs \<le> claims lid [a]"
  shows "sound plan9 w a bs v"
  using assms quiet_live [OF assms(2,1)] by (simp add: sound_def quiet_def)

lemma sound_store:
  assumes "live_inv v" "grows w v" "lsts v = lsts w" "acts_ok plan9 v {} bs" "\<And>c. c \<in> signals a \<Longrightarrow> conn_down (conns v c)"
    "\<And>lid. claims lid bs \<le> claims lid [a]"
  shows "sound plan9 w a bs v"
  using assms by (simp add: sound_def)

lemma signals_dials [simp]: "signals a = {} \<or> (\<exists>c. a = ASignal c)"
  by (cases a) auto

section \<open>Reads, writes, closing and resetting\<close>

lemma act_read:
  "(bs, v) \<in> set (act_step plan9 done_err (ARead len c pc) w) \<Longrightarrow>
     \<exists>pc'. read_step plan9 len c pc w = (pc', v) \<and> bs = [ARead len c pc']"
  by (auto simp: Let_def split: prod.splits if_splits)

lemma act_write:
  "(bs, v) \<in> set (act_step plan9 done_err (AWrite data c pc) w) \<Longrightarrow>
     \<exists>pc'. write_step plan9 data c pc w = Some (pc', v) \<and> bs = [AWrite data c pc']"
  by (auto split: option.splits prod.splits if_splits)

lemma sound_read:
  assumes "live_inv w" "act_ok plan9 w {} (ARead len c pc)" "(bs, v) \<in> set (act_step plan9 done_err (ARead len c pc) w)"
  shows "sound plan9 w (ARead len c pc) bs v"
proof -
  from act_read [OF assms(3)] obtain pc' where st: "read_step plan9 len c pc w = (pc', v)" "bs = [ARead len c pc']"
    by blast
  have "lsts v = lsts w" "next_conn v = next_conn w"
    using same_net_read [of plan9 len c pc w] st(1) by (simp_all add: same_net_def)
  with live_read [OF assms(1) _ _ st(1)] assms(2) st(2) show ?thesis
    by (intro sound_store) auto
qed

lemma sound_write:
  assumes "live_inv w" "act_ok plan9 w {} (AWrite data c pc)" "(bs, v) \<in> set (act_step plan9 done_err (AWrite data c pc) w)"
  shows "sound plan9 w (AWrite data c pc) bs v"
proof -
  from act_write [OF assms(3)] obtain pc' where st: "write_step plan9 data c pc w = Some (pc', v)" "bs = [AWrite data c pc']"
    by blast
  have "lsts v = lsts w" "next_conn v = next_conn w"
    using same_net_write [OF st(1)] by (simp_all add: same_net_def)
  with live_write [OF assms(1) _ _ st(1)] assms(2) st(2) show ?thesis
    by (intro sound_store) auto
qed

lemma sound_conn:
  assumes "live_inv w" "\<And>cn. writePipe (f cn) = writePipe cn" "\<And>cn. readPipe (f cn) = readPipe cn"
    "\<And>cn. c_closed cn \<Longrightarrow> c_closed (f cn)" "\<And>cn. c_reset cn \<Longrightarrow> c_reset (f cn)"
    "\<And>cn. conn_opError (f cn) = conn_opError cn"
    "acts_ok plan9 (upd_conn c f w) {} bs" "\<And>d. d \<in> signals a \<Longrightarrow> conn_down (conns (upd_conn c f w) d)"
    "\<And>lid. claims lid bs \<le> claims lid [a]"
  shows "sound plan9 w a bs (upd_conn c f w)"
  using assms by (intro sound_store live_inv_conn grows_conn) simp_all

lemma sound_close:
  assumes "live_inv w" "act_ok plan9 w {} (AClose c)" "(bs, v) \<in> set (act_step plan9 done_err (AClose c) w)"
  shows "sound plan9 w (AClose c) bs v"
proof (cases "c_closed (conns w c)")
  case True
  with assms show ?thesis by (intro sound_quiet) auto
next
  case False
  with assms have v: "v = upd_conn c (\<lambda>cn. cn\<lparr>c_closed := True\<rparr>) w"
    "bs = [ADeregister c, ACloseWrite c, AAbortRead c, AStopRead c, AStopWrite c]" by auto
  show ?thesis
    unfolding v(1) using assms(1,2) v(2)
    by (intro sound_conn) (auto intro: conn_opError_eqI)
qed

lemma sound_deregister:
  assumes inv: "live_inv w" and ok: "act_ok plan9 w {} (ADeregister c)"
    and st: "(bs, v) \<in> set (act_step plan9 done_err (ADeregister c) w)"
  shows "sound plan9 w (ADeregister c) bs v"
proof -
  let ?k = "c_pair (conns w c)"
  let ?f = "(resetTargets w)(?k := remove1 c (resetTargets w ?k))"
  have reg: "d \<in> set (resetTargets w k) \<Longrightarrow> peer_of d \<in> set (resetTargets w k) \<or> conn_down (conns w (peer_of d))" for d k
    using live_invD(4) [OF inv] unfolding live_registry_def by blast
  have "live_inv (w\<lparr>resetTargets := ?f\<rparr>)"
  proof (rule live_inv_targets [OF inv])
    fix k d assume d: "d \<in> set (?f k)"
    then have d': "d \<in> set (resetTargets w k)" by (auto split: if_splits dest: subsetD [OF set_remove1_subset])
    have "conn_down (conns w c)" using ok by (simp add: conn_down_def)
    with reg [OF d'] have "peer_of d \<in> set (?f k) \<or> conn_down (conns w (peer_of d))"
      by (cases "peer_of d = c") auto
    with d' show "d \<in> set (resetTargets w k) \<and> (peer_of d \<in> set (?f k) \<or> conn_down (conns w (peer_of d)))" by blast
  qed
  then have "live_inv (deregisterReset ?k c w)" by (simp add: deregisterReset_def)
  moreover have "grows w (deregisterReset ?k c w)" "lsts (deregisterReset ?k c w) = lsts w"
    by (simp_all add: grows_def deregisterReset_def)
  ultimately show ?thesis
    using inv st by (intro sound_store) (auto split: if_splits)
qed

lemma sound_pipes:
  assumes inv: "live_inv w"
  shows "act_ok plan9 w {} (ACloseWrite c) \<Longrightarrow> (bs, v) \<in> set (act_step plan9 done_err (ACloseWrite c) w) \<Longrightarrow>
      sound plan9 w (ACloseWrite c) bs v"
    "act_ok plan9 w {} (AAbortRead c) \<Longrightarrow> (bs, v) \<in> set (act_step plan9 done_err (AAbortRead c) w) \<Longrightarrow>
      sound plan9 w (AAbortRead c) bs v"
    "act_ok plan9 w {} (AAbortW c) \<Longrightarrow> (bs, v) \<in> set (act_step plan9 done_err (AAbortW c) w) \<Longrightarrow>
      sound plan9 w (AAbortW c) bs v"
    "act_ok plan9 w {} (AAbortR c) \<Longrightarrow> (bs, v) \<in> set (act_step plan9 done_err (AAbortR c) w) \<Longrightarrow>
      sound plan9 w (AAbortR c) bs v"
proof -
  note ip = live_invD(7) [OF inv] live_invD(8) [OF inv] live_invD(6) [OF inv]
  show "sound plan9 w (ACloseWrite c) bs v"
    if "act_ok plan9 w {} (ACloseWrite c)" "(bs, v) \<in> set (act_step plan9 done_err (ACloseWrite c) w)"
  proof -
    from that have c: "c < next_conn w" "c_closed (conns w c)" and v: "v = upd_pipe c close_pipe w" "bs = []"
      using ip(1) by auto
    show ?thesis unfolding v by (rule sound_store [OF live_inv_close [OF inv c]]) simp_all
  qed
  show "sound plan9 w (AAbortRead c) bs v"
    if "act_ok plan9 w {} (AAbortRead c)" "(bs, v) \<in> set (act_step plan9 done_err (AAbortRead c) w)"
  proof -
    from that have c: "c < next_conn w" "c_closed (conns w c)" and v: "v = upd_pipe (peer_of c) abort w" "bs = []"
      using ip(2) by auto
    have "live_inv (upd_pipe (peer_of c) abort w)"
      using c ip(3) by (intro live_inv_abort [OF inv]) (auto simp: conn_down_def)
    then show ?thesis unfolding v by (rule sound_store) simp_all
  qed
  show "sound plan9 w (AAbortW c) bs v"
    if "act_ok plan9 w {} (AAbortW c)" "(bs, v) \<in> set (act_step plan9 done_err (AAbortW c) w)"
  proof -
    from that have c: "c < next_conn w" "conn_down (conns w c)" "conn_down (conns w (peer_of c))"
      and v: "v = upd_pipe c abort w" "bs = []" using ip(1) by auto
    have "live_inv (upd_pipe c abort w)" using c by (intro live_inv_abort [OF inv]) auto
    then show ?thesis unfolding v by (rule sound_store) simp_all
  qed
  show "sound plan9 w (AAbortR c) bs v"
    if "act_ok plan9 w {} (AAbortR c)" "(bs, v) \<in> set (act_step plan9 done_err (AAbortR c) w)"
  proof -
    from that have c: "c < next_conn w" "conn_down (conns w c)" "conn_down (conns w (peer_of c))"
      and v: "v = upd_pipe (peer_of c) abort w" "bs = []" using ip(2) by auto
    have "live_inv (upd_pipe (peer_of c) abort w)" using c ip(3) by (intro live_inv_abort [OF inv]) auto
    then show ?thesis unfolding v by (rule sound_store) simp_all
  qed
qed

text \<open>The targets of a reset come with their peers, unless those are down.\<close>

lemma reset_acts_ok:
  assumes "live_inv w"
  shows "acts_ok plan9 w {} (reset_acts (resetTargets w k))"
proof -
  let ?ts = "resetTargets w k"
  have reg: "c \<in> set ?ts \<Longrightarrow> c < next_conn w \<and> (peer_of c \<in> set ?ts \<or> conn_down (conns w (peer_of c)))" for c
    using live_invD(4) [OF assms] unfolding live_registry_def by blast
  have sig: "acts_ok plan9 w D (map ASignal cs)" if "\<forall>c \<in> set cs. c < next_conn w" for cs D
    using that by (induction cs arbitrary: D) auto
  have ab: "acts_ok plan9 w D (concat (map (\<lambda>c. [AAbortW c, AAbortR c]) cs))"
    if "\<forall>c \<in> set cs. c < next_conn w \<and> c \<in> D \<and> (peer_of c \<in> D \<or> conn_down (conns w (peer_of c)))" for cs D
    using that by (induction cs) auto
  have "(\<Union>a \<in> set (map ASignal ?ts). signals a) = set ?ts" by auto
  with reg sig [of ?ts "{}"] ab [of ?ts "set ?ts"] show ?thesis
    by (simp add: reset_acts_def acts_ok_append)
qed

lemma claims_reset [simp]: "claims lid (reset_acts ts) = 0"
  by (induction ts) (auto simp: reset_acts_def claims_map)

lemma acts_ok_same:
  "same_store v w \<Longrightarrow> lsts v = lsts w \<Longrightarrow> next_lst v = next_lst w \<Longrightarrow> wired w \<Longrightarrow> acts_ok plan9 w D as \<Longrightarrow> acts_ok plan9 v D as"
  by (rule acts_ok_mono) (auto intro: grows_store)

lemma sound_take:
  assumes inv: "live_inv w"
  shows "sound plan9 w (APair3 OpReset k) (reset_acts (resetTargets w k)) (w\<lparr>resetTargets := (resetTargets w)(k := [])\<rparr>)"
proof -
  let ?v = "w\<lparr>resetTargets := (resetTargets w)(k := [])\<rparr>"
  have "live_inv ?v"
    using live_invD(4) [OF inv] unfolding live_registry_def
    by (intro live_inv_targets [OF inv]) (auto split: if_splits simp del: split_paired_All)
  moreover have gr: "grows w ?v" by (simp add: grows_def)
  moreover have "acts_ok plan9 ?v {} (reset_acts (resetTargets w k))"
    by (rule acts_ok_mono [OF reset_acts_ok [OF inv] gr live_invD(1) [OF inv]]) simp
  ultimately show ?thesis by (intro sound_store) auto
qed

section \<open>Listeners and dials\<close>

lemma sound_listeners:
  assumes "live_inv w" "same_store v w" "net_inv False v" "next_lst w \<le> next_lst v"
    "\<And>lid. lid < next_lst w \<Longrightarrow> l_closed (lsts w lid) \<Longrightarrow> l_closed (lsts v lid)"
    "\<And>lid. lid < next_lst w \<Longrightarrow>
       int (claims lid bs) + reserved (lsts w lid) \<le> int (claims lid [a]) + reserved (lsts v lid)"
    "acts_ok plan9 v {} bs" "signals a = {}" "\<And>lid. next_lst w \<le> lid \<Longrightarrow> claims lid bs \<le> claims lid [a]"
  shows "sound plan9 w a bs v"
  using assms live_inv_store [OF assms(1-3)] grows_store [OF assms(2,4,5)] by (simp add: sound_def)

lemma sound_listen:
  assumes "live_inv w"
  shows "sound plan9 w (AListen network laddr) [] (snd (Listen network laddr w))"
  using Listen_net [OF live_invD(5) [OF assms]] Listen_same listeners_grow(1) [of w network laddr] listeners_grow(2) [of _ w network laddr]
  by (intro sound_listeners [OF assms]) simp_all

lemma sound_accept:
  assumes "live_inv w" "lid < next_lst w" "(r, v) \<in> set (Accept_outcomes lid w)"
  shows "sound plan9 w (AAccept lid) [AAccepted lid r] v"
proof -
  from assms(3) obtain l where l: "(r, l) \<in> set (accept_outcomes (lsts w lid))"
    and v: "v = w\<lparr>lsts := (lsts w)(lid := l)\<rparr>" by (auto simp: Accept_outcomes_def)
  then have "l_closed l = l_closed (lsts w lid)" "reserved l = reserved (lsts w lid)"
    by (auto simp: accept_outcomes_def split: list.splits if_splits)
  with accept_net [OF live_invD(5) [OF assms(1)] assms(2,3)] accept_same [OF assms(3)] show ?thesis
    unfolding v by (intro sound_listeners [OF assms(1)]) auto
qed

lemma sound_mark:
  assumes "live_inv w" "lid < next_lst w" "(bs, v) \<in> set (act_step plan9 done_err (ACloseListener lid) w)"
  shows "sound plan9 w (ACloseListener lid) bs v"
proof (cases "l_closed (lsts w lid)")
  case True
  with assms show ?thesis by (intro sound_quiet) (auto simp: listener_mark_closed_def)
next
  case False
  with assms(3) have v: "v = w\<lparr>lsts := (lsts w)(lid := (lsts w lid)\<lparr>l_closed := True\<rparr>)\<rparr>" and bs: "bs = [ADelist lid, ADrain lid]"
    by (simp_all add: listener_mark_closed_def)
  show ?thesis
    unfolding v using bs assms(2) flag_net [OF live_invD(5) [OF assms(1)]]
    by (intro sound_listeners [OF assms(1)]) auto
qed

lemma sound_delist:
  assumes "live_inv w" "(bs, v) \<in> set (act_step plan9 done_err (ADelist lid) w)"
  shows "sound plan9 w (ADelist lid) bs v"
  using assms deregister_net [OF live_invD(5) [OF assms(1)]]
  by (intro sound_listeners [OF assms(1)]) (auto simp: deregister_def same_store_def)

lemma sound_drain:
  assumes inv: "live_inv w" and lid: "lid < next_lst w" "l_closed (lsts w lid)"
    and st: "(bs, v) \<in> set (act_step plan9 done_err (ADrain lid) w)"
  shows "sound plan9 w (ADrain lid) bs v"
proof (cases "incoming (lsts w lid)")
  case Nil
  with st inv show ?thesis by (intro sound_quiet) auto
next
  case (Cons c cs)
  let ?l = "(lsts w lid)\<lparr>incoming := cs\<rparr>"
  have v: "v = w\<lparr>lsts := (lsts w)(lid := ?l)\<rparr>" "bs = [AClose c, ADrain lid]" using st Cons by auto
  note li = net_listener [OF live_invD(5) [OF inv] lid(1)]
  have "net_inv False v"
    unfolding v(1) using li Cons
    by (intro net_inv_lst live_invD(5) [OF inv]) (auto simp: listener_inv_def)
  with lid li(2) [of c] Cons show ?thesis
    unfolding v by (intro sound_listeners [OF inv]) auto
qed

lemma sound_reserve:
  assumes inv: "live_inv w" and lid: "lid < next_lst w"
    and st: "(bs, v) \<in> set (act_step plan9 done_err (AReserve t lid) w)"
  shows "sound plan9 w (AReserve t lid) bs v"
proof -
  obtain e u where u: "dial_reserve lid w = (e, u)" by fastforce
  with st have d: "dial_reserve lid w = (e, v)" and bs: "bs = (case e of Some err \<Rightarrow> fail t err | None \<Rightarrow> [AOrdinal t lid])"
    by simp_all
  have net: "net_inv False v" "same_store v w"
    using dial_reserve_net [OF live_invD(5) [OF inv] lid] dial_reserve_same [of lid w] d by simp_all
  have v: "v = w\<lparr>lsts := (lsts w)(lid := snd (reserve (lsts w lid)))\<rparr>" "e = fst (reserve (lsts w lid))"
    using d by (auto simp: dial_reserve_def case_prod_beta)
  show ?thesis
  proof (rule sound_listeners [OF inv net(2,1)])
    show "next_lst w \<le> next_lst v" by (simp add: v(1))
    show "l_closed (lsts w j) \<Longrightarrow> l_closed (lsts v j)" for j by (auto simp: v(1) reserve_def)
    show "int (claims j bs) + reserved (lsts w j) \<le> int (claims j [AReserve t lid]) + reserved (lsts v j)" for j
      by (auto simp: v bs reserve_def fail_def)
    show "acts_ok plan9 v {} bs" using lid by (auto simp: bs fail_def v(1) split: option.split)
    show "next_lst w \<le> j \<Longrightarrow> claims j bs \<le> claims j [AReserve t lid]" for j
      using lid by (auto simp: bs fail_def split: option.split)
  qed simp
qed

lemma fail_simps [simp]: "acts_ok plan9 v D (fail t e)" "claims lid (fail t e) = 0"
  by (simp_all add: fail_def)

lemma sound_address:
  assumes inv: "live_inv w" and lid: "lid < next_lst w"
    and st: "(bs, v) \<in> set (act_step plan9 done_err (AAddress t lid ordinal) w)"
  shows "sound plan9 w (AAddress t lid ordinal) bs v"
proof -
  obtain r u where u: "dial_local_ip t ordinal lid w = (r, u)" by fastforce
  with st have d: "dial_local_ip t ordinal lid w = (r, v)"
    and bs: "bs = (case r of Inl e \<Rightarrow> fail t e | Inr i \<Rightarrow> [AWire t lid ordinal i])" by simp_all
  have q: "quiet w v" using quiet_dial(4) [of w t ordinal lid] d by simp
  then have "next_lst v = next_lst w" by (simp add: quiet_def)
  with lid show ?thesis
    by (intro sound_quiet [OF inv q]) (auto simp: bs split: sum.split)
qed

lemma sound_wire:
  assumes inv: "live_inv w" and lid: "lid < next_lst w"
    and st: "(bs, v) \<in> set (act_step plan9 done_err (AWire t lid ordinal i) w)"
  shows "sound plan9 w (AWire t lid ordinal i) bs v"
proof -
  obtain client server where d: "dial_wire t ordinal i lid w = ((client, server), v)"
    and bs: "bs = (if w_traceEnabled v
            then [ATrace ordinal sideDialer (writePipe (conns v client)),
                  ATrace ordinal sideAcceptor (writePipe (conns v server))] else [])
           @ [AFill lid server, AResult (Dialed client)]"
    using st by (auto split: prod.splits)
  note eff = dial_wire_effect [OF live_invD(1) [OF inv] d]
  have ok: "acts_ok plan9 v {} bs" using lid by (simp add: bs eff(2,6,9))
  have cl: "claims j bs = claims j [AWire t lid ordinal i]" for j by (simp add: bs)
  show ?thesis
    by (rule sound_store [OF dial_wire_live [OF inv d] eff(8) ok]) (simp_all add: cl)
qed

lemma sound_fill:
  assumes inv: "live_inv w" and lid: "lid < next_lst w" and c: "c < next_conn w"
    and claimed: "0 < reserved (lsts w lid)"
    and st: "(bs, v) \<in> set (act_step plan9 done_err (AFill lid c) w)"
  shows "sound plan9 w (AFill lid c) bs v"
proof -
  obtain cs l where f: "fill c (lsts w lid) = Some (cs, l)"
    using st by (cases "fill c (lsts w lid)") auto
  with st have v: "v = w\<lparr>lsts := (lsts w)(lid := l)\<rparr>" and bs: "bs = map AClose cs" by simp_all
  have l: "l_closed l = l_closed (lsts w lid)" "l_addr l = l_addr (lsts w lid)" "reserved l = reserved (lsts w lid) - 1"
    "set (incoming l) \<subseteq> insert c (set (incoming (lsts w lid)))" "set cs \<subseteq> {c}"
    using f by (auto simp: fill_def Let_def split: if_splits)
  have "l_step (LFill c) (lsts w lid) = Some l" using f claimed by simp
  with net_listener(1) [OF live_invD(5) [OF inv] lid] have "listener_inv l" by (rule l_step_inv)
  then have "net_inv False v"
    unfolding v using l c net_listener(2) [OF live_invD(5) [OF inv] lid]
    by (intro net_inv_lst live_invD(5) [OF inv]) auto
  moreover have "claims j bs = 0" for j unfolding bs by (rule claims_map) simp
  moreover have "acts_ok plan9 u {} bs" if "c < next_conn u" for u
    using l(5) that unfolding bs by (induction cs) auto
  ultimately show ?thesis
    unfolding v using l c by (intro sound_listeners [OF inv]) auto
qed

section \<open>The invariant of the system\<close>

lemma gate_bodies:
  assumes "(bs, v) \<in> set (act_step plan9 done_err (AGate t pc) w)"
  shows "v = w \<and> (bs = [ALookup t] \<or> (\<exists>e. bs = [AResult (DialFailed e)])
       \<or> (\<exists>pc'. bs = [AGate t pc'] \<and> (pc' = GateCheck \<or> (\<exists>ch. pc' = GateWait ch))))"
proof -
  from assms obtain pc' where "v = w" and bs: "bs = (case pc' of
                   GatePassed \<Rightarrow> [ALookup t] | GateFailed e \<Rightarrow> [AResult (DialFailed e)] | _ \<Rightarrow> [AGate t pc'])"
    by auto
  then show ?thesis by (cases pc') simp_all
qed

lemma act_sound:
  assumes inv: "live_inv w" and ok: "act_ok plan9 w {} a" and claimed: "\<And>lid. slot a = Some lid \<Longrightarrow> 0 < reserved (lsts w lid)"
    and st: "(bs, v) \<in> set (act_step plan9 done_err a w)"
  shows "sound plan9 w a bs v"
proof (cases a)
  case (ARead len c pc)
  with inv ok st show ?thesis using sound_read by blast
next
  case (AWrite data c pc)
  with inv ok st show ?thesis using sound_write by blast
next
  case (AClose c)
  with inv ok st show ?thesis using sound_close by blast
next
  case (ADeregister c)
  with inv ok st show ?thesis using sound_deregister by blast
next
  case (ACloseWrite c)
  with inv ok st show ?thesis using sound_pipes(1) by blast
next
  case (AAbortRead c)
  with inv ok st show ?thesis using sound_pipes(2) by blast
next
  case (AAbortW c)
  with inv ok st show ?thesis using sound_pipes(3) by blast
next
  case (AAbortR c)
  with inv ok st show ?thesis using sound_pipes(4) by blast
next
  case (AStopRead c)
  with inv st show ?thesis by (auto intro!: sound_conn conn_opError_eqI)
next
  case (AStopWrite c)
  with inv st show ?thesis by (auto intro!: sound_conn conn_opError_eqI)
next
  case (ASetRd t c)
  with inv st show ?thesis by (auto intro!: sound_conn conn_opError_eqI)
next
  case (ASetWd t c)
  with inv st show ?thesis by (auto intro!: sound_conn conn_opError_eqI)
next
  case (ASetDeadline t c)
  with inv st show ?thesis by (intro sound_quiet) (auto split: if_splits)
next
  case (ASetReadDeadline t c)
  with inv st show ?thesis by (intro sound_quiet) (auto split: if_splits)
next
  case (ASetWriteDeadline t c)
  with inv st show ?thesis by (intro sound_quiet) (auto split: if_splits)
next
  case (APair op x y)
  with st quiet_canonical [of w "peerName x"] show ?thesis
    by (intro sound_quiet [OF inv]) (auto simp: case_prod_beta split: option.splits)
next
  case (APair2 op x y)
  with st quiet_canonical [of w "peerName y"] show ?thesis
    by (intro sound_quiet [OF inv]) (auto simp: case_prod_beta)
next
  case (APair3 op k)
  show ?thesis
  proof (cases op)
    case OpReset
    with APair3 st sound_take [OF inv, of plan9 k] show ?thesis by simp
  qed (use APair3 st in \<open>auto intro!: sound_quiet [OF inv]\<close>)
next
  case (ASignal c)
  with inv st have v: "v = upd_conn c (\<lambda>cn. cn\<lparr>c_reset := True\<rparr>) w" "bs = []" by (auto simp: signalReset_def)
  show ?thesis unfolding v ASignal using inv
    by (intro sound_conn) (auto simp: conn_down_def intro: conn_opError_eqI)
next
  case (ASetLatency x y)
  with st have "(bs, v) \<in> set (from_panic w (SetLatency x y w))" by simp
  from quiet_setters(1) [OF from_panic_single [OF this]] show ?thesis
    by (intro sound_quiet [OF inv]) (auto simp: ASetLatency)
next
  case (ASetLoss x)
  with st have "(bs, v) \<in> set (from_panic w (SetPacketLoss x w))" by simp
  from quiet_setters(2) [OF from_panic_single [OF this]] show ?thesis
    by (intro sound_quiet [OF inv]) (auto simp: ASetLoss)
next
  case (ASetDuplication x)
  with st have "(bs, v) \<in> set (from_panic w (SetDuplication x w))" by simp
  from quiet_setters(3) [OF from_panic_single [OF this]] show ?thesis
    by (intro sound_quiet [OF inv]) (auto simp: ASetDuplication)
next
  case (ASetCorruption x)
  with st have "(bs, v) \<in> set (from_panic w (SetCorruption x w))" by simp
  from quiet_setters(4) [OF from_panic_single [OF this]] show ?thesis
    by (intro sound_quiet [OF inv]) (auto simp: ASetCorruption)
next
  case (AListen network laddr)
  with st sound_listen [OF inv] show ?thesis by simp
next
  case (AAccept lid)
  with ok st sound_accept [OF inv, of lid] show ?thesis by auto
next
  case (ACloseListener lid)
  with ok st sound_mark [OF inv] show ?thesis by simp
next
  case (ADelist lid)
  with st sound_delist [OF inv] show ?thesis by simp
next
  case (ADrain lid)
  with ok st sound_drain [OF inv] show ?thesis by simp
next
  case (ADial ctx network x)
  with st quiet_dial(1) [of w ctx network x] show ?thesis
    by (intro sound_quiet [OF inv]) (auto simp: case_prod_beta split: sum.splits)
next
  case (ASelf ctx t)
  with st quiet_dial(2) [of w ctx t] show ?thesis
    by (intro sound_quiet [OF inv]) (auto simp: case_prod_beta)
next
  case (AGate t pc)
  with st gate_bodies have "v = w" "bs = [ALookup t] \<or> (\<exists>e. bs = [AResult (DialFailed e)])
       \<or> (\<exists>pc'. bs = [AGate t pc'] \<and> (pc' = GateCheck \<or> (\<exists>ch. pc' = GateWait ch)))"
    by blast+
  with AGate show ?thesis by (intro sound_quiet [OF inv]) auto
next
  case (ALookup t)
  have "dial_lookup t w = Some lid \<Longrightarrow> lid < next_lst w" for lid
    using lookup_registered [of False w t lid] live_invD(5) [OF inv] by (simp add: net_inv_def)
  with ALookup st show ?thesis by (intro sound_quiet [OF inv]) (auto split: option.split)
next
  case (AReserve t lid)
  with ok st sound_reserve [OF inv] show ?thesis by simp
next
  case (AOrdinal t lid)
  with ok st quiet_dial(3) [of w] show ?thesis
    by (intro sound_quiet [OF inv]) (auto simp: dial_ordinal_def)
next
  case (AAddress t lid ordinal)
  with ok st sound_address [OF inv] show ?thesis by simp
next
  case (AWire t lid ordinal i)
  with ok st sound_wire [OF inv] show ?thesis by simp
next
  case (ATrace ordinal side rec)
  with st show ?thesis by (intro sound_quiet [OF inv]) auto
next
  case (AFill lid c)
  with ok st sound_fill [OF inv] claimed show ?thesis by simp
qed (use st in simp_all)

definition conf_inv :: "bool \<Rightarrow> conf \<Rightarrow> bool" where
  "conf_inv plan9 s \<longleftrightarrow>
     (case s of (w, ts) \<Rightarrow> live_inv w \<and> (\<forall>as \<in> set ts. acts_ok plan9 w {} as)
        \<and> (\<forall>lid < next_lst w. int (sum_list (map (claims lid) ts)) \<le> reserved (lsts w lid)))"

lemma no_claims: "acts_ok plan9 w D as \<Longrightarrow> next_lst w \<le> lid \<Longrightarrow> claims lid as = 0"
proof (induction as arbitrary: D)
  case (Cons a as)
  then have "slot a \<noteq> Some lid" by (cases a) auto
  with Cons show ?case by auto
qed simp

lemma claim_counted:
  assumes "as \<in> set ts" "int (sum_list (map (claims lid) ts)) \<le> n"
  shows "int (claims lid as) \<le> n"
  using member_le_sum_list [of "claims lid as" "map (claims lid) ts"] assms by force

lemma sum_claims_upd:
  "i < length ts \<Longrightarrow> ts ! i = a # rest \<Longrightarrow>
     int (sum_list (map (claims lid) (ts[i := bs @ rest]))) =
       int (sum_list (map (claims lid) ts)) - int (claims lid [a]) + int (claims lid bs)"
proof (induction ts arbitrary: i)
  case (Cons t ts)
  then show ?case by (cases i) simp_all
qed simp

lemma conf_sound:
  assumes "conf_inv plan9 (w, ts)" "i < length ts" "ts ! i = a # rest" "(bs, v) \<in> set (act_step plan9 done_err a w)"
  shows "live_inv w" "acts_ok plan9 w {} (a # rest)" "sound plan9 w a bs v"
proof -
  from assms(1) have inv: "live_inv w" and oks: "\<And>as. as \<in> set ts \<Longrightarrow> acts_ok plan9 w {} as"
    and cl: "\<And>lid. lid < next_lst w \<Longrightarrow> int (sum_list (map (claims lid) ts)) \<le> reserved (lsts w lid)"
    by (auto simp: conf_inv_def)
  have mem: "a # rest \<in> set ts" using assms(2,3) nth_mem by metis
  have claimed: "0 < reserved (lsts w lid)" if "slot a = Some lid" for lid
  proof -
    have "lid < next_lst w" using no_claims [OF oks [OF mem], of lid] that by (cases "next_lst w \<le> lid") auto
    from claim_counted [OF mem cl [OF this]] that show ?thesis by simp
  qed
  show "live_inv w" "acts_ok plan9 w {} (a # rest)" using inv oks [OF mem] by simp_all
  then show "sound plan9 w a bs v" using act_sound [OF inv _ claimed assms(4)] by simp
qed

lemma conf_act:
  assumes "conf_inv plan9 (w, ts)" "i < length ts" "ts ! i = a # rest" "(bs, v) \<in> set (act_step plan9 done_err a w)"
  shows "conf_inv plan9 (v, ts[i := bs @ rest])"
proof -
  from assms(1) have oks: "\<And>as. as \<in> set ts \<Longrightarrow> acts_ok plan9 w {} as"
    and cl: "\<And>lid. lid < next_lst w \<Longrightarrow> int (sum_list (map (claims lid) ts)) \<le> reserved (lsts w lid)"
    by (auto simp: conf_inv_def)
  have mem: "a # rest \<in> set ts" using assms(2,3) nth_mem by metis
  note inv = conf_sound(1) [OF assms]
  have ok: "acts_ok plan9 w (signals a) rest" using conf_sound(2) [OF assms] by simp
  have s: "live_inv v" "grows w v" "acts_ok plan9 v {} bs" "\<And>c. c \<in> signals a \<Longrightarrow> conn_down (conns v c)"
    "\<And>lid. lid < next_lst w \<Longrightarrow> int (claims lid bs) + reserved (lsts w lid) \<le> int (claims lid [a]) + reserved (lsts v lid)"
    "\<And>lid. next_lst w \<le> lid \<Longrightarrow> claims lid bs \<le> claims lid [a]"
    using conf_sound(3) [OF assms] by (auto simp: sound_def)
  have "acts_ok plan9 v (\<Union>b \<in> set bs. signals b) rest"
    by (rule acts_ok_mono [OF ok s(2) live_invD(1) [OF inv]]) (use s(4) in blast)
  then have new: "acts_ok plan9 v {} (bs @ rest)" using s(3) by (simp add: acts_ok_append)
  have old: "acts_ok plan9 v {} as" if "as \<in> set ts" for as
    by (rule acts_ok_mono [OF oks [OF that] s(2) live_invD(1) [OF inv]]) simp
  have all: "acts_ok plan9 v {} as" if "as \<in> set (ts[i := bs @ rest])" for as
    using that new old set_update_subset_insert [of ts i "bs @ rest"] by blast
  have "int (sum_list (map (claims lid) (ts[i := bs @ rest]))) \<le> reserved (lsts v lid)" if "lid < next_lst v" for lid
  proof (cases "lid < next_lst w")
    case True
    with s(5) cl sum_claims_upd [OF assms(2,3), of lid bs] show ?thesis by fastforce
  next
    case False
    have "claims lid as = 0" if "as \<in> set ts" for as using no_claims [OF oks [OF that], of lid] False by simp
    then have z: "sum_list (map (claims lid) ts) = 0" by (simp add: sum_list_eq_0_iff)
    have "claims lid (a # rest) = 0" using no_claims [OF oks [OF mem], of lid] False by simp
    then have "claims lid bs = 0" using s(6) [of lid] False by simp
    then have "int (sum_list (map (claims lid) (ts[i := bs @ rest]))) \<le> 0"
      using sum_claims_upd [OF assms(2,3), of lid bs] unfolding z by linarith
    moreover have "0 \<le> reserved (lsts v lid)"
      using net_listener(1) [OF live_invD(5) [OF s(1)] that] by (simp add: listener_inv_def)
    ultimately show ?thesis by (rule order_trans)
  qed
  with s(1) all show ?thesis by (simp add: conf_inv_def)
qed


text \<open>A step that only changes the world, and what its invariant rests on.\<close>

lemma conf_env:
  assumes "conf_inv plan9 (w, ts)" "live_inv v" "grows w v" "lsts v = lsts w" "next_lst v = next_lst w"
  shows "conf_inv plan9 (v, ts)"
  using assms acts_ok_mono [OF _ assms(3), where D = "{}" and D' = "{}"] live_invD(1)
  by (auto simp: conf_inv_def)

lemma conf_call:
  assumes "conf_inv plan9 (w, ts)" "api_act w a"
  shows "conf_inv plan9 (w, ts @ [[a]])"
proof -
  have "slot a = None" using assms(2) by (cases "(w, a)" rule: api_act.cases) auto
  with assms api_ok [OF assms(2)] show ?thesis by (auto simp: conf_inv_def)
qed

lemma conf_timer:
  assumes "conf_inv plan9 (w, ts)" "i < next_pipe w"
  shows "conf_inv plan9 (upd_pipe i (releaseDueLatency (env_of w)) w, ts)"
proof (rule conf_env [OF assms(1)])
  have inv: "live_inv w" using assms(1) by (simp add: conf_inv_def)
  show "live_inv (upd_pipe i (releaseDueLatency (env_of w)) w)"
  proof (rule live_inv_pipe [OF inv])
    show "pipe_inv (releaseDueLatency (env_of w) (pipes w i))"
      using inv assms(2) by (intro release_inv) (simp add: live_inv_def)
    show "p_closed (releaseDueLatency (env_of w) (pipes w i)) = p_closed (pipes w i)"
      "readClosed (releaseDueLatency (env_of w) (pipes w i)) = readClosed (pipes w i)"
      by (simp_all add: releaseDueLatency_def Let_def)
  qed
qed simp_all

lemma conf_conn:
  assumes "conf_inv plan9 (w, ts)" "\<And>cn. writePipe (f cn) = writePipe cn" "\<And>cn. readPipe (f cn) = readPipe cn"
    "\<And>cn. c_closed cn \<Longrightarrow> c_closed (f cn)" "\<And>cn. c_reset cn \<Longrightarrow> c_reset (f cn)"
    "\<And>cn. conn_opError (f cn) = conn_opError cn"
  shows "conf_inv plan9 (upd_conn c f w, ts)"
proof (rule conf_env [OF assms(1)])
  have inv: "live_inv w" using assms(1) by (simp add: conf_inv_def)
  show "live_inv (upd_conn c f w)" using assms(2-5) by (intro live_inv_conn [OF inv]) simp_all
  show "grows w (upd_conn c f w)" using assms(4-6) by (intro grows_conn) simp_all
qed simp_all

lemma conf_step_inv: "conf_step plan9 s t \<Longrightarrow> conf_inv plan9 s \<Longrightarrow> conf_inv plan9 t"
proof (induction rule: conf_step.induct)
  case (cs_call w a ts)
  then show ?case by (blast intro: conf_call)
next
  case (cs_act i ts a rest bs v done_err w)
  then show ?case by (blast intro: conf_act)
next
  case (cs_tick w t ts)
  then have "live_inv w" by (simp add: conf_inv_def)
  from quiet_live [OF quiet_upd(3) this, of t] show ?case
    by (intro conf_env [OF cs_tick(2)]) simp_all
next
  case (cs_timer i w ts)
  then show ?case by (blast intro: conf_timer)
next
  case (cs_fire_read w c ts)
  then show ?case by (intro conf_conn) (auto intro: conn_opError_eqI)
next
  case (cs_fire_write w c ts)
  then show ?case by (intro conf_conn) (auto intro: conn_opError_eqI)
qed

lemma static_store: "same_store (fold addStaticPartition ps w) w"
proof (induction ps arbitrary: w)
  case (Cons pp ps)
  have "same_store (addStaticPartition pp w) w"
    using same_store_trans [OF same_store_upd(3) resolvePair_net(2)]
    by (simp add: addStaticPartition_def Let_def case_prod_beta)
  with Cons.IH [of "addStaticPartition pp w"] show ?case using same_store_trans by simp
qed simp

lemma init_live:
  assumes "world_init w"
  shows "live_inv w"
proof -
  from assms obtain now opts where new: "NewNetwork now opts = Inr w" by (auto simp: world_init_def)
  then obtain cfg where "w = fold addStaticPartition (staticPartitions cfg) (emptyWorld now cfg)"
    by (auto simp: NewNetwork_def split: sum.splits option.splits)
  then have "same_store w (emptyWorld now cfg)" by (simp add: static_store)
  then have "next_conn w = 0" "next_pipe w = 0" "resetTargets w = (\<lambda>_. [])"
    by (simp_all add: same_store_def emptyWorld_def)
  moreover have "net_inv False w" by (rule net_inv_weak [OF world_invD(2) [OF NewNetwork_inv [OF new]]])
  ultimately show ?thesis by (simp add: live_inv_def wired_def live_registry_def)
qed

interpretation concurrent: invariant_system conf_init "conf_step plan9" "conf_inv plan9" for plan9
proof
  show "conf_init s \<Longrightarrow> conf_inv plan9 s" for s
    using init_live net_listener(1) [of False "fst s"] live_invD(5) [of "fst s"]
    by (cases s) (auto simp: conf_init_def conf_inv_def listener_inv_def)
  show "conf_inv plan9 s \<Longrightarrow> conf_step plan9 s t \<Longrightarrow> conf_inv plan9 t" for s t
    by (rule conf_step_inv)
qed

end
