(* ===== verification/Concurrent.thy ===== *)
theory Concurrent
  imports ThreadsInv Examples
begin

text \<open>
  What holds of a network in every interleaving of its calls: what reads and writes report, what
  can be held up and by what, and that an operation nothing interferes with is the one step that
  \<open>Network\<close> and \<open>Conn\<close> define.
\<close>

section \<open>One thread alone\<close>

text \<open>A thread that nothing interferes with, as long as each action has one outcome.\<close>

inductive solo :: "bool \<Rightarrow> act list \<times> world \<Rightarrow> act list \<times> world \<Rightarrow> bool" for plan9 :: bool where
  solo_stop: "solo plan9 s s"
| solo_act: "act_step plan9 None a w = [(bs, v)] \<Longrightarrow> solo plan9 (bs @ as, v) t \<Longrightarrow> solo plan9 (a # as, w) t"

lemma solo_trans: "solo plan9 s t \<Longrightarrow> solo plan9 t u \<Longrightarrow> solo plan9 s u"
  by (induction rule: solo.induct) (auto intro: solo.intros)

lemma solo_append: "solo plan9 s t \<Longrightarrow> solo plan9 (fst s @ as, snd s) (fst t @ as, snd t)"
proof (induction rule: solo.induct)
  case (solo_act a w bs v cs t)
  then show ?case using solo.solo_act [of plan9 a w bs v "cs @ as" "(fst t @ as, snd t)"] by simp
qed (simp add: solo_stop)

lemma solo_fold:
  assumes "\<And>x v. solo plan9 (f x, v) ([], g x v)"
  shows "solo plan9 (concat (map f xs), w) ([], fold g xs w)"
proof (induction xs arbitrary: w)
  case (Cons x xs)
  from solo_append [OF assms [of x w], of "concat (map f xs)"]
  have "solo plan9 (concat (map f (x # xs)), w) (concat (map f xs), g x w)" by simp
  then show ?case using Cons [of "g x w"] solo_trans by fastforce
qed (simp add: solo_stop)

lemma solo_one: "act_step plan9 None a w = [([], v)] \<Longrightarrow> solo plan9 ([a], w) ([], v)"
  using solo_act [of plan9 a w "[]" v "[]" "([], v)"] by (simp add: solo_stop)

lemma solo_cons: "act_step plan9 None a w = [([], v)] \<Longrightarrow> solo plan9 (as, v) t \<Longrightarrow> solo plan9 (a # as, w) t"
  using solo_act [of plan9 a w "[]" v as t] by simp

lemma solo_close: "solo plan9 ([AClose c], w) ([], conn_Close c w)"
proof (cases "c_closed (conns w c)")
  case True
  then show ?thesis by (intro solo_one) (simp add: conn_Close_closed)
next
  case False
  let ?w1 = "upd_conn c (\<lambda>cn. cn\<lparr>c_closed := True\<rparr>) w"
  let ?w2 = "if c_nw (conns ?w1 c) then deregisterReset (c_pair (conns ?w1 c)) c ?w1 else ?w1"
  let ?w3 = "upd_pipe (writePipe (conns ?w2 c)) close_pipe ?w2"
  let ?w4 = "upd_pipe (readPipe (conns ?w3 c)) abort ?w3"
  let ?w5 = "upd_conn c (\<lambda>cn. cn\<lparr>rd := deadline_stop (rd cn)\<rparr>) ?w4"
  let ?w6 = "upd_conn c (\<lambda>cn. cn\<lparr>wd := deadline_stop (wd cn)\<rparr>) ?w5"
  have "?w6 = conn_Close c w"
    using False by (simp add: conn_Close_def Let_def upd_conn_def)
  moreover have "solo plan9 ([AClose c], w) ([], ?w6)"
    by (rule solo_act [of plan9 _ _ "[ADeregister c, ACloseWrite c, AAbortRead c, AStopRead c, AStopWrite c]" ?w1])
      (simp add: False, simp only: append_Nil2 append.simps, (rule solo_cons, simp only: act_step.simps)+, rule solo_stop)
  ultimately show ?thesis by simp
qed


lemma solo_reset:
  assumes "Reset a b w = Inr w'"
  shows "solo plan9 ([APair OpReset a b], w) ([], w')"
proof -
  obtain ka w1 where ka: "canonicalPeer (peerName a) w = (ka, w1)" by fastforce
  obtain kb w2 where kb: "canonicalPeer (peerName b) w1 = (kb, w2)" by fastforce
  have val: "validatePartitionPair ''Reset'' \<lparr>peerA = a, peerB = b\<rparr> = None"
    and w': "w' = reset_pair (newPairKey ka kb) w2"
    using assms ka kb by (auto simp: Reset_def resolvePair_def Let_def split: option.splits)
  let ?k = "newPairKey ka kb" and ?w3 = "w2\<lparr>resetTargets := (resetTargets w2)(newPairKey ka kb := [])\<rparr>"
  let ?ts = "resetTargets w2 ?k"
  have "solo plan9 ([AAbortW c, AAbortR c], v) ([], abortReset c v)" for c v
    unfolding abortReset_def
    by (rule solo_act [where bs = "[]"], simp, simp only: append_Nil, rule solo_one) simp
  then have ab: "solo plan9 (concat (map (\<lambda>c. [AAbortW c, AAbortR c]) ?ts), v) ([], fold abortReset ?ts v)" for v
    by (rule solo_fold)
  have "solo plan9 ([ASignal c], v) ([], signalReset c v)" for c v by (rule solo_one) simp
  then have "solo plan9 (concat (map (\<lambda>c. [ASignal c]) ?ts), v) ([], fold signalReset ?ts v)" for v
    by (rule solo_fold)
  then have sg: "solo plan9 (map ASignal ?ts, v) ([], fold signalReset ?ts v)" for v by simp
  have "solo plan9 (reset_acts ?ts, ?w3) ([], w')"
    using solo_trans [OF solo_append [OF sg [of ?w3]]] ab
    by (simp add: reset_acts_def w' reset_pair_def Let_def)
  then have "solo plan9 ([APair3 OpReset ?k], w2) ([], w')"
    by (intro solo_act [where bs = "reset_acts ?ts" and v = ?w3]) simp_all
  then have "solo plan9 ([APair2 OpReset ka b], w1) ([], w')"
    by (intro solo_act [where bs = "[APair3 OpReset ?k]" and v = w2]) (simp_all add: kb)
  then show ?thesis
    by (intro solo_act [where bs = "[APair2 OpReset ka b]" and v = w1]) (simp_all add: ka pair_who_def val)
qed

lemma Close_lsts: "conn_Close c (w\<lparr>lsts := ls\<rparr>) = (conn_Close c w)\<lparr>lsts := ls\<rparr>"
  by (simp add: conn_Close_def Let_def upd_conn_def upd_pipe_def deregisterReset_def)

lemma solo_drain: "incoming (lsts w lid) = cs \<Longrightarrow> solo plan9 ([ADrain lid], w) ([], listener_Close_drain lid w)"
proof (induction cs arbitrary: w)
  case Nil
  have "w\<lparr>lsts := (lsts w)(lid := (lsts w lid)\<lparr>incoming := []\<rparr>)\<rparr> = w"
    using Nil by (cases "lsts w lid") (simp add: fun_upd_idem)
  with Nil show ?case by (intro solo_one) (simp add: listener_Close_drain_def listener_drain_def)
next
  case (Cons c cs)
  let ?w1 = "w\<lparr>lsts := (lsts w)(lid := (lsts w lid)\<lparr>incoming := cs\<rparr>)\<rparr>"
  have l: "lsts (conn_Close c ?w1) = lsts ?w1" using same_net_Close [of c ?w1] by (simp add: same_net_def)
  then have "solo plan9 ([ADrain lid], conn_Close c ?w1) ([], listener_Close_drain lid (conn_Close c ?w1))"
    by (intro Cons.IH) simp
  moreover have "listener_Close_drain lid (conn_Close c ?w1) = listener_Close_drain lid w"
    using Cons.prems l by (simp add: listener_Close_drain_def listener_drain_def Close_lsts)
  ultimately have "solo plan9 ([ADrain lid], conn_Close c ?w1) ([], listener_Close_drain lid w)" by simp
  with solo_append [OF solo_close [of plan9 c ?w1], of "[ADrain lid]"]
  have "solo plan9 ([AClose c, ADrain lid], ?w1) ([], listener_Close_drain lid w)"
    using solo_trans by fastforce
  with Cons.prems show ?case by (intro solo_act [where bs = "[AClose c, ADrain lid]" and v = ?w1]) simp_all
qed

lemma solo_listener_close: "solo plan9 ([ACloseListener lid], w) ([], listener_Close lid w)"
proof (cases "l_closed (lsts w lid)")
  case True
  then show ?thesis
    by (intro solo_one) (simp add: listener_Close_def listener_Close_mark_def listener_mark_closed_def)
next
  case False
  let ?v = "w\<lparr>lsts := (lsts w)(lid := (lsts w lid)\<lparr>l_closed := True\<rparr>)\<rparr>"
  have "listener_Close_mark lid w = (True, deregister (l_addr (lsts ?v lid)) ?v)"
    using False by (simp add: listener_Close_mark_def listener_mark_closed_def)
  then have c: "listener_Close_drain lid (deregister (l_addr (lsts ?v lid)) ?v) = listener_Close lid w"
    by (simp add: listener_Close_def)
  have "solo plan9 ([ADelist lid, ADrain lid], ?v) ([], listener_Close lid w)"
    using solo_drain [OF refl, of plan9 lid "deregister (l_addr (lsts ?v lid)) ?v"] unfolding c
    by (rule solo_cons [rotated]) simp
  with False show ?thesis
    by (intro solo_act [where bs = "[ADelist lid, ADrain lid]" and v = ?v]) (simp_all add: listener_mark_closed_def)
qed

lemma solo_establish:
  assumes inv: "world_inv w" and run: "dial_establish t w = Some (r, w')"
  shows "solo plan9 ([ALookup t], w) ([AResult r], w')"
  using run
proof (cases rule: dial_establish_cases)
  case refused
  then show ?thesis by (intro solo_act [where bs = "[AResult r]" and v = w]) (simp_all add: fail_def solo_stop)
next
  case (unreserved lid e)
  have "solo plan9 ([AReserve t lid], w) ([AResult r], w')"
    using unreserved by (intro solo_act [where bs = "[AResult r]" and v = w']) (simp_all add: fail_def solo_stop)
  with unreserved(1) show ?thesis by (intro solo_act [where bs = "[AReserve t lid]" and v = w]) simp_all
next
  case (no_ip lid w1 e)
  have "solo plan9 ([AAddress t lid (nextOrdinal w1)], snd (dial_ordinal w1)) ([AResult r], w')"
    using no_ip by (intro solo_act [where bs = "[AResult r]" and v = w']) (simp_all add: fail_def solo_stop)
  then have "solo plan9 ([AOrdinal t lid], w1) ([AResult r], w')"
    by (intro solo_act [where bs = "[AAddress t lid (nextOrdinal w1)]" and v = "snd (dial_ordinal w1)"])
      (simp_all add: dial_ordinal_def)
  with no_ip(2) have "solo plan9 ([AReserve t lid], w) ([AResult r], w')"
    by (intro solo_act [where bs = "[AOrdinal t lid]" and v = w1]) simp_all
  with no_ip(1) show ?thesis by (intro solo_act [where bs = "[AReserve t lid]" and v = w]) simp_all
next
  case (established lid w1 i w3 client server w4)
  let ?o = "nextOrdinal w1"
  note e = established_world [OF inv established(1-4)]
  obtain v where dw: "dial_wire t ?o i lid w3 = ((client, server), v)"
    and w4: "w4 = (if w_traceEnabled v
          then registerTrace ?o sideAcceptor (writePipe (conns v server))
                 (registerTrace ?o sideDialer (writePipe (conns v client)) v) else v)"
    using established(4) by (auto simp: dial_wire_connect split: prod.splits)
  have w': "w' = w4\<lparr>lsts := (lsts w)(lid := (lsts w lid)\<lparr>incoming := incoming (lsts w lid) @ [server]\<rparr>)\<rparr>"
    using e(1) established(5) by simp
  have opn: "\<not> l_closed (lsts w lid)" using dial_reserve_None [OF established(2)] by simp
  have fill: "fill server (lsts w4 lid) = Some ([], (lsts w lid)\<lparr>incoming := incoming (lsts w lid) @ [server]\<rparr>)"
    using dial_reserve_None [OF established(2)] world_listener(1) [OF inv e(3)]
    by (simp add: e(7) fill_def Let_def listener_inv_def)
  have l4: "lsts w4 = (lsts w)(lid := (lsts w lid)\<lparr>reserved := reserved (lsts w lid) + 1\<rparr>)" by (rule e(7))
  have "solo plan9 ([AFill lid server, AResult r], w4) ([AResult r], w')"
    using fill by (intro solo_act [where bs = "[]" and v = w']) (simp_all add: w' l4 solo_stop)
  then have "solo plan9 ((if w_traceEnabled v
            then [ATrace ?o sideDialer (writePipe (conns v client)),
                  ATrace ?o sideAcceptor (writePipe (conns v server))] else []) @ [AFill lid server, AResult r], v)
      ([AResult r], w')"
    by (cases "w_traceEnabled v") (simp_all add: w4 solo_cons)
  then have "solo plan9 ([AWire t lid ?o i], w3) ([AResult r], w')"
    using dw established(6) by (auto intro: solo_act)
  then have "solo plan9 ([AAddress t lid ?o], snd (dial_ordinal w1)) ([AResult r], w')"
    using established(3) by (intro solo_act [where bs = "[AWire t lid ?o i]" and v = w3]) simp_all
  then have "solo plan9 ([AOrdinal t lid], w1) ([AResult r], w')"
    by (intro solo_act [where bs = "[AAddress t lid ?o]" and v = "snd (dial_ordinal w1)"])
      (simp_all add: dial_ordinal_def)
  with established(2) have "solo plan9 ([AReserve t lid], w) ([AResult r], w')"
    by (intro solo_act [where bs = "[AOrdinal t lid]" and v = w1]) simp_all
  with established(1) show ?thesis by (intro solo_act [where bs = "[AReserve t lid]" and v = w]) simp_all
qed

lemma solo_dial:
  assumes inv: "world_inv w" and run: "DialContext ctx network a w = Some (r, w')" and ret: "\<And>ch. r \<noteq> DialWaits ch"
  shows "solo plan9 ([ADial ctx network a], w) ([AResult r], w')"
proof -
  obtain e w1 where d: "dial_resolve ctx network a w = (e, w1)" by fastforce
  show ?thesis
  proof (cases e)
    case (Inl err)
    with run d have "r = DialFailed err" "w' = w1" by (auto simp: DialContext_def dial_prepare_def)
    with d Inl show ?thesis by (intro solo_act [where bs = "[AResult r]" and v = w1]) (simp_all add: solo_stop)
  next
    case (Inr t)
    obtain t' w2 where s: "dial_self ctx t w1 = (t', w2)" by fastforce
    have p: "dial_prepare ctx network a w = (Inr t', w2)" by (simp add: dial_prepare_def d Inr s)
    have gate: "dial_gate t' w2 = None" "dial_establish t' w2 = Some (r, w')"
      using run ret by (auto simp: DialContext_def p split: option.splits)
    have "solo plan9 ([ALookup t'], w2) ([AResult r], w')"
      by (rule solo_establish [OF dial_prepare_inv [OF inv p] gate(2)])
    then have "solo plan9 ([AGate t' GateCheck], w2) ([AResult r], w')"
      by (intro solo_act [where bs = "[ALookup t']" and v = w2]) (simp_all add: gate)
    then have "solo plan9 ([ASelf ctx t], w1) ([AResult r], w')"
      by (intro solo_act [where bs = "[AGate t' GateCheck]" and v = w2]) (simp_all add: s)
    then show ?thesis by (intro solo_act [where bs = "[ASelf ctx t]" and v = w1]) (simp_all add: d Inr)
  qed
qed

section \<open>Properties\<close>

text \<open>
  C18. Run without interference, the sections of an operation do what the operation does in one
  step: \<open>conn.Close\<close>, \<open>listener.Close\<close>, \<open>Network.Reset\<close>, and a dial that does not wait at the
  partition gate, whether it is established or fails.
\<close>

theorem sections_compose:
  assumes "world_inv w" and "Reset a b w = Inr u"
    and "DialContext ctx network addr w = Some (r, v)" and "\<forall>ch. r \<noteq> DialWaits ch"
  shows "solo plan9 ([AClose c], w) ([], conn_Close c w)
    \<and> solo plan9 ([ACloseListener lid], w) ([], listener_Close lid w)
    \<and> solo plan9 ([APair OpReset a b], w) ([], u)
    \<and> solo plan9 ([ADial ctx network addr], w) ([AResult r], v)"
  using solo_close solo_listener_close solo_reset [OF assms(2)] solo_dial [OF assms(1,3)] assms(4) by blast

text \<open>A thread's steps are the system's.\<close>

lemma reach_act:
  assumes "reach conf_init (conf_step plan9) (w, ts @ [a # rest])" "(bs, v) \<in> set (act_step plan9 done_err a w)"
  shows "reach conf_init (conf_step plan9) (v, ts @ [bs @ rest])"
proof -
  have "conf_step plan9 (w, ts @ [a # rest]) (v, (ts @ [a # rest])[length ts := bs @ rest])"
    using assms(2) by (intro cs_act) auto
  with assms(1) show ?thesis using reach_step by fastforce
qed

lemma reach_solo:
  assumes "solo plan9 s t" "reach conf_init (conf_step plan9) (snd s, ts @ [fst s])"
  shows "reach conf_init (conf_step plan9) (snd t, ts @ [fst t])"
  using assms
proof (induction rule: solo.induct)
  case (solo_act a w bs v as t)
  from reach_act [OF solo_act.prems [simplified], of bs v None] solo_act.hyps(1) solo_act.IH
  show ?case by simp
qed

lemma reach_call:
  "reach conf_init (conf_step plan9) (w, ts) \<Longrightarrow> api_act w a \<Longrightarrow> reach conf_init (conf_step plan9) (w, ts @ [[a]])"
  by (blast intro: reach_step cs_call)

text \<open>
  C4. What \<open>Read\<close> and \<open>Write\<close> report, in every interleaving of reads, writes, closes, resets,
  dials, timers and the rest. The end of the stream and a broken pipe are reported only when the
  peer itself was closed: neither this end's own close, nor a reset that catches both ends one
  after the other, is ever mistaken for it. A closed-connection error means this end was closed, a
  connection reset that it was reset; the one other error is the deadline's.
\<close>

theorem errors_are_honest:
  assumes "reach conf_init (conf_step plan9) (w, ts)" and "as \<in> set ts"
  shows "(ARead len c (Returned out (Some err)) \<in> set as \<longrightarrow>
      err = EOF \<and> c_closed (conns w (peer_of c))
      \<or> err = conn_opError (conns w c) ''read'' NetErrClosed \<and> c_closed (conns w c)
      \<or> err = conn_opError (conns w c) ''read'' (errConnReset plan9) \<and> c_reset (conns w c)
      \<or> err = conn_opError (conns w c) ''read'' ErrDeadlineExceeded)
    \<and> (AWrite data c (Returned n (Some err)) \<in> set as \<longrightarrow>
      err = conn_opError (conns w c) ''write'' (errBrokenPipe plan9) \<and> c_closed (conns w (peer_of c))
      \<or> err = conn_opError (conns w c) ''write'' NetErrClosed \<and> c_closed (conns w c)
      \<or> err = conn_opError (conns w c) ''write'' (errConnReset plan9) \<and> c_reset (conns w c)
      \<or> err = conn_opError (conns w c) ''write'' ErrDeadlineExceeded)"
proof -
  have ok: "\<exists>D. act_ok plan9 w D a" if "acts_ok plan9 w E as" "a \<in> set as" for a E as
    using that by (induction as arbitrary: E) auto
  have "acts_ok plan9 w {} as"
    using concurrent.reach_inv [OF assms(1)] assms(2) by (simp add: conf_inv_def)
  from ok [OF this, of "ARead len c (Returned out (Some err))"]
    ok [OF this, of "AWrite data c (Returned n (Some err))"] show ?thesis by auto
qed

text \<open>
  C12. What an operation can be held up by, in every interleaving. A thread that cannot take its
  next action has returned; or it is a read or a write at its \<open>select\<close> with none of its channels
  closed; an accept on an open listener with an empty queue; or a dial into a partition that has
  not changed since it looked. Nothing else ever waits, in particular no dial on the accept queue
  of its listener, whose mutex it holds there; a write whose random draws never end is the one
  case left, and needs a generator that is stuck on rejected values.
\<close>

theorem only_waits_block:
  assumes "reach conf_init (conf_step plan9) (w, ts)" and "a # rest \<in> set ts" and "act_step plan9 done_err a w = []"
  shows "(\<exists>len c out err. a = ARead len c (Returned out err)) \<or> (\<exists>data c n err. a = AWrite data c (Returned n err))
    \<or> (\<exists>r. a = AResult r) \<or> (\<exists>lid r. a = AAccepted lid r)
    \<or> (\<exists>len c ch g. a = ARead len c (AtWait ch g) \<and> \<not> chan_ready (peer_of c) ch w
         \<and> \<not> chan_closed g (dl_gen (rd (conns w c))) \<and> \<not> conn_down (conns w c))
    \<or> (\<exists>data c ch g. a = AWrite data c (AtWait ch g) \<and> \<not> chan_ready c ch w
         \<and> \<not> chan_closed g (dl_gen (wd (conns w c))) \<and> \<not> conn_down (conns w c))
    \<or> (\<exists>data c g. a = AWrite data c (AtTry g) \<and> tryWrite (env_of w) data (pipes w c) = None)
    \<or> (\<exists>lid. a = AAccept lid \<and> incoming (lsts w lid) = [] \<and> \<not> l_closed (lsts w lid))
    \<or> (\<exists>t ch. a = AGate t (GateWait ch) \<and> \<not> chan_closed ch (partNotify (parts w)) \<and> done_err = None)"
proof -
  have conf: "conf_inv plan9 (w, ts)" by (rule concurrent.reach_inv [OF assms(1)])
  then have inv: "live_inv w" and oks: "acts_ok plan9 w {} (a # rest)"
    and cl: "\<And>lid. lid < next_lst w \<Longrightarrow> int (sum_list (map (claims lid) ts)) \<le> reserved (lsts w lid)"
    using assms(2) by (auto simp: conf_inv_def)
  then have ok: "act_ok plan9 w {} a" by simp
  show ?thesis
  proof (cases a)
    case (ARead len c pc)
    then have i: "readPipe (conns w c) = peer_of c" using ok live_invD(8) [OF inv] by simp
    have "fst (read_step plan9 len c pc w) = pc"
      using assms(3) ARead by (auto simp: case_prod_beta split: if_splits)
    with ARead i ok show ?thesis
      by (cases pc) (auto simp: conn_down_def case_prod_beta Let_def split: if_splits attempt.splits option.splits)
  next
    case (AWrite data c pc)
    then have i: "writePipe (conns w c) = c" using ok live_invD(7) [OF inv] by simp
    have "write_step plan9 data c pc w = None \<or> (\<exists>v. write_step plan9 data c pc w = Some (pc, v))"
      using assms(3) AWrite by (auto split: option.splits prod.splits if_splits)
    with AWrite i show ?thesis
      by (cases pc) (auto simp: conn_down_def Let_def split: if_splits attempt.splits option.splits)
  next
    case (AFill lid c)
    have "lid < next_lst w" using ok AFill by simp
    from claim_counted [OF assms(2) cl [OF this]] AFill have "0 < reserved (lsts w lid)" by simp
    with fill_never_blocks [OF net_listener(1) [OF live_invD(5) [OF inv] \<open>lid < next_lst w\<close>], of c] AFill assms(3)
    show ?thesis by auto
  next
    case (AAccept lid)
    with assms(3) show ?thesis
      by (auto simp: Accept_outcomes_def accept_outcomes_def split: list.splits if_splits)
  next
    case (AGate t pc)
    with ok consider "pc = GateCheck" | ch where "pc = GateWait ch" by auto
    then show ?thesis using assms(3) AGate by cases (auto split: if_splits option.splits)
  qed (use assms(3) in \<open>auto simp: Let_def case_prod_beta from_panic_def split: if_splits option.splits sum.splits pair_op.splits list.splits\<close>)
qed

section \<open>Concrete runs\<close>

text \<open>A listener, a dial to it and the close of its acceptor end, each on a thread of its own.\<close>

lemma run_alone:
  assumes "reach conf_init (conf_step plan9) (w, ts)" "api_act w a" "solo plan9 ([a], w) (as, v)"
  shows "reach conf_init (conf_step plan9) (v, ts @ [as])"
  using reach_solo [OF assms(3), of ts] reach_call [OF assms(1,2)] by simp

lemma listening: "reach conf_init (conf_step plan9) (net1, [[]])"
proof -
  have "world_init net0" using net0_new by (auto simp: world_init_def)
  then have "reach conf_init (conf_step plan9) (net0, [])" by (intro reach_init) (simp add: conf_init_def)
  from run_alone [OF this, of "AListen ''tcp'' ''s:80''" "[]" net1] show ?thesis
    by (simp add: solo_one listen_s)
qed

definition served :: "world \<Rightarrow> bool" where
  "served v \<longleftrightarrow> DialContext backgroundCtx ''tcp'' ''s:80'' net1 = Some (Dialed 0, v) \<and> next_conn v = 2 \<and> next_lst v = 1
     \<and> (\<exists>la ra. conns v 0 = (newConn la ra ''tcp'' 0 sideDialer 1 0)\<lparr>c_nw := True, c_pair := dial_pair tgt 0\<rparr>)
     \<and> (\<exists>la ra. conns v 1 = (newConn la ra ''tcp'' 0 sideAcceptor 0 1)\<lparr>c_nw := True, c_pair := dial_pair tgt 0\<rparr>)
     \<and> pipes v 0 = dialed_pipe tgt 0 sideDialer net1 \<and> pipes v 1 = dialed_pipe tgt 0 sideAcceptor net1
     \<and> parts v = \<lparr>partitions = {}, partNotify = 0\<rparr> \<and> clock v = 0
     \<and> faults v = noFaults \<and> traces v = [(0, sideDialer, 0), (0, sideAcceptor, 1)]"

lemma served_conns:
  assumes "served v"
  shows "readPipe (conns v 0) = 1" "\<not> c_closed (conns v 0)" "\<not> c_reset (conns v 0)" "rd (conns v 0) = newDeadline"
    "readPipe (conns v 1) = 0" "writePipe (conns v 1) = 1" "\<not> c_closed (conns v 1)" "c_nw (conns v 1)"
  using assms by (auto simp: served_def newConn_def)

lemma fresh_pipe:
  "readable (dialed_pipe t o' sd w) = []" "pending (dialed_pipe t o' sd w) = []"
  "\<not> p_closed (dialed_pipe t o' sd w)" "\<not> readClosed (dialed_pipe t o' sd w)" "\<not> eofSeen (dialed_pipe t o' sd w)"
  "notify (dialed_pipe t o' sd w) = 0"
  by (simp_all add: dialed_pipe_def installFaultPolicy_def directionPipe_def newPipe_def)

lemma dialed: "\<exists>v. served v \<and> reach conf_init (conf_step plan9) (v, [[], [AResult (Dialed 0)]])"
proof -
  obtain v where v: "served v" using dialed_world unfolding served_def by blast
  then have d: "DialContext backgroundCtx ''tcp'' ''s:80'' net1 = Some (Dialed 0, v)" by (simp add: served_def)
  have "solo plan9 ([ADial backgroundCtx ''tcp'' ''s:80''], net1) ([AResult (Dialed 0)], v)"
    by (rule solo_dial [OF net1_inv d]) simp
  from run_alone [OF listening _ this] v show ?thesis by fastforce
qed

text \<open>A read that finds its pipe empty comes to its \<open>select\<close>; one whose peer has closed, to the end.\<close>

lemma solo_reading:
  "read_step plan9 len c pc w = (pc', v) \<Longrightarrow> pc' \<noteq> pc \<Longrightarrow> solo plan9 ([ARead len c pc'], v) t \<Longrightarrow>
     solo plan9 ([ARead len c pc], w) t"
  by (intro solo_act [where bs = "[ARead len c pc']" and v = v]) auto

lemma read_to_try:
  assumes "\<not> c_closed (conns w c)" "\<not> c_reset (conns w c)" "rd (conns w c) = newDeadline"
    "solo plan9 ([ARead len c (AtTry 0)], w) t"
  shows "solo plan9 ([ARead len c AtClosed], w) t"
  by (intro solo_reading [of plan9 len c AtClosed w AtReset w] solo_reading [of plan9 len c AtReset w AtChannel w]
      solo_reading [of plan9 len c AtChannel w "AtExpired 0" w] solo_reading [of plan9 len c "AtExpired 0" w "AtTry 0" w])
    (simp_all add: assms newDeadline_def deadline_channel_def expired_def)

lemma read_to_wait:
  assumes "served v"
  shows "solo plan9 ([ARead len 0 AtClosed], v) ([ARead len 0 (AtWait (NotifyCh 0) 0)], v)"
proof -
  note f = served_conns [OF assms]
  have "tryRead e len (pipes v 1) = (Wait (NotifyCh 0), pipes v 1)" for e
    using assms by (simp add: served_def tryRead_def fresh_pipe)
  moreover have "upd_pipe 1 (\<lambda>_. pipes v 1) v = v" by (simp add: upd_pipe_def)
  ultimately have "solo plan9 ([ARead len 0 (AtTry 0)], v) ([ARead len 0 (AtWait (NotifyCh 0) 0)], v)"
    by (intro solo_reading [of plan9 len 0 "AtTry 0" v "AtWait (NotifyCh 0) 0" v]) (simp_all add: f solo_stop del: One_nat_def)
  then show ?thesis by (intro read_to_try) (simp_all add: f)
qed

lemma read_to_end:
  assumes "served v"
  shows "\<exists>u. solo plan9 ([ARead len 0 AtClosed], conn_Close 1 v) ([ARead len 0 (Returned [] (Some EOF))], u)"
proof -
  note f = served_conns [OF assms]
  let ?w = "conn_Close 1 v"
  have c: "\<not> c_closed (conns ?w 0)" "\<not> c_reset (conns ?w 0)" "rd (conns ?w 0) = newDeadline" "readPipe (conns ?w 0) = 1"
    "pipes ?w 1 = close_pipe (pipes v 1)" "parts ?w = parts v"
    by (simp_all add: conn_Close_def f Let_def deregisterReset_def upd_pipe_def upd_conn_def del: One_nat_def)
  have t: "tryRead (env_of ?w) len (pipes ?w 1) = (Done [] (Some EOF), (pipes ?w 1)\<lparr>eofSeen := True\<rparr>)"
    using assms unfolding c(5)
    by (simp add: c(6) served_def tryRead_def fresh_pipe close_pipe_def broadcastLocked_def
        checkPartition_def env_of_def Let_def del: One_nat_def)
  let ?u = "upd_pipe 1 (\<lambda>_. (pipes ?w 1)\<lparr>eofSeen := True\<rparr>) ?w"
  have "solo plan9 ([ARead len 0 (AtTry 0)], ?w) ([ARead len 0 (Returned [] (Some EOF))], ?u)"
    by (intro solo_reading [of plan9 len 0 "AtTry 0" ?w "AtPostClosed [] EOF" ?u]
        solo_reading [of plan9 len 0 "AtPostClosed [] EOF" ?u "AtPostReset [] EOF" ?u]
        solo_reading [of plan9 len 0 "AtPostReset [] EOF" ?u "Returned [] (Some EOF)" ?u])
      (simp_all add: c t [unfolded c(5)] solo_stop del: One_nat_def)
  from read_to_try [OF c(1,2,3) this] show ?thesis by blast
qed

theorem sections_compose_witness:
  "\<exists>u v. solo False ([APair OpReset ''a'' ''b''], net1) ([], u)
     \<and> solo False ([ADial backgroundCtx ''tcp'' ''s:80''], net1) ([AResult (Dialed 0)], v)"
proof -
  have "\<exists>u. Reset ''a'' ''b'' net1 = Inr u"
    by (simp add: Reset_def validatePartitionPair_def Let_def split: prod.splits)
  then obtain u where u: "Reset ''a'' ''b'' net1 = Inr u" by blast
  obtain v where v: "DialContext backgroundCtx ''tcp'' ''s:80'' net1 = Some (Dialed 0, v)"
    using dialed_world by blast
  from sections_compose [OF net1_inv u v, of False] show ?thesis by auto
qed

theorem errors_are_honest_witness:
  "\<exists>w. reach conf_init (conf_step False)
         (w, [[], [AResult (Dialed 0)], [], [ARead 5 0 (Returned [] (Some EOF))]]) \<and> c_closed (conns w 1)"
proof -
  obtain v where v: "served v" "reach conf_init (conf_step False) (v, [[], [AResult (Dialed 0)]])"
    using dialed by blast
  have n: "next_conn (conn_Close 1 v) = 2" "next_conn v = 2"
    using v(1) by (simp_all add: served_def conn_Close_def Let_def deregisterReset_def)
  from run_alone [OF v(2) _ solo_close [of False 1]] n
  have closed: "reach conf_init (conf_step False) (conn_Close 1 v, [[], [AResult (Dialed 0)], []])" by simp
  obtain u where "solo False ([ARead 5 0 AtClosed], conn_Close 1 v) ([ARead 5 0 (Returned [] (Some EOF))], u)"
    using read_to_end [OF v(1)] by blast
  from run_alone [OF closed _ this] n
  have r: "reach conf_init (conf_step False) (u, [[], [AResult (Dialed 0)], [], [ARead 5 0 (Returned [] (Some EOF))]])"
    by simp
  from errors_are_honest [OF r, of "[ARead 5 0 (Returned [] (Some EOF))]" 5 0 "[]" EOF] r show ?thesis
    by (auto simp: conn_opError_def peer_of_def)
qed

theorem only_waits_block_witness:
  "\<exists>v. reach conf_init (conf_step False) (v, [[], [AResult (Dialed 0)], [ARead 5 0 (AtWait (NotifyCh 0) 0)]])
     \<and> \<not> chan_ready 1 (NotifyCh 0) v \<and> \<not> conn_down (conns v 0)"
proof -
  obtain v where v: "served v" "reach conf_init (conf_step False) (v, [[], [AResult (Dialed 0)]])"
    using dialed by blast
  have n: "next_conn v = 2" using v(1) by (simp add: served_def)
  from run_alone [OF v(2) _ read_to_wait [OF v(1)], of 5] n
  have r: "reach conf_init (conf_step False) (v, [[], [AResult (Dialed 0)], [ARead 5 0 (AtWait (NotifyCh 0) 0)]])"
    by simp
  have "chan_ready 1 (NotifyCh 0) v = False"
    using v(1) by (simp add: served_def fresh_pipe chan_ready_def chan_closed_def)
  then have "act_step False None (ARead 5 0 (AtWait (NotifyCh 0) 0)) v = []"
    using served_conns [OF v(1)] by (simp add: newDeadline_def chan_closed_def del: One_nat_def)
  from only_waits_block [OF r _ this, of "[]"] r show ?thesis by (auto simp: peer_of_def)
qed

end
