(* ===== verification/Simulation.thy ===== *)
theory Simulation
  imports Concurrent
begin

text \<open>
  What happens to one direction in a network whose calls interleave is a run of the operations of
  \<open>Flow\<close> on a fresh pipe: everything \<open>Direction\<close> proves of such runs holds of the directions of
  a network. Most actions leave alone all that a direction was made with (\<open>calm\<close>).
\<close>

section \<open>Runs of a direction\<close>

text \<open>
  One moment after another: time does not go back, and the settings never turn the latency line
  off once it is on.
\<close>

definition line_open :: "env \<Rightarrow> bool" where
  "line_open e \<longleftrightarrow> latencyEnabled (env_faults e) \<or> bandwidthEnabled (env_faults e)"

definition earlier :: "env \<Rightarrow> env \<Rightarrow> bool" where
  "earlier e f \<longleftrightarrow> env_now e \<le> env_now f \<and> (line_open e \<longrightarrow> line_open f)"

lemma earlier_refl [simp]: "earlier e e"
  by (simp add: earlier_def)

lemma earlier_trans: "earlier e f \<Longrightarrow> earlier f g \<Longrightarrow> earlier e g"
  by (auto simp: earlier_def)

text \<open>From one pipe to another by operations between two moments, one after the other.\<close>

definition advances :: "env \<Rightarrow> env \<Rightarrow> pipe \<Rightarrow> pipe \<Rightarrow> bool" where
  "advances e f p q \<longleftrightarrow> (\<exists>ls. run_steps pipe_step ls p = Some q \<and> sorted_wrt earlier (map fst ls)
     \<and> (\<forall>l \<in> set ls. earlier e (fst l) \<and> earlier (fst l) f))"

lemma advances_refl [simp]: "advances e f p p"
  unfolding advances_def by (rule exI [of _ "[]"]) simp

lemma advances_step: "pipe_step (e, op) p = Some q \<Longrightarrow> advances e e p q"
  unfolding advances_def by (rule exI [of _ "[(e, op)]"]) simp

lemma advances_trans:
  assumes "advances e f p q" "advances f g q r" "earlier e f" "earlier f g"
  shows "advances e g p r"
proof -
  from assms(1) obtain ls where ls: "run_steps pipe_step ls p = Some q" "sorted_wrt earlier (map fst ls)"
    "\<forall>l \<in> set ls. earlier e (fst l) \<and> earlier (fst l) f" by (auto simp: advances_def)
  from assms(2) obtain ms where ms: "run_steps pipe_step ms q = Some r" "sorted_wrt earlier (map fst ms)"
    "\<forall>l \<in> set ms. earlier f (fst l) \<and> earlier (fst l) g" by (auto simp: advances_def)
  have "earlier x y" if "x \<in> set (map fst ls)" "y \<in> set (map fst ms)" for x y
  proof (rule earlier_trans)
    show "earlier x f" "earlier f y" using that ls(3) ms(3) by auto
  qed
  then have "sorted_wrt earlier (map fst (ls @ ms))" using ls(2) ms(2) by (simp add: sorted_wrt_append)
  moreover have "run_steps pipe_step (ls @ ms) p = Some r" using ls(1) ms(1) by (simp add: run_steps_append)
  moreover have "\<forall>l \<in> set (ls @ ms). earlier e (fst l) \<and> earlier (fst l) g"
    using ls(3) ms(3) earlier_trans [OF _ assms(4)] earlier_trans [OF assms(3)] by auto
  ultimately show ?thesis unfolding advances_def by blast
qed

text \<open>Whoever reads such a run in the middle finds every byte in its place, as long as it can.\<close>

lemma abort_seen:
  assumes "run_steps pipe_step ls p = Some q" "(e, OpAbort) \<in> set ls"
  shows "readClosed q"
proof -
  from assms(2) obtain xs ys where ls: "ls = xs @ (e, OpAbort) # ys" by (auto dest: split_list)
  with assms(1) obtain u where u: "run_steps pipe_step ys (abort u) = Some q"
    by (auto simp: run_steps_append split: option.splits)
  have keep: "pipe_step l x = Some y \<Longrightarrow> readClosed x \<Longrightarrow> readClosed y" for l x y
    by (cases "(l, x)" rule: pipe_step.cases)
      (auto simp: tryWrite_def tryRead_def releaseDueLatency_def close_pipe_def abort_def)
  show ?thesis
    by (rule run_steps_inv [OF u, where P = readClosed]) (use keep in \<open>auto simp: abort_def simp del: pipe_step.simps\<close>)
qed

section \<open>What most actions leave alone\<close>

text \<open>
  The connections there are and what was fixed when they were made, the directions traced, the
  next ordinal and the settings of the network that never change; every pipe moves by its own
  operations, and time does not go back.
\<close>

definition calm :: "world \<Rightarrow> world \<Rightarrow> bool" where
  "calm w v \<longleftrightarrow> next_conn v = next_conn w \<and> traces v = traces w \<and> nextOrdinal v = nextOrdinal w
     \<and> seed v = seed w \<and> w_pipeBound v = w_pipeBound w \<and> w_traceEnabled v = w_traceEnabled w
     \<and> (\<forall>c. c_ordinal (conns v c) = c_ordinal (conns w c) \<and> c_side (conns v c) = c_side (conns w c)
          \<and> c_pair (conns v c) = c_pair (conns w c))
     \<and> earlier (env_of w) (env_of v) \<and> (\<forall>i. advances (env_of w) (env_of v) (pipes w i) (pipes v i))"

lemma calm_refl [simp]: "calm w w"
  by (simp add: calm_def)

lemma calm_trans: "calm u v \<Longrightarrow> calm v w \<Longrightarrow> calm u w"
  unfolding calm_def using advances_trans earlier_trans by (simp, blast)

lemma calm_upd [simp]:
  "calm w (w\<lparr>book := bk\<rparr>)" "calm w (w\<lparr>parts := pt\<rparr>)"
  "calm w (w\<lparr>resetTargets := rt\<rparr>)" "calm w (w\<lparr>lsts := ls\<rparr>)" "calm w (w\<lparr>nextWildcard := nw\<rparr>)"
  "calm w (w\<lparr>nextListenPort := np\<rparr>)" "calm w (w\<lparr>listeners := lm\<rparr>)" "calm w (w\<lparr>next_lst := nl\<rparr>)"
  "calm w (signalReset c w)" "calm w (deregisterReset k c w)"
  by (simp_all add: calm_def env_of_def earlier_def line_open_def signalReset_def deregisterReset_def)

lemma calm_tick: "clock w \<le> t \<Longrightarrow> calm w (w\<lparr>clock := t\<rparr>)"
  by (simp add: calm_def env_of_def earlier_def line_open_def)

lemma calm_faults:
  "(latencyEnabled (faults w) \<longrightarrow> latencyEnabled fc) \<Longrightarrow> bandwidthEnabled fc = bandwidthEnabled (faults w) \<Longrightarrow>
     calm w (w\<lparr>faults := fc\<rparr>)"
  by (auto simp: calm_def env_of_def earlier_def line_open_def)

lemma calm_pipe: "pipe_step (env_of w, op) (pipes w i) = Some (f (pipes w i)) \<Longrightarrow> calm w (upd_pipe i f w)"
  using advances_step [of "env_of w" op "pipes w i" "f (pipes w i)"] by (simp add: calm_def env_of_def)

lemma calm_pipe_op [simp]:
  "calm w (upd_pipe i (releaseDueLatency (env_of w)) w)" "calm w (upd_pipe i close_pipe w)" "calm w (upd_pipe i abort w)"
  by (rule calm_pipe [of _ OpTimer] calm_pipe [of _ OpClose] calm_pipe [of _ OpAbort], simp)+

lemma calm_conn:
  "c_ordinal (f (conns w c)) = c_ordinal (conns w c) \<Longrightarrow> c_side (f (conns w c)) = c_side (conns w c) \<Longrightarrow>
     c_pair (f (conns w c)) = c_pair (conns w c) \<Longrightarrow> calm w (upd_conn c f w)"
  by (simp add: calm_def env_of_def)

lemma calm_names: "calm w (snd (canonicalPeer h w))"
  by (simp add: canonicalPeer_def case_prod_beta)

lemma calm_read: "calm w (snd (read_step plan9 len c pc w))"
  by (cases pc)
    (auto simp: Let_def case_prod_beta intro!: calm_pipe [where op = "OpRead len"] split: attempt.split option.split)

lemma calm_write: "write_step plan9 data c pc w = Some (pc', v) \<Longrightarrow> calm w v"
  by (cases pc)
    (auto simp: Let_def intro!: calm_pipe [where op = "OpWrite data"] split: if_splits attempt.splits option.splits)

lemma calm_setters:
  "(bs, v) \<in> set (from_panic w (SetLatency dmin dmax w)) \<Longrightarrow> calm w v"
  "(bs, v) \<in> set (from_panic w (SetPacketLoss rate w)) \<Longrightarrow> calm w v"
  "(bs, v) \<in> set (from_panic w (SetDuplication rate w)) \<Longrightarrow> calm w v"
  "(bs, v) \<in> set (from_panic w (SetCorruption rate w)) \<Longrightarrow> calm w v"
proof -
  have gen: "calm w v" if "(bs, v) \<in> set (from_panic w (set_faults f w))"
    "\<And>fc. f (faults w) = Inr fc \<Longrightarrow>
       (latencyEnabled (faults w) \<longrightarrow> latencyEnabled fc) \<and> bandwidthEnabled fc = bandwidthEnabled (faults w)" for f
    using that by (cases "f (faults w)") (auto simp: set_faults_def from_panic_def intro!: calm_faults)
  note defs = set_latency_def set_packet_loss_def set_duplication_def set_corruption_def
  show "(bs, v) \<in> set (from_panic w (SetLatency dmin dmax w)) \<Longrightarrow> calm w v"
    "(bs, v) \<in> set (from_panic w (SetPacketLoss rate w)) \<Longrightarrow> calm w v"
    "(bs, v) \<in> set (from_panic w (SetDuplication rate w)) \<Longrightarrow> calm w v"
    "(bs, v) \<in> set (from_panic w (SetCorruption rate w)) \<Longrightarrow> calm w v"
    unfolding SetLatency_def SetPacketLoss_def SetDuplication_def SetCorruption_def
    by (erule gen, auto simp: defs split: option.splits)+
qed

lemma calm_dial:
  "calm w (snd (dial_resolve ctx network a w))" "calm w (snd (dial_self ctx t w))"
  "calm w (snd (dial_local_ip t ordinal lid w))"
  using calm_names
  by (auto simp: dial_resolve_def dial_self_def dial_local_ip_def Let_def case_prod_beta
      split: option.split sum.split)

lemma calm_listen: "calm w (snd (Listen network laddr w))"
proof -
  have at: "calm u (snd (listen_at network laddr pr p x u))" for pr p x u
    by (cases x) (auto simp: calm_def env_of_def listen_at_def register_listener_def Let_def case_prod_beta
        split: option.split sum.split)
  have named: "calm w (snd (listen_at network laddr pr p x (snd (canonicalPeer h u))))" if "calm w u" for pr p x h u
    using calm_trans [OF that calm_trans [OF calm_names at]] .
  show ?thesis
    by (simp add: Listen_def Let_def case_prod_beta named split: option.split sum.split)
qed

lemma calm_listeners:
  "calm w (deregister a w)" "calm w (snd (dial_reserve lid w))"
  "x \<in> set (Accept_outcomes lid w) \<Longrightarrow> calm w (snd x)"
  by (auto simp: deregister_def dial_reserve_def Accept_outcomes_def calm_def env_of_def case_prod_beta)

lemma calm_act:
  assumes "(bs, v) \<in> set (act_step plan9 done_err a w)"
    and "\<And>t lid. a \<noteq> AOrdinal t lid" "\<And>t lid ordinal i. a \<noteq> AWire t lid ordinal i"
    and "\<And>ordinal side r. a \<noteq> ATrace ordinal side r"
  shows "calm w v"
proof (cases a)
  case (ARead len c pc)
  with assms(1) calm_read [of w plan9 len c pc] show ?thesis by (auto simp: case_prod_beta split: if_splits)
next
  case (AWrite data c pc)
  with assms(1) obtain pc' where "write_step plan9 data c pc w = Some (pc', v)"
    by (cases "write_step plan9 data c pc w") (auto split: if_splits)
  then show ?thesis by (rule calm_write)
next
  case (APair op x y)
  with assms(1) calm_names show ?thesis by (auto simp: Let_def case_prod_beta split: option.splits)
next
  case (APair2 op x y)
  with assms(1) calm_names show ?thesis by (auto simp: Let_def case_prod_beta)
next
  case (AListen network laddr)
  with assms(1) calm_listen show ?thesis by simp
next
  case (AAccept lid)
  with assms(1) calm_listeners(3) show ?thesis by fastforce
next
  case (ADial ctx network x)
  with assms(1) calm_dial(1) show ?thesis by (auto simp: case_prod_beta)
next
  case (ASelf ctx t)
  with assms(1) calm_dial(2) show ?thesis by (auto simp: case_prod_beta)
next
  case (AAddress t lid ordinal)
  with assms(1) calm_dial(3) show ?thesis by (auto simp: case_prod_beta)
next
  case (AReserve t lid)
  with assms(1) calm_listeners(2) show ?thesis by (auto simp: case_prod_beta)
next
  case (ADelist lid)
  with assms(1) calm_listeners(1) show ?thesis by simp
next
  case (ACloseListener lid)
  with assms(1) show ?thesis by (auto simp: listener_mark_closed_def split: if_splits)
qed (use assms calm_setters in \<open>auto intro!: calm_conn split: if_splits list.splits option.splits pair_op.splits\<close>)


text \<open>Four kinds of action matter to ordinals.\<close>

lemma act_kinds:
  obtains (ordinal) t lid where "a = AOrdinal t lid" | (wire) t lid ordinal i where "a = AWire t lid ordinal i"
    | (trace) ordinal side r where "a = ATrace ordinal side r"
    | (other) "\<And>t lid. a \<noteq> AOrdinal t lid" "\<And>t lid ordinal i. a \<noteq> AWire t lid ordinal i"
      "\<And>ordinal side r. a \<noteq> ATrace ordinal side r"
proof (cases "(\<exists>t lid. a = AOrdinal t lid) \<or> (\<exists>t lid ordinal i. a = AWire t lid ordinal i)
    \<or> (\<exists>ordinal side r. a = ATrace ordinal side r)")
  case True
  then show ?thesis using ordinal wire trace by blast
next
  case False
  show ?thesis by (rule other) (use False in blast)+
qed

lemma wire_frame: "traces (snd (dial_wire t ordinal i lid w)) = traces w" "seed (snd (dial_wire t ordinal i lid w)) = seed w"
  "env_of (snd (dial_wire t ordinal i lid w)) = env_of w" "w_traceEnabled (snd (dial_wire t ordinal i lid w)) = w_traceEnabled w"
  by (simp_all add: env_of_def dial_wire_def newConnPairWithSeedAndTrace_def registerReset_def Let_def case_prod_beta)

lemma init_store: "world_init w \<Longrightarrow> next_conn w = 0 \<and> traces w = [] \<and> nextOrdinal w = 0"
proof -
  assume "world_init w"
  then obtain now opts where "NewNetwork now opts = Inr w" by (auto simp: world_init_def)
  then obtain cfg where "w = fold addStaticPartition (staticPartitions cfg) (emptyWorld now cfg)"
    by (auto simp: NewNetwork_def split: sum.splits option.splits)
  moreover have "calm u (addStaticPartition pp u)" for pp u
    using calm_trans [OF calm_trans [OF calm_names calm_names] calm_upd(2)]
    by (simp add: addStaticPartition_def resolvePair_def Let_def case_prod_beta)
  then have "calm u (fold addStaticPartition ps u)" for ps u
    by (induction ps arbitrary: u) (auto intro: calm_trans)
  ultimately have "calm (emptyWorld now cfg) w" by simp
  then show ?thesis by (simp add: calm_def emptyWorld_def)
qed

text \<open>A step of the system is an action, a call that starts, or one of the environment, which is calm.\<close>

lemma conf_step_kinds:
  assumes "conf_step plan9 (w, ts) s"
  obtains (act) i a rest bs v done_err where "i < length ts" "ts ! i = a # rest"
      "(bs, v) \<in> set (act_step plan9 done_err a w)" "s = (v, ts[i := bs @ rest])"
    | (call) a where "api_act w a" "s = (w, ts @ [[a]])"
    | (env) v where "calm w v" "s = (v, ts)"
  using assms
proof (cases rule: conf_step.cases)
  case (cs_timer i)
  moreover have "calm w (upd_pipe i (releaseDueLatency (env_of w)) w)" by simp
  ultimately show ?thesis using env by blast
next
  case (cs_fire_read c)
  moreover have "calm w (upd_conn c (\<lambda>cn. cn\<lparr>rd := deadline_fire (rd cn)\<rparr>) w)" by (rule calm_conn) simp_all
  ultimately show ?thesis using env by blast
next
  case (cs_fire_write c)
  moreover have "calm w (upd_conn c (\<lambda>cn. cn\<lparr>wd := deadline_fire (wd cn)\<rparr>) w)" by (rule calm_conn) simp_all
  ultimately show ?thesis using env by blast
qed (use act call env calm_tick in blast)+

section \<open>The directions of a network\<close>

text \<open>The pipe a connection writes to, as the dial made it.\<close>

definition fresh_direction :: "world \<Rightarrow> nat \<Rightarrow> pipe" where
  "fresh_direction w c =
     installFaultPolicy \<lparr>fp_network = True, fp_pair = c_pair (conns w c), fp_static = noFaults\<rparr>
       (directionPipe (w_pipeBound w) (seed w) (c_ordinal (conns w c)) (c_side (conns w c)) (w_traceEnabled w))"

definition lifted :: "world \<Rightarrow> bool" where
  "lifted w \<longleftrightarrow> (\<forall>c < next_conn w. \<exists>e. earlier e (env_of w) \<and> advances e (env_of w) (fresh_direction w c) (pipes w c))"

lemma fresh_direction_calm: "calm w v \<Longrightarrow> fresh_direction v c = fresh_direction w c"
  by (simp add: calm_def fresh_direction_def)

lemma lifted_calm:
  assumes "calm w v" "lifted w"
  shows "lifted v"
proof -
  have "\<exists>e. earlier e (env_of v) \<and> advances e (env_of v) (fresh_direction v c) (pipes v c)" if c: "c < next_conn v" for c
  proof -
    have c': "c < next_conn w" "earlier (env_of w) (env_of v)" "advances (env_of w) (env_of v) (pipes w c) (pipes v c)"
      using assms(1) c by (simp_all add: calm_def)
    then obtain e where e: "earlier e (env_of w)" "advances e (env_of w) (fresh_direction w c) (pipes w c)"
      using assms(2) by (auto simp: lifted_def)
    from advances_trans [OF e(2) c'(3) e(1) c'(2)] earlier_trans [OF e(1) c'(2)] show ?thesis
      by (auto simp: fresh_direction_calm [OF assms(1)])
  qed
  then show ?thesis by (simp add: lifted_def)
qed

lemma lifted_act:
  assumes "live_inv w" "lifted w" "(bs, v) \<in> set (act_step plan9 done_err a w)"
  shows "lifted v"
proof (cases a rule: act_kinds)
  case (wire t lid ordinal i)
  obtain client server u where dw: "dial_wire t ordinal i lid w = ((client, server), u)" by (metis surj_pair)
  note eff = dial_wire_effect [OF live_invD(1) [OF assms(1)] dw]
  have same: "seed u = seed w" "env_of u = env_of w" "w_traceEnabled u = w_traceEnabled w"
    using wire_frame(2-4) [of t ordinal i lid w] by (simp_all add: dw)
  have new: "pipes u client = fresh_direction u client" "pipes u server = fresh_direction u server"
    by (simp_all add: eff(4) eff(1,2,3) fresh_direction_def dialed_pipe_def dial_policy_def same eff(12) newConn_def)
  have old: "pipes u c = pipes w c" "fresh_direction u c = fresh_direction w c" if "c < next_conn w" for c
    using that by (simp_all add: eff(4) eff(1,2,3) fresh_direction_def same eff(12))
  have "\<exists>e. earlier e (env_of u) \<and> advances e (env_of u) (fresh_direction u c) (pipes u c)" if "c < next_conn u" for c
  proof (cases "c < next_conn w")
    case True
    with assms(2) show ?thesis by (simp add: lifted_def old same)
  next
    case False
    with that have "c = client \<or> c = server" by (auto simp: eff(1,2,6))
    then show ?thesis using new by (intro exI [of _ "env_of u"]) auto
  qed
  moreover have "v = u" using wire dw assms(3) by simp
  ultimately show ?thesis by (simp add: lifted_def)
next
  case other
  show ?thesis by (rule lifted_calm [OF calm_act [OF assms(3) other] assms(2)])
qed (use assms in \<open>simp_all add: lifted_def fresh_direction_def env_of_def dial_ordinal_def registerTrace_def\<close>)

lemma always_lifted: "reach conf_init (conf_step plan9) s \<Longrightarrow> lifted (fst s)"
proof (induction rule: reach.induct)
  case (reach_init s)
  then show ?case using init_store by (simp add: conf_init_def lifted_def)
next
  case (reach_step s t)
  obtain w ts where s: "s = (w, ts)" by fastforce
  have inv: "live_inv w" using concurrent.reach_inv [OF reach_step.hyps(1)] by (simp add: conf_inv_def s)
  from reach_step.hyps(2)[unfolded s] show ?case
  proof (cases rule: conf_step_kinds)
    case (act i a rest bs v done_err)
    with lifted_act [OF inv] reach_step.IH show ?thesis by (simp add: s)
  next
    case (env v)
    with lifted_calm [OF env(1)] reach_step.IH show ?thesis by (simp add: s)
  qed (use reach_step.IH in \<open>simp add: s\<close>)
qed

section \<open>Properties\<close>

text \<open>
  C2. The directions of a network are what the model of one direction says. In every interleaving,
  the pipe a connection writes to has come from the fresh pipe the dial made by operations of
  one direction, at instants that never go back, so every property of such runs holds of it. Its
  draws and the drawn part of its trace are those of the machine that starts with the streams of
  the seed, the ordinal and the side, and sees the accepted writes alone. And while its reading
  end is up, what was read from it followed by what is on its way is, in order, what the accepted
  writes put in, whatever the setters changed in between.
\<close>

theorem network_directions:
  assumes "reach conf_init (conf_step plan9) (w, ts)" and "c < next_conn w"
  shows "\<exists>ls. run_steps pipe_step ls (fresh_direction w c) = Some (pipes w (writePipe (conns w c)))
    \<and> sorted (map (env_now \<circ> fst) ls) \<and> (\<forall>l \<in> set ls. env_now (fst l) \<le> clock w)
    \<and> run_steps draw_unit (collect pipe_step draw_inputs ls (fresh_direction w c)) (draw_abs (fresh_direction w c))
        = Some (draw_abs (pipes w (writePipe (conns w c))))
    \<and> (\<not> conn_down (conns w (peer_of c)) \<longrightarrow>
        collect pipe_step bytes_written ls (fresh_direction w c)
          = collect pipe_step bytes_read ls (fresh_direction w c) @ in_flight (pipes w (writePipe (conns w c))))"
proof -
  let ?p = "fresh_direction w c"
  have inv: "live_inv w" using concurrent.reach_inv [OF assms(1)] by (simp add: conf_inv_def)
  then have wp: "writePipe (conns w c) = c" using live_invD(7) assms(2) by blast
  obtain ls e where run: "run_steps pipe_step ls ?p = Some (pipes w c)"
    and ord: "sorted_wrt earlier (map fst ls)" "\<forall>l \<in> set ls. earlier e (fst l) \<and> earlier (fst l) (env_of w)"
    using always_lifted [OF assms(1)] assms(2) unfolding lifted_def advances_def by fastforce
  have m: "sorted_wrt (\<lambda>k l. earlier (fst k) (fst l)) ls" using ord(1) by (simp add: sorted_wrt_map)
  have "sorted (map (env_now \<circ> fst) ls)"
    unfolding sorted_map by (rule sorted_wrt_mono_rel [OF _ m]) (simp add: earlier_def)
  moreover have "sorted (map (\<lambda>l. line_open (fst l)) ls)"
    unfolding sorted_map by (rule sorted_wrt_mono_rel [OF _ m]) (simp add: earlier_def)
  moreover have "line_on (deliver ?p) = line_open"
    by (rule ext) (simp add: fresh_direction_def installFaultPolicy_def line_on_def line_open_def current_config_def)
  moreover have "pending ?p = []" "in_flight ?p = []"
    by (simp_all add: fresh_direction_def installFaultPolicy_def directionPipe_def newPipe_def in_flight_def)
  moreover have "\<forall>l \<in> set ls. snd l \<noteq> OpAbort" if "\<not> conn_down (conns w (peer_of c))"
    using that abort_seen [OF run] live_invD(3) [OF inv assms(2)] by (auto simp: live_flags_def)
  moreover have "\<forall>l \<in> set ls. env_now (fst l) \<le> clock w"
    using ord(2) by (simp add: earlier_def env_of_def)
  ultimately show ?thesis
    using run pipe_draws.run_refines [OF run] pipe_fifo.run_fifo [of ls ?p, OF _ run]
    unfolding wp fifo_good_def by (intro exI [of _ ls]) simp
qed

theorem network_directions_witness:
  "\<exists>v ls. reach conf_init (conf_step False) (v, [[], [AResult (Dialed 0)]])
     \<and> run_steps pipe_step ls (fresh_direction v 1) = Some (pipes v 1)"
proof -
  obtain v where v: "served v" "reach conf_init (conf_step False) (v, [[], [AResult (Dialed 0)]])"
    using dialed by blast
  have "1 < next_conn v" using v(1) by (simp add: served_def)
  from network_directions [OF v(2) this] served_conns(6) [OF v(1)] v(2) show ?thesis by auto
qed

end
