(* ===== verification/Trace.thy ===== *)
theory Trace
  imports NetworkInv "HOL-Library.Multiset"
begin

text \<open>
  The public trace (\<open>trace.go\<close>): \<open>Network.Trace\<close> puts the recorders of all directions in the
  order of ordinal and side, whatever order they registered in.
\<close>

record FaultEvent =
  fe_Ordinal :: u64
  fe_Side :: connSide
  fe_Seq :: nat
  fe_Partitioned :: bool
  fe_Dropped :: bool
  fe_Duplicated :: bool
  fe_Corrupted :: bool
  fe_Delay :: duration
  fe_Serialization :: duration
  fe_Effective :: duration
  fe_Size :: nat
  fe_CorruptedByte :: nat
  fe_CorruptedBit :: nat

definition Side_String :: "connSide \<Rightarrow> string" where
  "Side_String s = (case s of sideDialer \<Rightarrow> ''dialer'' | sideAcceptor \<Rightarrow> ''acceptor'')"

definition publish :: "u64 \<Rightarrow> connSide \<Rightarrow> faultEvent \<Rightarrow> FaultEvent" where
  "publish ordinal side e =
     \<lparr>fe_Ordinal = ordinal, fe_Side = side, fe_Seq = ev_seq e, fe_Partitioned = ev_partitioned e,
      fe_Dropped = ev_dropped e, fe_Duplicated = ev_duplicated e, fe_Corrupted = ev_corrupted e,
      fe_Delay = ev_drawn e, fe_Serialization = ev_serialized e, fe_Effective = ev_effective e,
      fe_Size = ev_size e, fe_CorruptedByte = ev_corruptByte e, fe_CorruptedBit = ev_corruptBit e\<rparr>"

text \<open>A recorder is the trace field of its direction's pipe, which outlives the connection.\<close>

definition snapshot :: "world \<Rightarrow> nat \<Rightarrow> faultEvent list" where
  "snapshot w i = (case trace (pipes w i) of None \<Rightarrow> [] | Some evs \<Rightarrow> evs)"

definition handle_key :: "u64 \<times> connSide \<times> nat \<Rightarrow> u64 \<times> connSide" where
  "handle_key h = (fst h, fst (snd h))"

definition Network_Trace :: "world \<Rightarrow> FaultEvent list" where
  "Network_Trace w =
     (if \<not> w_traceEnabled w then []
      else concat (map (\<lambda>(ordinal, side, i). map (publish ordinal side) (snapshot w i))
                     (sort_key handle_key (traces w))))"

section \<open>Properties\<close>

definition event_key :: "FaultEvent \<Rightarrow> u64 \<times> connSide" where
  "event_key e = (fe_Ordinal e, fe_Side e)"

lemma event_key_publish [simp]: "event_key (publish o' sd e) = (o', sd)"
  by (simp add: event_key_def publish_def)

text \<open>The events of one direction, and of a list of directions.\<close>

definition handle_events :: "world \<Rightarrow> u64 \<times> connSide \<times> nat \<Rightarrow> FaultEvent list" where
  "handle_events w h = (case h of (ordinal, side, i) \<Rightarrow> map (publish ordinal side) (snapshot w i))"

lemma Network_Trace_eq:
  "Network_Trace w = (if w_traceEnabled w then concat (map (handle_events w) (sort_key handle_key (traces w))) else [])"
  by (simp add: Network_Trace_def handle_events_def [abs_def])

lemma handle_events_key: "e \<in> set (handle_events w h) \<Longrightarrow> event_key e = handle_key h"
  by (auto simp: handle_events_def handle_key_def split: prod.splits)

lemma sorted_events:
  "sorted (map handle_key hs) \<Longrightarrow> sorted (map event_key (concat (map (handle_events w) hs)))"
proof (induction hs)
  case (Cons h hs)
  have "map event_key (handle_events w h) = replicate (length (handle_events w h)) (handle_key h)"
    by (auto simp: map_replicate_const [symmetric] dest: handle_events_key)
  then have "sorted (map event_key (handle_events w h))" by simp
  moreover have "event_key e \<le> event_key e'"
    if "e \<in> set (handle_events w h)" "e' \<in> set (concat (map (handle_events w) hs))" for e e'
    using that Cons.prems by (auto dest!: handle_events_key)
  ultimately show ?case using Cons by (auto simp: sorted_append)
qed simp

lemma filter_events:
  "distinct (map handle_key hs) \<Longrightarrow> h \<in> set hs \<Longrightarrow>
     filter (\<lambda>e. event_key e = handle_key h) (concat (map (handle_events w) hs)) = handle_events w h"
proof (induction hs)
  case (Cons g gs)
  have none: "filter (\<lambda>e. event_key e = handle_key h) (concat (map (handle_events w) hs)) = []"
    if "\<forall>g \<in> set hs. handle_key g \<noteq> handle_key h" for hs
    using that by (auto simp: filter_empty_conv dest!: handle_events_key)
  have all: "filter (\<lambda>e. event_key e = handle_key h) (handle_events w h) = handle_events w h"
    by (auto simp: filter_id_conv dest: handle_events_key)
  show ?case
  proof (cases "h = g")
    case True
    have "\<forall>g' \<in> set gs. handle_key g' \<noteq> handle_key h" using Cons.prems True by (metis distinct.simps(2) image_eqI list.set_map list.simps(9))
    then show ?thesis using True all none [of gs] by simp
  next
    case False
    then have h: "h \<in> set gs" using Cons.prems by simp
    then have "handle_key g \<noteq> handle_key h" using Cons.prems by (metis distinct.simps(2) image_eqI list.set_map list.simps(9))
    with none [of "[g]"] Cons h show ?thesis by simp
  qed
qed simp

text \<open>
  C24. The public trace is in the order of ordinal and side, whatever order the directions
  registered in: two networks whose directions registered in different orders, but recorded the
  same, give the same trace. Each direction's part of it is its recorder's, complete and in its
  order.
\<close>

theorem trace_canonical:
  assumes "distinct (map handle_key (traces w))"
    and "mset (traces v) = mset (traces w)" "pipes v = pipes w" "w_traceEnabled v = w_traceEnabled w"
  shows "Network_Trace v = Network_Trace w \<and> sorted (map event_key (Network_Trace w))
    \<and> (w_traceEnabled w \<longrightarrow> (\<forall>(ordinal, side, i) \<in> set (traces w).
         filter (\<lambda>e. event_key e = (ordinal, side)) (Network_Trace w) = map (publish ordinal side) (snapshot w i)))"
proof -
  let ?s = "sort_key handle_key (traces w)"
  have sd: "sorted (map handle_key ?s)" by simp
  have dd: "distinct (map handle_key ?s)"
  proof -
    have "mset (map handle_key ?s) = mset (map handle_key (traces w))" by simp
    from mset_eq_imp_distinct_iff [OF this] assms(1) show ?thesis by simp
  qed
  have st: "set (traces v) = set (traces w)" by (rule mset_eq_setD [OF assms(2)])
  have ev: "handle_events v = handle_events w"
    by (simp add: handle_events_def fun_eq_iff snapshot_def assms(3) split: prod.split)
  have "sort_key handle_key (traces v) = ?s"
  proof (rule map_sorted_distinct_set_unique [where f = handle_key])
    show "inj_on handle_key (set (sort_key handle_key (traces v)) \<union> set ?s)"
      using assms(1) by (simp add: st distinct_map)
    show "distinct (map handle_key (sort_key handle_key (traces v)))"
    proof -
      have "mset (map handle_key (sort_key handle_key (traces v))) = mset (map handle_key (traces w))"
        by (simp add: assms(2))
      from mset_eq_imp_distinct_iff [OF this] assms(1) show ?thesis by simp
    qed
    show "distinct (map handle_key ?s)" by (rule dd)
    show "set (sort_key handle_key (traces v)) = set ?s" by (simp add: st)
  qed simp_all
  then have eq: "Network_Trace v = Network_Trace w" by (simp add: Network_Trace_eq ev assms(4))
  have sort: "sorted (map event_key (Network_Trace w))"
    using sorted_events [OF sd] by (simp add: Network_Trace_eq)
  have "filter (\<lambda>e. event_key e = (ordinal, side)) (Network_Trace w) = map (publish ordinal side) (snapshot w i)"
    if "(ordinal, side, i) \<in> set (traces w)" "w_traceEnabled w" for ordinal side i
    using filter_events [OF dd, of "(ordinal, side, i)" w] that
    by (simp add: Network_Trace_eq handle_events_def handle_key_def)
  with eq sort show ?thesis by blast
qed


text \<open>Two dials whose directions registered in the other order.\<close>

definition tracedWorld :: "(u64 \<times> connSide \<times> nat) list \<Rightarrow> world" where
  "tracedWorld hs =
     (emptyWorld 0 initialConfig)\<lparr>w_traceEnabled := True, traces := hs,
       pipes := (\<lambda>i. (newPipe 1)\<lparr>trace := Some [\<lparr>ev_seq = 0, ev_partitioned = False, ev_dropped = False,
         ev_duplicated = False, ev_corrupted = False, ev_drawn = 0, ev_serialized = 0, ev_effective = 0,
         ev_size = i, ev_corruptByte = 0, ev_corruptBit = 0\<rparr>]\<rparr>)\<rparr>"

theorem trace_canonical_witness:
  "Network_Trace (tracedWorld [(1, sideDialer, 4), (0, sideDialer, 2), (0, sideAcceptor, 3)])
     = Network_Trace (tracedWorld [(0, sideAcceptor, 3), (0, sideDialer, 2), (1, sideDialer, 4)])"
proof -
  let ?v = "tracedWorld [(1, sideDialer, 4), (0, sideDialer, 2), (0, sideAcceptor, 3)]"
  let ?w = "tracedWorld [(0, sideAcceptor, 3), (0, sideDialer, 2), (1, sideDialer, 4)]"
  have "distinct (map handle_key (traces ?w))" by (simp add: tracedWorld_def handle_key_def)
  moreover have "mset (traces ?v) = mset (traces ?w)" by (simp add: tracedWorld_def)
  moreover have "pipes ?v = pipes ?w" "w_traceEnabled ?v = w_traceEnabled ?w" by (simp_all add: tracedWorld_def)
  ultimately show ?thesis using trace_canonical [of ?w ?v] by blast
qed

end
