(* ===== verification/Streams.thy ===== *)
theory Streams
  imports Simulation Trace
begin

text \<open>
  The random streams of a network in which calls interleave: a draw stays within its stream,
  no action but the wiring of a dial makes a connection, and a ledger of ordinals shows that no
  two directions are ever keyed or traced under the same ordinal and side.
\<close>

section \<open>Where a draw comes from\<close>

text \<open>A draw moves a stream on; it stays the same stream.\<close>

lemma bounded_loop_src: "bounded_loop n thresh hi lo s = Some r \<Longrightarrow> src (snd r) = src s"
  by (erule bounded_loop.raw_induct [of "\<lambda>n thresh hi lo s r. src (snd r) = src s", rotated])
    (fastforce simp: stream_next_def case_prod_beta split: if_splits)

lemma bounded_src: "boundedUint64 n s = Some (v, s') \<Longrightarrow> src s' = src s"
  using bounded_loop_src by (fastforce simp: boundedUint64_def stream_next_def case_prod_beta split: if_splits)

lemma draws_src:
  "uniformDuration dmin dmax s = Some (d, s') \<Longrightarrow> src s' = src s"
  "corruptionSite n s = Some (site, s') \<Longrightarrow> src s' = src s"
  "src (snd (bernoulli rate s)) = src s"
  using bounded_src
  by (fastforce simp: uniformDuration_def corruptionSite_def Let_def split: bind_splits,
      fastforce simp: corruptionSite_def split: bind_splits, simp add: bernoulli_def stream_next_def)

lemma optional_draws_src:
  "draw_bernoulli en rate s = Some (b, s') \<Longrightarrow> map_option src s' = map_option src s"
  "draw_latency en dmin dmax s = Some (d, s') \<Longrightarrow> map_option src s' = map_option src s"
  using draws_src by (fastforce simp: draw_bernoulli_def draw_latency_def case_prod_beta split: if_splits option.splits)+

text \<open>The source of each of a direction's streams.\<close>

fun stream_of :: "faultKind \<Rightarrow> pipe \<Rightarrow> stream option" where
  "stream_of kindLoss p = loss p"
| "stream_of kindLatency p = latency p"
| "stream_of kindDuplicate p = duplicate p"
| "stream_of kindCorrupt p = corrupt p"

definition srcs :: "pipe \<Rightarrow> faultKind \<Rightarrow> (nat \<Rightarrow> u64) option" where
  "srcs p k = map_option src (stream_of k p)"

lemma srcs_eqI:
  "map_option src (loss q) = map_option src (loss p) \<Longrightarrow> map_option src (latency q) = map_option src (latency p) \<Longrightarrow>
   map_option src (duplicate q) = map_option src (duplicate p) \<Longrightarrow> map_option src (corrupt q) = map_option src (corrupt p) \<Longrightarrow>
   srcs q = srcs p"
proof (rule ext)
  fix k
  assume "map_option src (loss q) = map_option src (loss p)" "map_option src (latency q) = map_option src (latency p)"
    "map_option src (duplicate q) = map_option src (duplicate p)" "map_option src (corrupt q) = map_option src (corrupt p)"
  then show "srcs q k = srcs p k" by (cases k) (simp_all add: srcs_def)
qed

lemma srcs_frame [simp]:
  "srcs (broadcastLocked p) = srcs p" "srcs (record_event ev p) = srcs p"
  "srcs (armLatencyTimerLocked e p) = srcs p" "srcs (armLatencyForAppendLocked e p) = srcs p"
  "srcs (close_pipe p) = srcs p" "srcs (abort p) = srcs p" "srcs (passThroughDeliver data p) = srcs p"
  "srcs (releaseDueLatency e p) = srcs p" "srcs (snd (tryRead e len p)) = srcs p"
  "srcs (discard ev data p) = srcs p" "srcs (admit_readable dup data p) = srcs p"
  "srcs (admit_pending e dup data rel p) = srcs p"
  by (rule srcs_eqI; simp add: close_pipe_def abort_def passThroughDeliver_def releaseDueLatency_def tryRead_def
      discard_def admit_readable_def admit_pending_def Let_def case_prod_beta)+


lemma draw_decision_src:
  assumes "draw_decision cfg p = Some (d, q)"
  shows "srcs q = srcs p"
proof (rule srcs_eqI)
  from assms obtain dr l da la du ds co cs where d: "draw_bernoulli (lossEnabled cfg) (lossRate cfg) (loss p) = Some (dr, l)"
    "draw_latency (latencyEnabled cfg) (latencyMin cfg) (latencyMax cfg) (latency p) = Some (da, la)"
    "draw_bernoulli (duplicateEnabled cfg) (duplicateRate cfg) (duplicate p) = Some (du, ds)"
    "draw_bernoulli (corruptEnabled cfg) (corruptRate cfg) (corrupt p) = Some (co, cs)"
    and q: "q = p\<lparr>loss := l, latency := la, duplicate := ds, corrupt := cs\<rparr>"
    by (auto simp: draw_decision_def split: bind_splits prod.splits)
  from d show "map_option src (loss q) = map_option src (loss p)" "map_option src (latency q) = map_option src (latency p)"
    "map_option src (duplicate q) = map_option src (duplicate p)" "map_option src (corrupt q) = map_option src (corrupt p)"
    by (simp_all add: q optional_draws_src)
qed

lemma corrupt_unit_src: "corrupt_unit co data p = Some (r, q) \<Longrightarrow> srcs q = srcs p"
  by (rule srcs_eqI) (auto simp: corrupt_unit_def draws_src split: if_splits bind_splits prod.splits)

lemma throttle_src: "throttle cfg now len p = Some (r, q) \<Longrightarrow> srcs q = srcs p"
  by (rule srcs_eqI) (auto simp: throttle_def Let_def split: if_splits bind_splits)

lemma evaluate_src:
  assumes "evaluate fp e data p = Some q"
  shows "srcs q = srcs p"
  using assms corrupt_unit_src throttle_src draw_decision_src
  by (fastforce simp: evaluate_def transmit_def Let_def split: if_splits bind_splits prod.splits)

lemma write_src:
  assumes "tryWrite e data p = Some (r, q)"
  shows "srcs q = srcs p"
proof -
  have "srcs (charge data p) = srcs p" by (rule srcs_eqI) (simp_all add: charge_def)
  with assms evaluate_src [of _ e data "charge data p" q] show ?thesis
    by (auto simp: tryWrite_def run_deliver_def split: if_splits deliverFunc.splits)
qed

lemma step_src: "pipe_step l p = Some q \<Longrightarrow> srcs q = srcs p"
  by (cases "(l, p)" rule: pipe_step.cases) (auto simp: write_src)

lemma run_src: "run_steps pipe_step ls p = Some q \<Longrightarrow> srcs q = srcs p"
  by (erule run_steps_inv [where P = "\<lambda>u. srcs u = srcs p"]) (auto dest: step_src simp del: pipe_step.simps)

lemma srcs_fresh:
  "srcs (fresh_direction w c) k
     = Some (src (deriveStream (seed w) (unat (c_ordinal (conns w c))) (c_side (conns w c)) k))"
  by (cases k) (simp_all add: srcs_def fresh_direction_def directionPipe_def installFaultPolicy_def)

lemma distinct_count_le_one: "distinct xs \<longleftrightarrow> (\<forall>x. count (mset xs) x \<le> 1)"
proof
  show "distinct xs \<Longrightarrow> \<forall>x. count (mset xs) x \<le> 1" by (simp add: distinct_count_atmost_1)
  show "\<forall>x. count (mset xs) x \<le> 1 \<Longrightarrow> distinct xs"
  proof (induction xs)
    case (Cons y ys)
    have "count (mset ys) x \<le> count (mset (y # ys)) x" for x by simp
    then have "\<forall>x. count (mset ys) x \<le> 1" using Cons.prems order_trans by blast
    moreover have "count (mset (y # ys)) y \<le> 1" using Cons.prems by blast
    then have "y \<notin> set ys" using count_eq_zero_iff [of "mset ys" y] by simp
    ultimately show ?case using Cons.IH by simp
  qed simp
qed

section \<open>Ledgers of ordinals\<close>

text \<open>
  A ledger lists the pairs of an ordinal and a side that are used up, in the network and in the
  actions its threads still have to take. Taking an action never enters a pair twice, but for the
  two fresh ones of the ordinal it takes.
\<close>

type_synonym key = "u64 \<times> connSide"

definition both :: "u64 \<Rightarrow> key multiset" where
  "both ordinal = {#(ordinal, sideDialer), (ordinal, sideAcceptor)#}"

fun fresh :: "act \<Rightarrow> world \<Rightarrow> key multiset" where
  "fresh (AOrdinal t lid) w = both (nextOrdinal w)"
| "fresh a w = {#}"

definition held :: "(act \<Rightarrow> 'a multiset) \<Rightarrow> act list \<Rightarrow> 'a multiset" where
  "held f as = \<Sum>\<^sub># (image_mset f (mset as))"

lemma held_simps [simp]:
  "held f [] = {#}" "held f (a # as) = f a + held f as" "held f (as @ bs) = held f as + held f bs"
  by (simp_all add: held_def)

lemma held_map: "(\<And>x. f (g x) = {#}) \<Longrightarrow> held f (map g xs) = {#}"
  by (induction xs) simp_all

text \<open>The next ordinal moves with the fresh pairs and with nothing else.\<close>

lemma act_ordinal:
  assumes "(bs, v) \<in> set (act_step plan9 done_err a w)" "wired w"
  shows "fresh a w = {#} \<and> nextOrdinal v = nextOrdinal w
    \<or> fresh a w = both (nextOrdinal w) \<and> nextOrdinal v = nextOrdinal w + 1"
proof (cases a rule: act_kinds)
  case ordinal
  with assms(1) show ?thesis by (simp add: dial_ordinal_def)
next
  case (wire t lid ordinal i)
  obtain client server u where dw: "dial_wire t ordinal i lid w = ((client, server), u)" by (metis surj_pair)
  with wire assms(1) dial_wire_effect(14) [OF assms(2) dw] show ?thesis by simp
next
  case trace
  with assms(1) show ?thesis by (simp add: registerTrace_def)
next
  case other
  from calm_act [OF assms(1) other] have "nextOrdinal v = nextOrdinal w" by (simp add: calm_def)
  moreover have "fresh a w = {#}" using other(1) by (cases "(a, w)" rule: fresh.cases) auto
  ultimately show ?thesis by simp
qed

text \<open>
  A call takes at most one ordinal, so as many as there were calls: while fewer than \<open>2 ^ 64\<close>
  calls were made the ordinals do not run out.
\<close>

fun to_take :: "act \<Rightarrow> unit multiset" where
  "to_take (ADial ctx network x) = {#()#}"
| "to_take (ASelf ctx t) = {#()#}"
| "to_take (AGate t pc) = {#()#}"
| "to_take (ALookup t) = {#()#}"
| "to_take (AReserve t lid) = {#()#}"
| "to_take (AOrdinal t lid) = {#()#}"
| "to_take a = {#}"

lemma held_take:
  "held to_take (fail t e) = {#}" "held to_take (reset_acts ts) = {#}" "held to_take (map AClose cs) = {#}"
  by (simp_all add: fail_def reset_acts_def held_map) (induction ts, simp_all)

fun takes :: "act \<Rightarrow> nat" where
  "takes (AOrdinal t lid) = 1"
| "takes a = 0"

lemma takes_fresh: "0 < takes a \<longleftrightarrow> fresh a w \<noteq> {#}"
  by (cases "(a, w)" rule: fresh.cases) (simp_all add: both_def)

lemma take_act:
  assumes "(bs, v) \<in> set (act_step plan9 done_err a w)"
  shows "size (held to_take bs) + takes a \<le> size (to_take a)"
proof (cases a)
  case (APair3 op k)
  with assms show ?thesis by (cases op) (auto simp: held_take)
next
  case (AGate t pc)
  with assms show ?thesis by (auto simp: held_take split: gate_pc.splits)
qed (use assms in \<open>auto simp: Let_def case_prod_beta from_panic_def held_take split: if_splits list.splits option.splits sum.splits\<close>)

definition all_held :: "(act \<Rightarrow> 'a multiset) \<Rightarrow> act list list \<Rightarrow> 'a multiset" where
  "all_held f ts = \<Sum>\<^sub># (image_mset (held f) (mset ts))"

lemma all_held_thread:
  assumes "i < length ts" "ts ! i = a # rest"
  shows "\<exists>r. all_held f ts = f a + r \<and> (\<forall>bs. all_held f (ts[i := bs @ rest]) = held f bs + r)"
proof -
  let ?r = "held f rest + \<Sum>\<^sub># (image_mset (held f) (mset (take i ts) + mset (drop (Suc i) ts)))"
  have ts: "ts = take i ts @ (a # rest) # drop (Suc i) ts" using id_take_nth_drop [OF assms(1)] assms(2) by simp
  have "mset ts = add_mset (a # rest) (mset (take i ts) + mset (drop (Suc i) ts))"
    by (subst ts) (simp del: append_take_drop_id)
  then have "all_held f ts = f a + ?r" by (simp add: all_held_def add_ac)
  moreover have "mset (ts[i := bs @ rest]) = add_mset (bs @ rest) (mset (take i ts) + mset (drop (Suc i) ts))" for bs
    by (simp add: upd_conv_take_nth_drop [OF assms(1)])
  then have "all_held f (ts[i := bs @ rest]) = held f bs + ?r" for bs by (simp add: all_held_def add_ac)
  ultimately show ?thesis by blast
qed

lemma all_held_call: "all_held f (ts @ [as]) = all_held f ts + held f as"
  by (simp add: all_held_def)

lemma next_ordinal:
  fixes n :: u64
  shows "unat (n + 1) \<le> unat n + 1" and "unat n + 1 < 2 ^ 64 \<Longrightarrow> n < n + 1"
  by (simp_all add: unat_word_ariths(1) word_less_nat_alt)

lemma ordinals_bound:
  "reach conf_init (conf_step plan9) s \<Longrightarrow>
     unat (nextOrdinal (fst s)) + size (all_held to_take (snd s)) \<le> length (snd s)"
proof (induction rule: reach.induct)
  case (reach_init s)
  then show ?case using init_store by (simp add: conf_init_def all_held_def)
next
  case (reach_step s t)
  obtain w ts where s: "s = (w, ts)" by fastforce
  have inv: "live_inv w" using concurrent.reach_inv [OF reach_step.hyps(1)] by (simp add: conf_inv_def s)
  from reach_step.hyps(2)[unfolded s] show ?case
  proof (cases rule: conf_step_kinds)
    case (act i a rest bs v done_err)
    obtain r where r: "all_held to_take ts = to_take a + r" "all_held to_take (ts[i := bs @ rest]) = held to_take bs + r"
      using all_held_thread [OF act(1,2), of to_take] by blast
    have "unat (nextOrdinal v) \<le> unat (nextOrdinal w) + takes a"
      using act_ordinal [OF act(3) live_invD(1) [OF inv]] takes_fresh [of a w] next_ordinal(1) [of "nextOrdinal w"]
      by (auto simp: both_def)
    with r take_act [OF act(3)] reach_step.IH show ?thesis by (simp add: act(4) s)
  next
    case (call a)
    then have "size (to_take a) \<le> 1" by (cases a) simp_all
    with reach_step.IH call show ?thesis by (simp add: s all_held_call)
  next
    case (env v)
    with reach_step.IH show ?thesis by (simp add: calm_def s)
  qed
qed

locale ledger =
  fixes used :: "world \<Rightarrow> key multiset" and hold :: "act \<Rightarrow> key multiset"
  assumes used_init: "world_init w \<Longrightarrow> used w = {#}"
    and used_calm: "calm w v \<Longrightarrow> used v = used w"
    and hold_call: "api_act w a \<Longrightarrow> hold a = {#}"
    and hold_act: "live_inv w \<Longrightarrow> (bs, v) \<in> set (act_step plan9 done_err a w) \<Longrightarrow>
      used v + held hold bs \<subseteq># used w + hold a + fresh a w"
begin

definition entries :: "conf \<Rightarrow> key multiset" where
  "entries s = used (fst s) + all_held hold (snd s)"

definition booked :: "conf \<Rightarrow> bool" where
  "booked s \<longleftrightarrow> (\<forall>k \<in># entries s. fst k < nextOrdinal (fst s)) \<and> (\<forall>k. count (entries s) k \<le> 1)"

lemma booked_same: "booked (w, ts) \<Longrightarrow> entries s \<subseteq># entries (w, ts) \<Longrightarrow> nextOrdinal (fst s) = nextOrdinal w \<Longrightarrow> booked s"
  unfolding booked_def using mset_subset_eqD mset_subset_eq_count by (fastforce intro: order_trans)

lemma booked_fresh:
  assumes "booked (w, ts)" "entries s \<subseteq># entries (w, ts) + both (nextOrdinal w)"
    "nextOrdinal (fst s) = nextOrdinal w + 1" "unat (nextOrdinal w) + 1 < 2 ^ 64"
  shows "booked s"
proof -
  let ?n = "nextOrdinal w"
  have up: "?n < ?n + 1" by (rule next_ordinal(2) [OF assms(4)])
  have old: "fst k < ?n" if "k \<in># entries (w, ts)" for k using assms(1) that by (simp add: booked_def)
  have cnt: "count (entries s) k \<le> count (entries (w, ts)) k + count (both ?n) k" for k
    using mset_subset_eq_count [OF assms(2)] by simp
  have mem: "k \<in># entries s \<Longrightarrow> k \<in># entries (w, ts) \<or> k \<in># both ?n" for k
    using mset_subset_eqD [OF assms(2)] by auto
  have one: "count (entries (w, ts)) k \<le> 1" for k using assms(1) unfolding booked_def by blast
  have "fst k < nextOrdinal (fst s)" if "k \<in># entries s" for k
    using mem [OF that] old [of k] up by (auto simp: assms(3) both_def)
  moreover have "count (entries s) k \<le> 1" for k
  proof (cases "k \<in># both ?n")
    case True
    then have "k \<notin># entries (w, ts)" using old [of k] by (auto simp: both_def)
    moreover have "count (both ?n) k \<le> 1" by (auto simp: both_def)
    ultimately show ?thesis using cnt [of k] by (simp add: not_in_iff)
  next
    case False
    with cnt [of k] one [of k] show ?thesis by (simp add: not_in_iff)
  qed
  ultimately show ?thesis by (simp add: booked_def)
qed

lemma booked_act:
  assumes "booked (w, ts)" "live_inv w" "unat (nextOrdinal w) + size (all_held to_take ts) < 2 ^ 64"
    and i: "i < length ts" "ts ! i = a # rest" and st: "(bs, v) \<in> set (act_step plan9 done_err a w)"
  shows "booked (v, ts[i := bs @ rest])"
proof -
  obtain r where r: "all_held hold ts = hold a + r" "all_held hold (ts[i := bs @ rest]) = held hold bs + r"
    using all_held_thread [OF i, of hold] by blast
  then have sub: "entries (v, ts[i := bs @ rest]) \<subseteq># entries (w, ts) + fresh a w"
    using hold_act [OF assms(2) st] by (simp add: entries_def add_ac)
  from act_ordinal [OF st live_invD(1) [OF assms(2)]] show ?thesis
  proof (elim disjE conjE)
    assume "fresh a w = {#}" "nextOrdinal v = nextOrdinal w"
    with booked_same [OF assms(1), of "(v, ts[i := bs @ rest])"] sub show ?thesis by simp
  next
    assume f: "fresh a w = both (nextOrdinal w)" "nextOrdinal v = nextOrdinal w + 1"
    then have "0 < takes a" by (simp add: takes_fresh [of a w] both_def)
    then have "0 < size (to_take a)" using take_act [OF st] by linarith
    then have "unat (nextOrdinal w) + 1 < 2 ^ 64"
      using assms(3) all_held_thread [OF i, of to_take] by fastforce
    with booked_fresh [OF assms(1), of "(v, ts[i := bs @ rest])"] sub f show ?thesis by simp
  qed
qed

lemma always_booked: "reach conf_init (conf_step plan9) s \<Longrightarrow> length (snd s) < 2 ^ 64 \<Longrightarrow> booked s"
proof (induction rule: reach.induct)
  case (reach_init s)
  then show ?case using used_init by (simp add: conf_init_def booked_def entries_def all_held_def)
next
  case (reach_step s t)
  obtain w ts where s: "s = (w, ts)" by fastforce
  have inv: "live_inv w" using concurrent.reach_inv [OF reach_step.hyps(1)] by (simp add: conf_inv_def s)
  have bound: "unat (nextOrdinal w) + size (all_held to_take ts) \<le> length ts"
    using ordinals_bound [OF reach_step.hyps(1)] by (simp add: s)
  from reach_step.hyps(2)[unfolded s] show ?case
  proof (cases rule: conf_step_kinds)
    case (act i a rest bs v done_err)
    with reach_step have "booked (w, ts)" "length ts < 2 ^ 64" by (simp_all add: s)
    with booked_act [OF _ inv _ act(1-3)] bound show ?thesis by (simp add: act(4))
  next
    case (call a)
    with reach_step have "booked (w, ts)" by (simp add: s)
    with booked_same [OF this, of t] call show ?thesis by (simp add: entries_def all_held_call hold_call)
  next
    case (env v)
    with reach_step have "booked (w, ts)" by (simp add: s)
    with booked_same [OF this, of t] env used_calm [OF env(1)] show ?thesis by (simp add: entries_def calm_def)
  qed
qed

lemma used_once:
  assumes "reach conf_init (conf_step plan9) s" "length (snd s) < 2 ^ 64"
  shows "count (used (fst s)) k \<le> 1"
proof -
  have "count (entries s) k \<le> 1" using always_booked [OF assms] unfolding booked_def by blast
  then show ?thesis by (simp add: entries_def)
qed

end

text \<open>The two ledgers: the connections that were made, and the directions that are traced.\<close>

definition conn_keys :: "world \<Rightarrow> key multiset" where
  "conn_keys w = image_mset (\<lambda>c. (c_ordinal (conns w c), c_side (conns w c))) (mset [0..<next_conn w])"

fun to_wire :: "act \<Rightarrow> key multiset" where
  "to_wire (AAddress t lid ordinal) = both ordinal"
| "to_wire (AWire t lid ordinal i) = both ordinal"
| "to_wire a = {#}"

definition trace_keys :: "world \<Rightarrow> key multiset" where
  "trace_keys w = mset (map handle_key (traces w))"

fun to_trace :: "act \<Rightarrow> key multiset" where
  "to_trace (AAddress t lid ordinal) = both ordinal"
| "to_trace (AWire t lid ordinal i) = both ordinal"
| "to_trace (ATrace ordinal side rec) = {#(ordinal, side)#}"
| "to_trace a = {#}"

lemma held_fail [simp]: "held to_wire (fail t e) = {#}" "held to_trace (fail t e) = {#}"
  by (simp_all add: fail_def)

lemma held_reset [simp]: "held to_wire (reset_acts ts) = {#}" "held to_trace (reset_acts ts) = {#}"
  by (induction ts) (simp_all add: reset_acts_def held_map)

lemma held_calm:
  assumes "(bs, v) \<in> set (act_step plan9 done_err a w)"
    and "\<And>t lid. a \<noteq> AOrdinal t lid" "\<And>t lid ordinal i. a \<noteq> AWire t lid ordinal i"
    and "\<And>ordinal side r. a \<noteq> ATrace ordinal side r"
  shows "held to_wire bs \<subseteq># to_wire a \<and> held to_trace bs \<subseteq># to_trace a"
proof (cases a)
  case (APair3 op k)
  with assms(1) show ?thesis by (cases op) auto
next
  case (AGate t pc)
  with assms(1) show ?thesis by (auto split: gate_pc.splits)
qed (use assms in \<open>auto simp: Let_def case_prod_beta from_panic_def held_map split: if_splits list.splits option.splits sum.splits\<close>)

lemma conn_keys_calm: "calm w v \<Longrightarrow> conn_keys v = conn_keys w"
  by (simp add: calm_def conn_keys_def)

lemma wire_conn_keys:
  assumes "wired w" "dial_wire t ordinal i lid w = ((client, server), v)"
  shows "conn_keys v = conn_keys w + both ordinal"
proof -
  note eff = dial_wire_effect [OF assms]
  have "image_mset (\<lambda>c. (c_ordinal (conns v c), c_side (conns v c))) (mset [0..<next_conn w]) = conn_keys w"
    unfolding conn_keys_def by (rule image_mset_cong) (simp add: eff(1,2,3))
  then show ?thesis
    by (simp add: conn_keys_def eff(1,2,6)) (simp add: both_def eff(1,2,3) newConn_def)
qed

interpretation wired_pairs: ledger conn_keys to_wire
proof
  fix w v a bs plan9 done_err
  show "world_init w \<Longrightarrow> conn_keys w = {#}" by (simp add: init_store conn_keys_def)
  show "calm w v \<Longrightarrow> conn_keys v = conn_keys w" by (rule conn_keys_calm)
  show "api_act w a \<Longrightarrow> to_wire a = {#}" by (cases "(w, a)" rule: api_act.cases) simp_all
  assume inv: "live_inv w" and st: "(bs, v) \<in> set (act_step plan9 done_err a w)"
  show "conn_keys v + held to_wire bs \<subseteq># conn_keys w + to_wire a + fresh a w"
  proof (cases a rule: act_kinds)
    case ordinal
    with st show ?thesis by (simp add: dial_ordinal_def conn_keys_def)
  next
    case (wire t lid ordinal i)
    obtain client server u where dw: "dial_wire t ordinal i lid w = ((client, server), u)" by (metis surj_pair)
    with wire st wire_conn_keys [OF live_invD(1) [OF inv] dw] show ?thesis by (auto split: if_splits)
  next
    case trace
    with st show ?thesis by (simp add: registerTrace_def conn_keys_def)
  next
    case other
    with held_calm [OF st other] conn_keys_calm [OF calm_act [OF st other]] show ?thesis
      by (simp add: subset_mset.add_increasing2)
  qed
qed


interpretation traced_pairs: ledger trace_keys to_trace
proof
  fix w v a bs plan9 done_err
  show "world_init w \<Longrightarrow> trace_keys w = {#}" by (simp add: init_store trace_keys_def)
  show "calm w v \<Longrightarrow> trace_keys v = trace_keys w" by (simp add: calm_def trace_keys_def)
  show "api_act w a \<Longrightarrow> to_trace a = {#}" by (cases "(w, a)" rule: api_act.cases) simp_all
  assume inv: "live_inv w" and st: "(bs, v) \<in> set (act_step plan9 done_err a w)"
  show "trace_keys v + held to_trace bs \<subseteq># trace_keys w + to_trace a + fresh a w"
  proof (cases a rule: act_kinds)
    case ordinal
    with st show ?thesis by (simp add: dial_ordinal_def trace_keys_def)
  next
    case (wire t lid ordinal i)
    with st wire_frame(1) [of t ordinal i lid w] show ?thesis
      by (auto simp: trace_keys_def both_def case_prod_beta split: if_splits)
  next
    case trace
    with st show ?thesis by (simp add: registerTrace_def trace_keys_def handle_key_def)
  next
    case other
    with held_calm [OF st other] calm_act [OF st other] show ?thesis
      by (simp add: subset_mset.add_increasing2 trace_keys_def calm_def)
  qed
qed

text \<open>
  C10. Every direction has random streams of its own. In every interleaving, as long as fewer
  than \<open>2 ^ 64\<close> calls were made: the draws of a fault on a direction come from the stream keyed by the
  seed, the ordinal and side of the end that writes it and that fault; no two directions, and no
  two faults of one, share a key; and no two traced directions share the identity the trace is
  sorted by.
\<close>

theorem streams_apart:
  assumes "reach conf_init (conf_step plan9) (w, ts)" and "length ts < 2 ^ 64" and "c < next_conn w" and "d < next_conn w"
  shows "map_option src (stream_of k (pipes w (writePipe (conns w c))))
      = Some (src (deriveStream (seed w) (unat (c_ordinal (conns w c))) (c_side (conns w c)) k))
    \<and> (derive_input (seed w) (unat (c_ordinal (conns w c))) (c_side (conns w c)) k
         = derive_input (seed w) (unat (c_ordinal (conns w d))) (c_side (conns w d)) k' \<longrightarrow> c = d \<and> k = k')
    \<and> distinct (map handle_key (traces w))"
proof -
  let ?key = "\<lambda>c. (c_ordinal (conns w c), c_side (conns w c))"
  have "live_inv w" using concurrent.reach_inv [OF assms(1)] by (simp add: conf_inv_def)
  then have i: "writePipe (conns w c) = c" using live_invD(7) assms(3) by blast
  have "distinct (map ?key [0..<next_conn w])"
    using wired_pairs.used_once [OF assms(1)] assms(2)
    by (simp add: distinct_count_le_one conn_keys_def)
  then have inj: "?key c = ?key d \<Longrightarrow> c = d" using assms(3,4) by (auto simp: distinct_map inj_on_def)
  have "derive_input (seed w) (unat (c_ordinal (conns w c))) (c_side (conns w c)) k
         = derive_input (seed w) (unat (c_ordinal (conns w d))) (c_side (conns w d)) k' \<longrightarrow> c = d \<and> k = k'"
    using inj derive_input_same_seed by (simp add: prod_eq_iff)
  moreover have "distinct (map handle_key (traces w))"
    using traced_pairs.used_once [OF assms(1)] assms(2) by (simp add: distinct_count_le_one trace_keys_def)
  moreover have "srcs (pipes w c) k
      = Some (src (deriveStream (seed w) (unat (c_ordinal (conns w c))) (c_side (conns w c)) k))"
    using always_lifted [OF assms(1)] assms(3) run_src srcs_fresh [of w c k]
    unfolding lifted_def advances_def by fastforce
  ultimately show ?thesis by (simp add: i srcs_def)
qed

theorem streams_apart_witness:
  "\<exists>v. reach conf_init (conf_step False) (v, [[], [AResult (Dialed 0)]])
     \<and> map_option src (loss (pipes v 0)) = Some (src (deriveStream (seed v) 0 sideDialer kindLoss))
     \<and> derive_input (seed v) 0 sideDialer kindLoss \<noteq> derive_input (seed v) 0 sideAcceptor kindLoss"
proof -
  obtain v where v: "served v" "reach conf_init (conf_step False) (v, [[], [AResult (Dialed 0)]])"
    using dialed by blast
  have n: "next_conn v = 2" using v(1) by (simp add: served_def)
  obtain la ra lb rb where
    c: "conns v 0 = (newConn la ra ''tcp'' 0 sideDialer 1 0)\<lparr>c_nw := True, c_pair := dial_pair tgt 0\<rparr>"
      "conns v 1 = (newConn lb rb ''tcp'' 0 sideAcceptor 0 1)\<lparr>c_nw := True, c_pair := dial_pair tgt 0\<rparr>"
    using v(1) unfolding served_def by blast
  from streams_apart [OF v(2), of 0 1 kindLoss kindLoss] n c v(2) show ?thesis
    by (auto simp: newConn_def)
qed

end
