(* ===== verification/Accepting.thy ===== *)
theory Accepting
  imports Streams
begin

text \<open>
  What becomes of the acceptor end of a dial in a network whose calls interleave: it moves from
  the dial to the queue of the listener, from there to an \<open>Accept\<close>, or is closed on the way, and
  is never lost, duplicated or given to another listener.
\<close>

section \<open>Where a connection waits to be accepted\<close>

text \<open>
  The place of the acceptor end of a dial, with the listener it was dialed to: it waits to be filled
  in, it is in the listener's queue, or it was handed to an \<open>Accept\<close>.
\<close>

fun place :: "act \<Rightarrow> (nat \<times> nat) multiset" where
  "place (AFill lid c) = {#(lid, c)#}"
| "place (AAccepted lid (Accepted c)) = {#(lid, c)#}"
| "place a = {#}"

definition queue_of :: "nat \<Rightarrow> world \<Rightarrow> (nat \<times> nat) multiset" where
  "queue_of lid w = image_mset (Pair lid) (mset (incoming (lsts w lid)))"

definition queued :: "world \<Rightarrow> (nat \<times> nat) multiset" where
  "queued w = (\<Sum>lid < next_lst w. queue_of lid w)"

definition places :: "conf \<Rightarrow> (nat \<times> nat) multiset" where
  "places s = queued (fst s) + all_held place (snd s)"

definition server_end :: "world \<Rightarrow> nat \<Rightarrow> bool" where
  "server_end w c \<longleftrightarrow> c < next_conn w \<and> c_side (conns w c) = sideAcceptor"

text \<open>The acceptor end the wiring of a dial makes.\<close>

fun made :: "act \<Rightarrow> world \<Rightarrow> (nat \<times> nat) multiset" where
  "made (AWire t lid ordinal i) w = {#(lid, Suc (next_conn w))#}"
| "made a w = {#}"

lemma queued_upd:
  assumes "lid < next_lst w" "v = w\<lparr>lsts := (lsts w)(lid := l)\<rparr>"
  shows "queued v + queue_of lid w = queued w + image_mset (Pair lid) (mset (incoming l))"
proof -
  have "queued u = queue_of lid u + (\<Sum>j \<in> {..<next_lst w} - {lid}. queue_of j u)" if "next_lst u = next_lst w" for u
    unfolding queued_def that using assms(1) by (intro sum.remove) simp_all
  moreover have "(\<Sum>j \<in> {..<next_lst w} - {lid}. queue_of j v) = (\<Sum>j \<in> {..<next_lst w} - {lid}. queue_of j w)"
    by (rule sum.cong) (simp_all add: queue_of_def assms(2))
  ultimately show ?thesis by (simp add: assms(2) queue_of_def)
qed

text \<open>Most actions leave the queues alone; a new listener has an empty one.\<close>

definition same_queues :: "world \<Rightarrow> world \<Rightarrow> bool" where
  "same_queues w v \<longleftrightarrow> next_lst w \<le> next_lst v
     \<and> (\<forall>lid < next_lst w. incoming (lsts v lid) = incoming (lsts w lid) \<and> l_addr (lsts v lid) = l_addr (lsts w lid))
     \<and> (\<forall>lid. next_lst w \<le> lid \<and> lid < next_lst v \<longrightarrow> incoming (lsts v lid) = [])"

lemma same_queues_lsts: "lsts v = lsts w \<Longrightarrow> next_lst v = next_lst w \<Longrightarrow> same_queues w v"
  unfolding same_queues_def by (metis leD order_refl)

lemma quiet_queues: "quiet w v \<Longrightarrow> same_queues w v"
  by (simp add: quiet_def same_queues_lsts)

lemma same_queues_queued:
  assumes "same_queues w v"
  shows "queued v = queued w"
proof -
  have "queued v = (\<Sum>lid < next_lst w. queue_of lid v)"
    unfolding queued_def using assms by (intro sum.mono_neutral_right) (auto simp: same_queues_def queue_of_def)
  also have "\<dots> = queued w"
    unfolding queued_def using assms by (intro sum.cong) (simp_all add: same_queues_def queue_of_def)
  finally show ?thesis .
qed

lemma same_net_queues: "same_net v w \<Longrightarrow> same_queues w v"
  by (simp add: same_net_def same_queues_lsts)

lemma listener_queues:
  "same_queues w (deregister a w)" "same_queues w (snd (dial_reserve lid w))"
  "same_queues w (snd (Listen network laddr w))"
proof -
  have at: "same_queues u (snd (listen_at network laddr pr p x v))" if "lsts v = lsts u" "next_lst v = next_lst u" for pr p x u v
    using that by (cases x) (auto simp: listen_at_def register_listener_def same_queues_def newListener_def Let_def case_prod_beta
        less_Suc_eq_le split: option.split sum.split)
  have "lsts (snd (canonicalPeer h u)) = lsts u" "next_lst (snd (canonicalPeer h u)) = next_lst u" for h u
    by (simp_all add: canonicalPeer_def case_prod_beta)
  then show "same_queues w (snd (Listen network laddr w))"
    by (auto simp: Listen_def Let_def case_prod_beta same_queues_lsts intro!: at split: option.split sum.split)
qed (auto simp: deregister_def dial_reserve_def reserve_def same_queues_def)

lemma act_queues:
  assumes st: "(bs, v) \<in> set (act_step plan9 done_err a w)"
    and "\<And>lid. a \<noteq> AAccept lid" "\<And>lid c. a \<noteq> AFill lid c" "\<And>lid. a \<noteq> ADrain lid"
  shows "same_queues w v"
proof (cases a)
  case (ARead len c pc)
  with act_read [OF st [unfolded ARead]] obtain pc' where "read_step plan9 len c pc w = (pc', v)" by blast
  with same_net_queues [OF same_net_read [of plan9 len c pc w]] show ?thesis by simp
next
  case (AWrite data c pc)
  with act_write [of bs v] st same_net_queues [OF same_net_write] show ?thesis by blast
next
  case (ASetLatency x y)
  with st quiet_setters(1) [OF from_panic_single] quiet_queues show ?thesis by auto
next
  case (ASetLoss x)
  with st quiet_setters(2) [OF from_panic_single] quiet_queues show ?thesis by auto
next
  case (ASetDuplication x)
  with st quiet_setters(3) [OF from_panic_single] quiet_queues show ?thesis by auto
next
  case (ASetCorruption x)
  with st quiet_setters(4) [OF from_panic_single] quiet_queues show ?thesis by auto
next
  case (APair op x y)
  with st quiet_queues [OF quiet_canonical] show ?thesis
    by (auto simp: case_prod_beta same_queues_lsts split: option.splits)
next
  case (APair2 op x y)
  with st quiet_queues [OF quiet_canonical] show ?thesis by (auto simp: case_prod_beta)
next
  case (AListen network laddr)
  with st listener_queues(3) show ?thesis by simp
next
  case (ADelist lid)
  with st listener_queues(1) show ?thesis by simp
next
  case (ACloseListener lid)
  with st show ?thesis by (auto simp: listener_mark_closed_def same_queues_def split: if_splits)
next
  case (AReserve t lid)
  with st listener_queues(2) show ?thesis by (auto simp: case_prod_beta)
next
  case (ADial ctx network x)
  with st quiet_queues [OF quiet_dial(1)] show ?thesis by (auto simp: case_prod_beta)
next
  case (ASelf ctx t)
  with st quiet_queues [OF quiet_dial(2)] show ?thesis by (auto simp: case_prod_beta)
next
  case (AAddress t lid ordinal)
  with st quiet_queues [OF quiet_dial(4)] show ?thesis by (auto simp: case_prod_beta)
next
  case (AWire t lid ordinal i)
  with st show ?thesis
    by (auto simp: dial_wire_def newConnPairWithSeedAndTrace_def registerReset_def Let_def case_prod_beta
        intro!: same_queues_lsts)
qed (use assms in \<open>auto simp: signalReset_def deregisterReset_def registerTrace_def dial_ordinal_def intro!: same_queues_lsts
      split: if_splits pair_op.splits\<close>)

lemma held_place [simp]:
  "held place (fail t e) = {#}" "held place (reset_acts ts) = {#}" "held place (map AClose cs) = {#}"
  by (simp_all add: fail_def reset_acts_def held_map) (induction ts, simp_all)

lemma act_places:
  assumes st: "(bs, v) \<in> set (act_step plan9 done_err a w)"
    and "\<And>lid. a \<noteq> AAccept lid" "\<And>lid c. a \<noteq> AFill lid c" "\<And>lid. a \<noteq> ADrain lid"
    and "\<And>t lid ordinal i. a \<noteq> AWire t lid ordinal i"
  shows "held place bs = place a"
proof (cases a)
  case (APair3 op k)
  with st show ?thesis by (cases op) auto
next
  case (AGate t pc)
  with st show ?thesis by (auto split: gate_pc.splits)
qed (use assms in \<open>auto simp: Let_def case_prod_beta from_panic_def split: if_splits list.splits option.splits sum.splits\<close>)

text \<open>
  What an action does to the places: it moves them, makes the one of a new dial, or gives one up
  with a close of that connection to come.
\<close>

lemma flow:
  assumes inv: "live_inv w" and ok: "act_ok plan9 w {} a" and st: "(bs, v) \<in> set (act_step plan9 done_err a w)"
  shows "\<exists>gone. queued v + held place bs + gone = queued w + place a + made a w
    \<and> (\<forall>x \<in># gone. AClose (snd x) \<in> set bs)"
proof -
  consider (accept) lid where "a = AAccept lid" | (fill) lid c where "a = AFill lid c" | (drain) lid where "a = ADrain lid"
    | (wire) t lid ordinal i where "a = AWire t lid ordinal i"
    | (other) "\<And>lid. a \<noteq> AAccept lid" "\<And>lid c. a \<noteq> AFill lid c" "\<And>lid. a \<noteq> ADrain lid" "\<And>t lid ordinal i. a \<noteq> AWire t lid ordinal i"
    by blast
  then show ?thesis
  proof cases
    case (accept lid)
    with st obtain r l where l: "(r, l) \<in> set (accept_outcomes (lsts w lid))" "bs = [AAccepted lid r]"
      and v: "v = w\<lparr>lsts := (lsts w)(lid := l)\<rparr>" by (auto simp: Accept_outcomes_def)
    from accept ok have "queued v + queue_of lid w = queued w + image_mset (Pair lid) (mset (incoming l))"
      by (intro queued_upd [OF _ v]) simp
    with l accept show ?thesis
      by (cases "incoming (lsts w lid)"; intro exI [of _ "{#}"])
        (auto simp: accept_outcomes_def queue_of_def split: if_splits)
  next
    case (fill lid c)
    then obtain cs l where f: "fill c (lsts w lid) = Some (cs, l)" using st by (cases "fill c (lsts w lid)") auto
    with fill st have l: "fill c (lsts w lid) = Some (cs, l)" "bs = map AClose cs"
      and v: "v = w\<lparr>lsts := (lsts w)(lid := l)\<rparr>" by simp_all
    from fill ok have q: "queued v + queue_of lid w = queued w + image_mset (Pair lid) (mset (incoming l))"
      by (intro queued_upd [OF _ v]) simp
    show ?thesis
    proof (cases "l_closed (lsts w lid)")
      case True
      with l have "cs = [c]" "incoming l = incoming (lsts w lid)" by (auto simp: fill_def Let_def)
      with q l(2) fill show ?thesis by (intro exI [of _ "{#(lid, c)#}"]) (simp add: queue_of_def)
    next
      case False
      with l have "cs = []" "incoming l = incoming (lsts w lid) @ [c]" by (auto simp: fill_def Let_def split: if_splits)
      with q l(2) fill show ?thesis by (intro exI [of _ "{#}"]) (simp add: queue_of_def)
    qed
  next
    case (drain lid)
    show ?thesis
    proof (cases "incoming (lsts w lid)")
      case Nil
      with st drain show ?thesis by (intro exI [of _ "{#}"]) simp
    next
      case (Cons c cs)
      with st drain have bs: "bs = [AClose c, ADrain lid]"
        and v: "v = w\<lparr>lsts := (lsts w)(lid := (lsts w lid)\<lparr>incoming := cs\<rparr>)\<rparr>" by auto
      from drain ok have "queued v + queue_of lid w = queued w + image_mset (Pair lid) (mset cs)"
        using queued_upd [OF _ v] by simp
      with Cons bs drain show ?thesis by (intro exI [of _ "{#(lid, c)#}"]) (simp add: queue_of_def)
    qed
  next
    case (wire t lid ordinal i)
    obtain client server u where dw: "dial_wire t ordinal i lid w = ((client, server), u)" by (metis surj_pair)
    with wire st have "v = u" "held place bs = {#(lid, server)#}" by auto
    moreover have "queued v = queued w" using act_queues [OF st] wire by (intro same_queues_queued) blast
    ultimately show ?thesis
      using dial_wire_effect(2) [OF live_invD(1) [OF inv] dw] wire by (intro exI [of _ "{#}"]) simp
  next
    case other
    have "made a w = {#}" using other(4) by (cases "(a, w)" rule: made.cases) auto
    with act_places [OF st other] same_queues_queued [OF act_queues [OF st other(1-3)]] show ?thesis
      by (intro exI [of _ "{#}"]) simp
  qed
qed

text \<open>Connections and the addresses of listeners stay as they were made.\<close>

lemma act_ends:
  assumes inv: "live_inv w" and st: "(bs, v) \<in> set (act_step plan9 done_err a w)"
  shows "server_end v c \<longleftrightarrow> server_end w c \<or> c \<in># image_mset snd (made a w)"
proof (cases a rule: act_kinds)
  case (wire t lid ordinal i)
  obtain client server u where dw: "dial_wire t ordinal i lid w = ((client, server), u)" by (metis surj_pair)
  note eff = dial_wire_effect [OF live_invD(1) [OF inv] dw]
  from wire dw st have "v = u" by simp
  with wire show ?thesis
    by (auto simp: server_end_def eff(1,2,3,6) newConn_def less_Suc_eq)
next
  case other
  have "made a w = {#}" using other(2) by (cases "(a, w)" rule: made.cases) auto
  with calm_act [OF st other] show ?thesis by (simp add: server_end_def calm_def)
qed (use st in \<open>auto simp: server_end_def dial_ordinal_def registerTrace_def\<close>)

lemma act_listeners:
  assumes inv: "live_inv w" and ok: "act_ok plan9 w {} a" and st: "(bs, v) \<in> set (act_step plan9 done_err a w)"
    and lid: "lid < next_lst w"
  shows "lid < next_lst v \<and> listener_Addr lid v = listener_Addr lid w"
proof -
  consider (accept) j where "a = AAccept j" | (fill) j c where "a = AFill j c" | (drain) j where "a = ADrain j"
    | (other) "\<And>lid. a \<noteq> AAccept lid" "\<And>lid c. a \<noteq> AFill lid c" "\<And>lid. a \<noteq> ADrain lid"
    by blast
  then show ?thesis
  proof cases
    case accept
    with st lid show ?thesis
      by (auto simp: Accept_outcomes_def accept_outcomes_def listener_Addr_def split: list.splits if_splits)
  next
    case (fill j c)
    with st lid show ?thesis
      by (cases "fill c (lsts w j)") (auto simp: fill_def listener_Addr_def Let_def split: if_splits)
  next
    case drain
    with st lid show ?thesis by (auto simp: listener_Addr_def split: list.splits)
  next
    case other
    from act_queues [OF st other] lid show ?thesis by (simp add: same_queues_def listener_Addr_def)
  qed
qed

lemma grows_LocalAddr: "grows w v \<Longrightarrow> c < next_conn w \<Longrightarrow> LocalAddr (conns v c) = LocalAddr (conns w c)"
proof -
  assume "grows w v" "c < next_conn w"
  then have "conn_opError (conns v c) [] EOF = conn_opError (conns w c) [] EOF" by (simp add: grows_def)
  then show ?thesis by (simp add: conn_opError_def LocalAddr_def)
qed

section \<open>Every acceptor end is somewhere, and nowhere twice\<close>

definition dropped :: "conf \<Rightarrow> nat \<Rightarrow> bool" where
  "dropped s c \<longleftrightarrow> c_closed (conns (fst s) c) \<or> (\<exists>as \<in> set (snd s). AClose c \<in> set as)"

definition seated :: "conf \<Rightarrow> bool" where
  "seated s \<longleftrightarrow>
     (\<forall>(lid, c) \<in># places s. lid < next_lst (fst s) \<and> server_end (fst s) c
        \<and> LocalAddr (conns (fst s) c) = listener_Addr lid (fst s))
     \<and> (\<forall>c. count (image_mset snd (places s)) c \<le> 1)
     \<and> (\<forall>c. server_end (fst s) c \<longrightarrow> c \<in># image_mset snd (places s) \<or> dropped s c)"

lemma made_wire: "(lid, c) \<in># made a w \<Longrightarrow> \<exists>t ordinal i. a = AWire t lid ordinal i \<and> c = Suc (next_conn w)"
  by (cases "(a, w)" rule: made.cases) auto

lemma made_addr:
  assumes inv: "live_inv w" and st: "(bs, v) \<in> set (act_step plan9 done_err a w)" and m: "(lid, c) \<in># made a w"
  shows "LocalAddr (conns v c) = listener_Addr lid w"
proof -
  from made_wire [OF m] obtain t ordinal i where a: "a = AWire t lid ordinal i" "c = Suc (next_conn w)" by blast
  obtain client server u where dw: "dial_wire t ordinal i lid w = ((client, server), u)" by (metis surj_pair)
  note eff = dial_wire_effect [OF live_invD(1) [OF inv] dw]
  from a dw st have "v = u" by simp
  with a show ?thesis
    by (simp add: eff(1,2,3) newConn_def LocalAddr_def dial_remote_addr_def listener_Addr_def tcpAddr_def)
qed

lemma dropped_act:
  assumes gr: "grows w v" and c: "c < next_conn w" and i: "i < length ts" "ts ! i = a # rest"
    and st: "(bs, v) \<in> set (act_step plan9 done_err a w)" and d: "dropped (w, ts) c"
  shows "dropped (v, ts[i := bs @ rest]) c"
proof (cases "c_closed (conns w c) \<or> a = AClose c")
  case True
  then have "c_closed (conns v c)" using gr c st by (auto simp: grows_def split: if_splits)
  then show ?thesis by (simp add: dropped_def)
next
  case False
  with d obtain as where as: "as \<in> set ts" "AClose c \<in> set as" by (auto simp: dropped_def)
  then obtain j where j: "j < length ts" "AClose c \<in> set (ts ! j)" by (metis in_set_conv_nth)
  then have "AClose c \<in> set (ts[i := bs @ rest] ! j)" using False i by (cases "j = i") auto
  moreover have "ts[i := bs @ rest] ! j \<in> set (ts[i := bs @ rest])" using j(1) by simp
  ultimately show ?thesis unfolding dropped_def by auto
qed

lemma seated_act:
  assumes conf: "conf_inv plan9 (w, ts)" and i: "i < length ts" "ts ! i = a # rest"
    and st: "(bs, v) \<in> set (act_step plan9 done_err a w)" and seat: "seated (w, ts)"
  shows "seated (v, ts[i := bs @ rest])"
proof -
  note cs = conf_sound [OF conf i st]
  note inv = cs(1)
  have ok: "act_ok plan9 w {} a" using cs(2) by simp
  have gr: "grows w v" using cs(3) by (simp add: sound_def)
  obtain r where r: "all_held place ts = place a + r" "\<And>bs. all_held place (ts[i := bs @ rest]) = held place bs + r"
    using all_held_thread [OF i, of place] by blast
  obtain gone where g: "queued v + held place bs + gone = queued w + place a + made a w"
    and gone: "\<And>x. x \<in># gone \<Longrightarrow> AClose (snd x) \<in> set bs" using flow [OF inv ok st] by blast
  let ?s = "(w, ts)" and ?t = "(v, ts[i := bs @ rest])"
  have eq: "places ?t + gone = places ?s + made a w"
    using arg_cong [OF g, of "\<lambda>m. m + r"] by (simp add: places_def r add_ac)
  note ends = act_ends [OF inv st]
  from seat have old: "\<And>lid c. (lid, c) \<in># places ?s \<Longrightarrow> lid < next_lst w \<and> server_end w c \<and> LocalAddr (conns w c) = listener_Addr lid w"
    and one: "\<And>c. count (image_mset snd (places ?s)) c \<le> 1"
    and all: "\<And>c. server_end w c \<Longrightarrow> c \<in># image_mset snd (places ?s) \<or> dropped ?s c"
    unfolding seated_def by (simp_all, blast)
  have "lid < next_lst v \<and> server_end v c \<and> LocalAddr (conns v c) = listener_Addr lid v" if "(lid, c) \<in># places ?t" for lid c
  proof -
    from that eq have "(lid, c) \<in># places ?s \<or> (lid, c) \<in># made a w" by (metis union_iff)
    then show ?thesis
    proof
      assume "(lid, c) \<in># places ?s"
      with old [of lid c] act_listeners [OF inv ok st, of lid] grows_LocalAddr [OF gr, of c] ends [of c]
      show ?thesis by (simp add: server_end_def)
    next
      assume m: "(lid, c) \<in># made a w"
      then have "lid < next_lst w" using made_wire ok by fastforce
      moreover from m have "c \<in># image_mset snd (made a w)" by force
      ultimately show ?thesis
        using act_listeners [OF inv ok st, of lid] made_addr [OF inv st m] ends [of c] by simp
    qed
  qed
  moreover have "count (image_mset snd (places ?t)) c \<le> 1" for c
  proof -
    have sum: "count (image_mset snd (places ?t)) c + count (image_mset snd gone) c
        = count (image_mset snd (places ?s)) c + count (image_mset snd (made a w)) c"
      using arg_cong [OF eq, of "\<lambda>m. count (image_mset snd m) c"] by simp
    show ?thesis
    proof (cases "c \<in># image_mset snd (made a w)")
      case True
      then obtain lid where m: "(lid, c) \<in># made a w" by auto
      then have "c = Suc (next_conn w)" "count (image_mset snd (made a w)) c = 1" using made_wire by fastforce+
      moreover from this(1) have "c \<notin># image_mset snd (places ?s)" using old by (fastforce simp: server_end_def)
      then have "count (image_mset snd (places ?s)) c = 0" by (simp only: not_in_iff)
      ultimately show ?thesis using sum by linarith
    next
      case False
      then have "count (image_mset snd (made a w)) c = 0" by (simp only: not_in_iff)
      with sum one [of c] show ?thesis by linarith
    qed
  qed
  moreover have "c \<in># image_mset snd (places ?t) \<or> dropped ?t c" if "server_end v c" for c
  proof (cases "c \<in># image_mset snd (places ?s + made a w)")
    case True
    then have "c \<in># image_mset snd (places ?t) \<or> c \<in># image_mset snd gone" by (simp flip: eq)
    moreover have "dropped ?t c" if "c \<in># image_mset snd gone"
    proof -
      from that gone have "AClose c \<in> set (bs @ rest)" by auto
      moreover have "bs @ rest \<in> set (ts[i := bs @ rest])" using i(1) by (simp add: set_update_memI)
      ultimately show ?thesis unfolding dropped_def snd_conv by blast
    qed
    ultimately show ?thesis by blast
  next
    case False
    then have "server_end w c" "dropped ?s c" using that ends [of c] all [of c] by auto
    then show ?thesis using dropped_act [OF gr _ i st] by (auto simp: server_end_def)
  qed
  ultimately show ?thesis unfolding seated_def by auto
qed

lemma seated_env:
  assumes "seated (w, ts)" "lsts v = lsts w" "next_lst v = next_lst w" "next_conn v = next_conn w"
    and "\<And>c. c_side (conns v c) = c_side (conns w c)" "\<And>c. c_local (conns v c) = c_local (conns w c)"
      "\<And>c. c_closed (conns v c) = c_closed (conns w c)"
  shows "seated (v, ts)"
proof -
  have "places (v, ts) = places (w, ts)" "dropped (v, ts) = dropped (w, ts)" "server_end v = server_end w"
    using assms(2-7) by (auto simp: places_def queued_def queue_of_def dropped_def server_end_def)
  moreover have "LocalAddr (conns v c) = LocalAddr (conns w c)" "listener_Addr lid v = listener_Addr lid w" for c lid
    using assms(2,6) by (simp_all add: LocalAddr_def listener_Addr_def)
  ultimately show ?thesis using assms(1,3) unfolding seated_def by simp
qed

lemma always_seated: "reach conf_init (conf_step plan9) s \<Longrightarrow> seated s"
proof (induction rule: reach.induct)
  case (reach_init s)
  then obtain w where s: "s = (w, [])" and w: "world_init w" by (cases s) (auto simp: conf_init_def)
  have "live_inv w" by (rule init_live [OF w])
  moreover have "next_conn w = 0" using init_store [OF w] by simp
  ultimately have "queued w = {#}"
    unfolding queued_def queue_of_def using net_listener(2) [OF live_invD(5)] by (fastforce intro!: sum.neutral)
  with \<open>next_conn w = 0\<close> show ?case by (simp add: s seated_def places_def all_held_def server_end_def)
next
  case (reach_step s t)
  obtain w ts where s: "s = (w, ts)" by fastforce
  have conf: "conf_inv plan9 (w, ts)" using concurrent.reach_inv [OF reach_step.hyps(1)] by (simp add: s)
  from reach_step.hyps(2)[unfolded s] show ?case
  proof (cases rule: conf_step.cases)
    case (cs_call a)
    then have "place a = {#}" by (cases "(w, a)" rule: api_act.cases) simp_all
    with cs_call reach_step.IH show ?thesis
      by (auto simp: s seated_def places_def all_held_call dropped_def)
  next
    case (cs_act i a rest bs v done_err)
    with seated_act [OF conf] reach_step.IH show ?thesis by (simp add: s)
  qed (use reach_step.IH in \<open>auto simp: s intro!: seated_env [of w ts] split: if_splits\<close>)
qed

section \<open>Properties\<close>

lemma held_mem: "a \<in> set as \<Longrightarrow> f a \<subseteq># held f as"
  unfolding held_def by (auto dest: split_list simp: subset_mset.add_increasing2)

lemma all_held_two:
  assumes "i < length ts" "j < length ts" "i \<noteq> j"
  shows "held f (ts ! i) + held f (ts ! j) \<subseteq># all_held f ts"
proof -
  have "all_held f ts = (\<Sum>k < length ts. held f (ts ! k))"
    by (simp add: all_held_def sum_list_sum_nth atLeast0LessThan sum_mset_sum_list flip: mset_map)
  also have "\<dots> = held f (ts ! i) + (held f (ts ! j) + (\<Sum>k \<in> {..<length ts} - {i} - {j}. held f (ts ! k)))"
    using assms by (simp add: sum.remove [of _ i] sum.remove [of _ j])
  finally show ?thesis by (simp add: add.assoc [symmetric])
qed

text \<open>
  C8. A connection is accepted once, by the listener it was dialed to. In every interleaving of
  dials, accepts and closes, the acceptor end of every dial is waiting to be filled in, in the
  queue of one listener or handed to one \<open>Accept\<close>, or else it is closed or about to be; it is in
  no two of these places, so no two accepts return it and none returns it while it is queued; and
  the listener is the one whose address it has as its local address.
\<close>

theorem accepted_once:
  assumes "reach conf_init (conf_step plan9) (w, ts)" and "c < next_conn w" and "c_side (conns w c) = sideAcceptor"
  shows "((\<exists>lid. (lid, c) \<in># places (w, ts)) \<or> c_closed (conns w c) \<or> (\<exists>as \<in> set ts. AClose c \<in> set as))
    \<and> count (image_mset snd (places (w, ts))) c \<le> 1
    \<and> (\<forall>lid. (lid, c) \<in># places (w, ts) \<longrightarrow> lid < next_lst w \<and> LocalAddr (conns w c) = listener_Addr lid w)
    \<and> (\<forall>i j l m. i < length ts \<and> j < length ts \<and> AAccepted l (Accepted c) \<in> set (ts ! i)
          \<and> AAccepted m (Accepted c) \<in> set (ts ! j) \<longrightarrow> i = j)
    \<and> (\<forall>as \<in> set ts. \<forall>l m. AAccepted l (Accepted c) \<in> set as \<and> m < next_lst w \<longrightarrow> c \<notin> set (incoming (lsts w m)))"
proof -
  let ?s = "(w, ts)"
  have seat: "seated ?s" by (rule always_seated [OF assms(1)])
  then have one: "count (image_mset snd (places ?s)) c \<le> 1" unfolding seated_def by blast
  have 1: "(\<exists>lid. (lid, c) \<in># places ?s) \<or> dropped ?s c"
    using seat assms(2,3) unfolding seated_def server_end_def by fastforce
  have 2: "\<forall>lid. (lid, c) \<in># places ?s \<longrightarrow> lid < next_lst w \<and> LocalAddr (conns w c) = listener_Addr lid w"
    using seat unfolding seated_def by fastforce
  have twice: False if "{#x#} + {#y#} \<subseteq># places ?s" "snd x = c" "snd y = c" for x y
    using image_mset_subseteq_mono [OF that(1), of snd] that(2,3) one
      mset_subset_eq_count [of "{#c#} + {#c#}" "image_mset snd (places ?s)" c] by simp
  have 3: "i = j" if "i < length ts" "j < length ts" "AAccepted l (Accepted c) \<in> set (ts ! i)"
    "AAccepted m (Accepted c) \<in> set (ts ! j)" for i j l m
  proof (rule ccontr)
    assume "i \<noteq> j"
    from subset_mset.add_mono [OF held_mem [OF that(3), of place] held_mem [OF that(4), of place]]
      all_held_two [OF that(1,2) this, of place]
    have "{#(l, c)#} + {#(m, c)#} \<subseteq># all_held place ts"
      by (metis place.simps(2) subset_mset.order_trans)
    then show False using twice [of "(l, c)" "(m, c)"] by (simp add: places_def subset_mset.add_increasing)
  qed
  have 4: "c \<notin> set (incoming (lsts w m))" if "as \<in> set ts" "AAccepted l (Accepted c) \<in> set as" "m < next_lst w" for as l m
  proof
    assume "c \<in> set (incoming (lsts w m))"
    then have "(m, c) \<in># queued w" using that(3) by (simp add: queued_def queue_of_def sum.remove [of _ m])
    moreover have "(l, c) \<in># all_held place ts"
      using that(1) held_mem [OF that(2), of place] by (auto simp: all_held_def)
    ultimately show False
      using twice [of "(m, c)" "(l, c)"] subset_mset.add_mono [of "{#(m, c)#}" "queued w" "{#(l, c)#}" "all_held place ts"]
      by (simp add: places_def)
  qed
  have "(\<exists>lid. (lid, c) \<in># places ?s) \<or> c_closed (conns w c) \<or> (\<exists>as \<in> set ts. AClose c \<in> set as)"
    using 1 by (simp add: dropped_def)
  then show ?thesis using one 2 by (intro conjI allI ballI impI) (assumption | (elim conjE, rule 3, assumption+) | (elim conjE, rule 4, assumption+) | blast)+
qed

theorem accepted_once_witness:
  "\<exists>v. reach conf_init (conf_step False) (v, [[], [AResult (Dialed 0)], [AAccepted 0 (Accepted 1)]])
     \<and> LocalAddr (conns v 1) = listener_Addr 0 v"
proof -
  obtain v where v: "served v" "reach conf_init (conf_step False) (v, [[], [AResult (Dialed 0)]])"
    using dialed by blast
  have n: "next_conn v = 2" "next_lst v = 1" "c_side (conns v 1) = sideAcceptor" "c_side (conns v 0) = sideDialer"
    using v(1) by (auto simp: served_def newConn_def)
  have "(0, 1) \<in># places (v, [[], [AResult (Dialed 0)]])"
    using accepted_once [OF v(2), of 1] served_conns(7) [OF v(1)] n by auto
  then have "incoming (lsts v 0) \<noteq> []" by (auto simp: places_def queued_def queue_of_def all_held_def n)
  then obtain c cs where q: "incoming (lsts v 0) = c # cs" by (cases "incoming (lsts v 0)") auto
  then have "(0, c) \<in># places (v, [[], [AResult (Dialed 0)]])" by (simp add: places_def queued_def queue_of_def n)
  then have "server_end v c" using always_seated [OF v(2)] unfolding seated_def by fastforce
  then have c: "c = 1" using n by (cases "c = 0") (auto simp: server_end_def)
  let ?u = "v\<lparr>lsts := (lsts v)(0 := (lsts v 0)\<lparr>incoming := cs\<rparr>)\<rparr>"
  have "([AAccepted 0 (Accepted 1)], ?u) \<in> set (act_step False None (AAccept 0) v)"
    by (simp add: Accept_outcomes_def accept_outcomes_def q c)
  then have "conf_step False (v, [[], [AResult (Dialed 0)], [AAccept 0]]) (?u, [[], [AResult (Dialed 0)], [AAccepted 0 (Accepted 1)]])"
    using cs_act [of 2 "[[], [AResult (Dialed 0)], [AAccept 0]]" "AAccept 0" "[]"] by fastforce
  moreover have "reach conf_init (conf_step False) (v, [[], [AResult (Dialed 0)], [AAccept 0]])"
    using reach_call [OF v(2), of "AAccept 0"] by (simp add: n)
  ultimately have r: "reach conf_init (conf_step False) (?u, [[], [AResult (Dialed 0)], [AAccepted 0 (Accepted 1)]])"
    by (rule reach_step [rotated])
  have "(0, 1) \<in># places (?u, [[], [AResult (Dialed 0)], [AAccepted 0 (Accepted 1)]])"
    by (simp add: places_def all_held_def)
  with accepted_once [OF r, of 1, THEN conjunct2, THEN conjunct2, THEN conjunct1] n
  have "LocalAddr (conns ?u 1) = listener_Addr 0 ?u" by simp
  with r show ?thesis by blast
qed

end
