(* ===== verification/Listening.thy ===== *)
theory Listening
  imports Accepting
begin

text \<open>
  The listener table under concurrent use (\<open>src/listener.go\<close>, \<open>src/netchaos.go\<close>).
  \<open>listener.Close\<close> marks the listener closed before it takes \<open>n.mu\<close> to deregister it, so other
  calls can run in between: the theory counts the deregistrations still to come and shows that the
  table and the closed flags disagree only for the listeners those belong to.
\<close>

section \<open>The entry of a listener\<close>

definition listed :: "nat \<Rightarrow> world \<Rightarrow> bool" where
  "listed lid w \<longleftrightarrow> map_of (listeners w (peer (l_addr (lsts w lid)))) (port (l_addr (lsts w lid))) = Some lid"

text \<open>
  Most actions leave the table alone, and what it says of a listener; a new one is open and has its
  entry.
\<close>

definition keeps_listing :: "world \<Rightarrow> world \<Rightarrow> bool" where
  "keeps_listing w v \<longleftrightarrow> next_lst w \<le> next_lst v
     \<and> (\<forall>lid < next_lst w. l_closed (lsts v lid) = l_closed (lsts w lid) \<and> listed lid v = listed lid w)
     \<and> (\<forall>lid. next_lst w \<le> lid \<and> lid < next_lst v \<longrightarrow> \<not> l_closed (lsts v lid) \<and> listed lid v)"

lemma keeps_same: "lsts v = lsts w \<Longrightarrow> next_lst v = next_lst w \<Longrightarrow> listeners v = listeners w \<Longrightarrow> keeps_listing w v"
  by (auto simp: keeps_listing_def listed_def)

lemma keeps_lst:
  "l_closed l = l_closed (lsts w lid) \<Longrightarrow> l_addr l = l_addr (lsts w lid) \<Longrightarrow>
     keeps_listing w (w\<lparr>lsts := (lsts w)(lid := l)\<rparr>)"
  by (auto simp: keeps_listing_def listed_def)

lemma same_net_keeps: "same_net v w \<Longrightarrow> keeps_listing w v"
  by (simp add: same_net_def keeps_same)

lemma names_table [simp]:
  "listeners (snd (canonicalPeer h w)) = listeners w" "listeners (snd (dial_self ctx t w)) = listeners w"
  "listeners (snd (dial_resolve ctx network x w)) = listeners w" "listeners (snd (dial_local_ip t ordinal lid w)) = listeners w"
  by (auto simp: canonicalPeer_def dial_self_def dial_resolve_def dial_local_ip_def Let_def case_prod_beta
      split: option.split sum.split)

lemma setters_keep: "(bs, v) \<in> set (from_panic w (set_faults f w)) \<Longrightarrow> keeps_listing w v"
  by (cases "f (faults w)") (auto simp: from_panic_def set_faults_def intro!: keeps_same)

lemma quiet_sel: "quiet w v \<Longrightarrow> lsts v = lsts w \<and> next_lst v = next_lst w"
  by (simp add: quiet_def)

lemma register_keeps:
  assumes "lsts v = lsts w" "next_lst v = next_lst w" "listeners v = listeners w" "map_of (listeners w pr) p = None"
  shows "keeps_listing w (snd (register_listener network pr p i v))"
proof -
  have "listed lid w \<Longrightarrow> (peer (l_addr (lsts w lid)), port (l_addr (lsts w lid))) \<noteq> (pr, p)" for lid
    using assms(4) by (auto simp: listed_def)
  with assms(1-3) show ?thesis
    by (auto simp: keeps_listing_def register_listener_def listed_def newListener_def update_conv' less_Suc_eq_le Let_def
        simp del: map_of_eq_Some_iff)
qed

lemma listen_keeps: "keeps_listing w (snd (Listen network laddr w))"
proof -
  have at: "keeps_listing w (snd (listen_at network laddr pr p x v))"
    if "lsts v = lsts w" "next_lst v = next_lst w" "listeners v = listeners w" for pr p x v
    using that by (cases x)
      (auto simp: listen_at_def Let_def case_prod_beta split: option.split sum.split intro!: register_keeps intro: keeps_same)
  have "lsts (snd (canonicalPeer h u)) = lsts u" "next_lst (snd (canonicalPeer h u)) = next_lst u" for h u
    by (simp_all add: canonicalPeer_def case_prod_beta)
  then show ?thesis
    by (auto simp: Listen_def Let_def case_prod_beta intro!: at intro: keeps_same split: option.split sum.split)
qed

lemma act_keeps:
  assumes st: "(bs, v) \<in> set (act_step plan9 done_err a w)"
    and "\<And>lid. a \<noteq> ACloseListener lid" "\<And>lid. a \<noteq> ADelist lid"
  shows "keeps_listing w v"
proof (cases a)
  case (ARead len c pc)
  with act_read [OF st [unfolded ARead]] obtain pc' where "read_step plan9 len c pc w = (pc', v)" by blast
  with same_net_keeps [OF same_net_read [of plan9 len c pc w]] show ?thesis by simp
next
  case (AWrite data c pc)
  with act_write [of bs v] st same_net_keeps [OF same_net_write] show ?thesis by blast
next
  case (APair op x y)
  with st quiet_sel [OF quiet_canonical] show ?thesis
    by (auto simp: case_prod_beta intro!: keeps_same split: option.splits)
next
  case (APair2 op x y)
  with st quiet_sel [OF quiet_canonical] show ?thesis by (auto simp: case_prod_beta intro!: keeps_same)
next
  case (AListen network laddr)
  with st listen_keeps show ?thesis by simp
next
  case (AAccept lid)
  with st show ?thesis
    by (auto simp: Accept_outcomes_def accept_outcomes_def intro!: keeps_lst keeps_same split: list.splits if_splits)
next
  case (ADrain lid)
  with st show ?thesis by (auto intro!: keeps_lst keeps_same split: list.splits)
next
  case (AFill lid c)
  then obtain cs l where f: "fill c (lsts w lid) = Some (cs, l)" using st by (cases "fill c (lsts w lid)") auto
  with AFill st have "v = w\<lparr>lsts := (lsts w)(lid := l)\<rparr>" by simp
  with f show ?thesis by (auto simp: fill_def Let_def intro!: keeps_lst split: if_splits)
next
  case (AReserve t lid)
  with st have "v = w\<lparr>lsts := (lsts w)(lid := snd (reserve (lsts w lid)))\<rparr>" by (simp add: dial_reserve_def case_prod_beta)
  then show ?thesis by (simp add: keeps_lst reserve_def)
next
  case (ADial ctx network x)
  with st quiet_sel [OF quiet_dial(1)] show ?thesis by (auto simp: case_prod_beta intro!: keeps_same)
next
  case (ASelf ctx t)
  with st quiet_sel [OF quiet_dial(2)] show ?thesis by (auto simp: case_prod_beta intro!: keeps_same)
next
  case (AAddress t lid ordinal)
  with st quiet_sel [OF quiet_dial(4)] show ?thesis by (auto simp: case_prod_beta intro!: keeps_same)
next
  case (AWire t lid ordinal i)
  with st show ?thesis
    by (auto simp: dial_wire_def newConnPairWithSeedAndTrace_def registerReset_def Let_def case_prod_beta
        intro!: keeps_same)
next
  case (ASetLatency x y)
  with st show ?thesis by (auto simp: SetLatency_def intro: setters_keep)
next
  case (ASetLoss r)
  with st show ?thesis by (auto simp: SetPacketLoss_def intro: setters_keep)
next
  case (ASetDuplication r)
  with st show ?thesis by (auto simp: SetDuplication_def intro: setters_keep)
next
  case (ASetCorruption r)
  with st show ?thesis by (auto simp: SetCorruption_def intro: setters_keep)
qed (use assms in \<open>auto simp: signalReset_def deregisterReset_def registerTrace_def dial_ordinal_def
      intro!: keeps_same split: if_splits pair_op.splits\<close>)

section \<open>Open listeners stay in the table\<close>

fun delisting :: "act \<Rightarrow> nat multiset" where
  "delisting (ADelist lid) = {#lid#}"
| "delisting a = {#}"

lemma held_delisting [simp]:
  "held delisting (fail t e) = {#}" "held delisting (reset_acts ts) = {#}" "held delisting (map AClose cs) = {#}"
  by (simp_all add: fail_def reset_acts_def held_map) (induction ts, simp_all)

lemma delisting_other:
  assumes "(bs, v) \<in> set (act_step plan9 done_err a w)" "\<And>lid. a \<noteq> ACloseListener lid" "\<And>lid. a \<noteq> ADelist lid"
  shows "held delisting bs = {#} \<and> delisting a = {#}"
proof (cases a)
  case (APair3 op k)
  with assms(1) show ?thesis by (cases op) auto
next
  case (AGate t pc)
  with assms(1) show ?thesis by (auto split: gate_pc.splits)
qed (use assms in \<open>auto simp: Let_def case_prod_beta from_panic_def split: if_splits list.splits option.splits sum.splits\<close>)

text \<open>
  A closed listener still in the table has one \<open>Close\<close> that will take it out; all the others have
  theirs behind them.
\<close>

definition leaving :: "nat \<Rightarrow> world \<Rightarrow> nat" where
  "leaving lid w = (if lid < next_lst w \<and> l_closed (lsts w lid) \<and> listed lid w then 1 else 0)"

definition tabled :: "conf \<Rightarrow> bool" where
  "tabled s \<longleftrightarrow> (\<forall>lid < next_lst (fst s). \<not> l_closed (lsts (fst s) lid) \<longrightarrow> listed lid (fst s))
     \<and> (\<forall>lid. count (all_held delisting (snd s)) lid = leaving lid (fst s))"

lemma leaving_keeps: "keeps_listing w v \<Longrightarrow> leaving lid v = leaving lid w"
  unfolding keeps_listing_def leaving_def by (metis leI less_le_trans)

lemma tabled_keeps:
  assumes "tabled (w, ts)" "keeps_listing w v" "all_held delisting us = all_held delisting ts"
  shows "tabled (v, us)"
proof -
  have "count (all_held delisting us) lid = leaving lid v" for lid
    using assms(1,3) leaving_keeps [OF assms(2), of lid] by (simp add: tabled_def)
  moreover have "listed lid v" if "lid < next_lst v" "\<not> l_closed (lsts v lid)" for lid
    using assms(1,2) that unfolding tabled_def keeps_listing_def by (cases "lid < next_lst w") auto
  ultimately show ?thesis by (simp add: tabled_def)
qed

lemma tabled_act:
  assumes i: "i < length ts" "ts ! i = a # rest" and ok: "act_ok plan9 w {} a"
    and st: "(bs, v) \<in> set (act_step plan9 done_err a w)" and tab: "tabled (w, ts)"
  shows "tabled (v, ts[i := bs @ rest])"
proof -
  obtain r where r: "all_held delisting ts = delisting a + r"
    "\<And>bs. all_held delisting (ts[i := bs @ rest]) = held delisting bs + r"
    using all_held_thread [OF i, of delisting] by blast
  have opn: "\<And>lid. lid < next_lst w \<Longrightarrow> \<not> l_closed (lsts w lid) \<Longrightarrow> listed lid w"
    and cnt: "\<And>lid. count (delisting a + r) lid = leaving lid w"
    using tab by (auto simp: tabled_def r(1))
  consider (mark) lid where "a = ACloseListener lid" "\<not> l_closed (lsts w lid)"
    | (again) lid where "a = ACloseListener lid" "l_closed (lsts w lid)" | (delist) lid where "a = ADelist lid"
    | (other) "\<And>lid. a \<noteq> ACloseListener lid" "\<And>lid. a \<noteq> ADelist lid" by blast
  then show ?thesis
  proof cases
    case (mark lid)
    with st have bs: "bs = [ADelist lid, ADrain lid]" and v: "v = w\<lparr>lsts := (lsts w)(lid := (lsts w lid)\<lparr>l_closed := True\<rparr>)\<rparr>"
      by (simp_all add: listener_mark_closed_def)
    have l: "listed j v = listed j w" for j by (simp add: v listed_def)
    have "lid < next_lst w" using ok mark(1) by simp
    with opn mark(2) have "listed lid w" by blast
    have "leaving j v = (if j = lid then 1 else leaving j w)" for j
      using \<open>lid < next_lst w\<close> \<open>listed lid w\<close> l by (simp add: leaving_def) (simp add: v)
    moreover have "count r lid = 0" using cnt [of lid] mark by (simp add: leaving_def)
    moreover have "count r j = leaving j w" for j using cnt [of j] mark(1) by simp
    ultimately have "count (held delisting bs + r) j = leaving j v" for j
      by (cases "j = lid") (simp_all add: bs)
    moreover have "\<not> l_closed (lsts v j) \<Longrightarrow> j < next_lst v \<Longrightarrow> listed j v" for j
      using opn [of j] l by (simp add: v split: if_splits)
    ultimately show ?thesis by (simp add: tabled_def r(2))
  next
    case (again lid)
    with st have "v = w" "bs = []" by (auto simp: listener_mark_closed_def)
    with tab again r(1) r(2) [of "[]"] show ?thesis by (simp add: tabled_def)
  next
    case (delist lid)
    with st have bs: "bs = []" and v: "v = deregister (l_addr (lsts w lid)) w" by simp_all
    have "leaving lid w = 1" "count r lid = 0"
      using cnt [of lid] delist by (auto simp: leaving_def split: if_splits)
    then have lid: "l_closed (lsts w lid)" "listed lid w" by (auto simp: leaving_def split: if_splits)
    have l: "listed j v" if "listed j w" "j \<noteq> lid" for j
      using that lid(2) by (auto simp: v listed_def deregister_def delete_conv' restrict_map_def simp del: map_of_eq_Some_iff)
    have sel: "lsts v = lsts w" "next_lst v = next_lst w" by (simp_all add: v deregister_def)
    have u: "\<not> listed lid v"
      by (auto simp: v listed_def deregister_def delete_conv' restrict_map_def simp del: map_of_eq_Some_iff)
    have "count r j = leaving j v" for j
    proof (cases "j = lid")
      case True
      with \<open>count r lid = 0\<close> u show ?thesis by (simp add: leaving_def)
    next
      case False
      have "listed j w" if "listed j v"
        using that by (auto simp: v listed_def deregister_def delete_conv' restrict_map_def simp del: map_of_eq_Some_iff split: if_splits)
      with False l have "listed j v = listed j w" by blast
      with False cnt [of j] delist show ?thesis by (simp add: leaving_def sel)
    qed
    moreover have "\<not> l_closed (lsts v j) \<Longrightarrow> j < next_lst v \<Longrightarrow> listed j v" for j
      using opn [of j] l [of j] lid(1) sel by auto
    ultimately show ?thesis using r(2) [of "[]"] by (simp add: tabled_def bs)
  next
    case other
    from delisting_other [OF st other] r show ?thesis
      by (intro tabled_keeps [OF tab act_keeps [OF st other]]) simp
  qed
qed

lemma always_tabled: "reach conf_init (conf_step plan9) s \<Longrightarrow> tabled s"
proof (induction rule: reach.induct)
  case (reach_init s)
  then obtain now opts where "NewNetwork now opts = Inr (fst s)" "snd s = []" by (auto simp: conf_init_def world_init_def)
  from world_invD(3) [OF NewNetwork_inv [OF this(1)]] this(2) show ?case
    by (auto simp: tabled_def leaving_def listed_def all_held_def listeners_exact)
next
  case (reach_step s t)
  obtain w ts where s: "s = (w, ts)" by fastforce
  have conf: "conf_inv plan9 (w, ts)" using concurrent.reach_inv [OF reach_step.hyps(1)] by (simp add: s)
  from reach_step.hyps(2)[unfolded s] show ?case
  proof (cases rule: conf_step.cases)
    case (cs_call a)
    then have "delisting a = {#}" by (cases "(w, a)" rule: api_act.cases) simp_all
    with cs_call reach_step.IH show ?thesis by (simp add: s tabled_def all_held_call)
  next
    case (cs_act i a rest bs v done_err)
    have "act_ok plan9 w {} a" using conf_sound(2) [OF conf cs_act(2,3,4)] by simp
    with tabled_act [OF cs_act(2,3) _ cs_act(4)] reach_step.IH cs_act(1) show ?thesis by (simp add: s)
  qed (use reach_step.IH in \<open>auto simp: s intro!: tabled_keeps [of w ts] keeps_same\<close>)
qed

section \<open>Properties\<close>

text \<open>
  C9. An open listener can always be reached. In every interleaving, an open listener is registered
  under its own peer and port, so no two open listeners share them and a \<open>Listen\<close> on them is
  refused; whatever is registered is a listener under its own peer and port; and one that is
  closed already is being taken out by exactly the call that closed it.
\<close>

theorem open_listeners_registered:
  assumes "reach conf_init (conf_step plan9) (w, ts)"
  shows "(\<forall>lid < next_lst w. \<not> l_closed (lsts w lid) \<longrightarrow>
        map_of (listeners w (peer (l_addr (lsts w lid)))) (port (l_addr (lsts w lid))) = Some lid)
    \<and> (\<forall>i < next_lst w. \<forall>j < next_lst w. \<not> l_closed (lsts w i) \<and> \<not> l_closed (lsts w j)
          \<and> peer (l_addr (lsts w i)) = peer (l_addr (lsts w j)) \<and> port (l_addr (lsts w i)) = port (l_addr (lsts w j)) \<longrightarrow> i = j)
    \<and> (\<forall>pr p lid. map_of (listeners w pr) p = Some lid \<longrightarrow>
        lid < next_lst w \<and> peer (l_addr (lsts w lid)) = pr \<and> port (l_addr (lsts w lid)) = p
        \<and> (\<not> l_closed (lsts w lid) \<or> (\<exists>as \<in> set ts. ADelist lid \<in> set as)))
    \<and> (\<forall>lid. count (all_held delisting ts) lid \<le> 1)"
proof -
  have tab: "tabled (w, ts)" by (rule always_tabled [OF assms])
  have net: "listeners_inv False w"
    using concurrent.reach_inv [OF assms] live_invD(5) by (simp add: conf_inv_def net_inv_def)
  have opn: "\<forall>lid < next_lst w. \<not> l_closed (lsts w lid) \<longrightarrow>
        map_of (listeners w (peer (l_addr (lsts w lid)))) (port (l_addr (lsts w lid))) = Some lid"
    using tab unfolding tabled_def listed_def by simp
  moreover have "i = j" if "i < next_lst w" "j < next_lst w" "\<not> l_closed (lsts w i)" "\<not> l_closed (lsts w j)"
    "peer (l_addr (lsts w i)) = peer (l_addr (lsts w j))" "port (l_addr (lsts w i)) = port (l_addr (lsts w j))" for i j
  proof -
    have "Some i = Some j" using opn that by metis
    then show ?thesis by simp
  qed
  moreover have "lid < next_lst w \<and> peer (l_addr (lsts w lid)) = pr \<and> port (l_addr (lsts w lid)) = p
      \<and> (\<not> l_closed (lsts w lid) \<or> (\<exists>as \<in> set ts. ADelist lid \<in> set as))"
    if m: "map_of (listeners w pr) p = Some lid" for pr p lid
  proof -
    have k: "lid < next_lst w" "peer (l_addr (lsts w lid)) = pr" "port (l_addr (lsts w lid)) = p"
      using net m unfolding listeners_inv_def by blast+
    have "\<exists>as \<in> set ts. ADelist lid \<in> set as" if "l_closed (lsts w lid)"
    proof -
      have "count (all_held delisting ts) lid = 1" using tab that k m by (simp add: tabled_def leaving_def listed_def)
      then have "lid \<in># all_held delisting ts" by (simp flip: count_greater_zero_iff)
      then obtain as a where "as \<in> set ts" "a \<in> set as" "lid \<in># delisting a"
        by (auto simp: all_held_def held_def)
      then show ?thesis by (cases a rule: delisting.cases) auto
    qed
    with k show ?thesis by blast
  qed
  moreover have "count (all_held delisting ts) lid \<le> 1" for lid
    using tab by (simp add: tabled_def leaving_def)
  ultimately show ?thesis by blast
qed

theorem open_listeners_registered_witness:
  "\<exists>w. reach conf_init (conf_step False) (w, [[], [ADelist 0, ADrain 0]]) \<and> l_closed (lsts w 0)
     \<and> map_of (listeners w ''s'') 80 = Some 0"
proof -
  let ?w = "net1\<lparr>lsts := (lsts net1)(0 := (lsts net1 0)\<lparr>l_closed := True\<rparr>)\<rparr>"
  have "reach conf_init (conf_step False) (net1, [[], [ACloseListener 0]])"
    using reach_call [OF listening, of "ACloseListener 0"] by (simp add: net1_sel)
  moreover have "([ADelist 0, ADrain 0], ?w) \<in> set (act_step False None (ACloseListener 0) net1)"
    by (simp add: listener_mark_closed_def net1_sel newListener_def)
  then have "conf_step False (net1, [[], [ACloseListener 0]]) (?w, [[], [ADelist 0, ADrain 0]])"
    using cs_act [of 1 "[[], [ACloseListener 0]]" "ACloseListener 0" "[]"] by fastforce
  ultimately have r: "reach conf_init (conf_step False) (?w, [[], [ADelist 0, ADrain 0]])" by (rule reach_step)
  have m: "map_of (listeners ?w ''s'') 80 = Some 0" by (simp add: net1_sel)
  from open_listeners_registered [OF r, THEN conjunct2, THEN conjunct2, THEN conjunct1, THEN spec, THEN spec, THEN spec, THEN mp, OF m] r m
  show ?thesis by (intro exI [of _ ?w]) simp
qed

end
