(* ===== verification/Reproduce.thy ===== *)
theory Reproduce
  imports Streams
begin

text \<open>
  The public trace of a network whose calls interleave is reproducible: it depends on the seed and
  on the writes each direction accepted, and not on the schedule.
\<close>

section \<open>What a trace handle stands for\<close>

text \<open>A recorder is registered, or about to be, under the ordinal and side of the end that writes it.\<close>

definition handle_ok :: "world \<Rightarrow> u64 \<times> connSide \<times> nat \<Rightarrow> bool" where
  "handle_ok w h = (case h of (ordinal, side, i) \<Rightarrow>
     i < next_conn w \<and> c_ordinal (conns w i) = ordinal \<and> c_side (conns w i) = side)"

definition tracked :: "conf \<Rightarrow> bool" where
  "tracked s \<longleftrightarrow> (\<forall>h \<in> set (traces (fst s)). handle_ok (fst s) h)
     \<and> (\<forall>as \<in> set (snd s). \<forall>ordinal side i. ATrace ordinal side i \<in> set as \<longrightarrow> handle_ok (fst s) (ordinal, side, i))"

lemma no_trace_fail [simp]: "ATrace ordinal side r \<notin> set (fail t e)" "ATrace ordinal side r \<notin> set (reset_acts ts)"
  by (auto simp: fail_def reset_acts_def)

lemma trace_from_wire:
  assumes "(bs, v) \<in> set (act_step plan9 done_err a w)" "ATrace ordinal side r \<in> set bs"
  shows "\<exists>t lid o' i. a = AWire t lid o' i"
proof (cases a)
  case (APair3 op k)
  with assms show ?thesis by (cases op) auto
next
  case (AGate t pc)
  with assms show ?thesis by (auto split: gate_pc.splits)
qed (use assms in \<open>auto simp: Let_def case_prod_beta from_panic_def split: if_splits list.splits option.splits sum.splits\<close>)

lemma handle_ok_act:
  assumes inv: "live_inv w" and st: "(bs, v) \<in> set (act_step plan9 done_err a w)" and h: "handle_ok w h"
  shows "handle_ok v h"
proof (cases a rule: act_kinds)
  case (wire t lid ordinal i)
  obtain client server u where dw: "dial_wire t ordinal i lid w = ((client, server), u)" by (metis surj_pair)
  note eff = dial_wire_effect [OF live_invD(1) [OF inv] dw]
  from wire dw st have "v = u" by simp
  with h show ?thesis by (auto simp: handle_ok_def eff(1,2,3,6))
next
  case other
  from calm_act [OF st other] h show ?thesis by (auto simp: handle_ok_def calm_def)
qed (use st h in \<open>auto simp: handle_ok_def dial_ordinal_def registerTrace_def\<close>)

lemma tracked_act:
  assumes inv: "live_inv w" and i: "i < length ts" "ts ! i = a # rest"
    and st: "(bs, v) \<in> set (act_step plan9 done_err a w)" and tr: "tracked (w, ts)"
  shows "tracked (v, ts[i := bs @ rest])"
proof -
  note keep = handle_ok_act [OF inv st]
  have mem: "a # rest \<in> set ts" using i nth_mem by metis
  have new: "handle_ok v (ordinal, side, r)" if "ATrace ordinal side r \<in> set bs" for ordinal side r
  proof -
    from trace_from_wire [OF st that] obtain t lid o' ip' where a: "a = AWire t lid o' ip'" by blast
    obtain client server u where dw: "dial_wire t o' ip' lid w = ((client, server), u)" by (metis surj_pair)
    note eff = dial_wire_effect [OF live_invD(1) [OF inv] dw]
    from a dw st that show ?thesis
      by (auto simp: handle_ok_def eff(1,2,3,6) newConn_def split: if_splits)
  qed
  have "handle_ok v h" if "h \<in> set (traces v)" for h
  proof (cases "h \<in> set (traces w)")
    case True
    with tr keep show ?thesis by (simp add: tracked_def)
  next
    case False
    show ?thesis
    proof (cases a rule: act_kinds)
      case (wire t lid ordinal j)
      with st that False wire_frame(1) [of t ordinal j lid w] show ?thesis by (auto simp: case_prod_beta)
    next
      case (trace ordinal side r)
      with st that False have "h = (ordinal, side, r)" by (auto simp: registerTrace_def)
      with tr mem trace have "handle_ok w h" by (auto simp: tracked_def)
      then show ?thesis by (rule keep)
    next
      case other
      from calm_act [OF st other] that False show ?thesis by (simp add: calm_def)
    qed (use st that False in \<open>auto simp: dial_ordinal_def\<close>)
  qed
  moreover have "handle_ok v (ordinal, side, r)"
    if "as \<in> set (ts[i := bs @ rest])" "ATrace ordinal side r \<in> set as" for as ordinal side r
  proof -
    from that(1) have "as = bs @ rest \<or> as \<in> set ts" using set_update_subset_insert [of ts i "bs @ rest"] by blast
    with that(2) mem have "ATrace ordinal side r \<in> set bs \<or> (\<exists>as \<in> set ts. ATrace ordinal side r \<in> set as)" by fastforce
    with new tr keep show ?thesis unfolding tracked_def by fastforce
  qed
  ultimately show ?thesis unfolding tracked_def by simp
qed

lemma always_tracked: "reach conf_init (conf_step plan9) s \<Longrightarrow> tracked s"
proof (induction rule: reach.induct)
  case (reach_init s)
  then show ?case using init_store by (auto simp: conf_init_def tracked_def)
next
  case (reach_step s t)
  obtain w ts where s: "s = (w, ts)" by fastforce
  have inv: "live_inv w" using concurrent.reach_inv [OF reach_step.hyps(1)] by (simp add: conf_inv_def s)
  from reach_step.hyps(2)[unfolded s] show ?case
  proof (cases rule: conf_step_kinds)
    case (act i a rest bs v done_err)
    with tracked_act [OF inv] reach_step.IH show ?thesis by (simp add: s)
  next
    case (call a)
    have "a \<noteq> ATrace ordinal side r" for ordinal side r using call(1) by auto
    with call reach_step.IH show ?thesis by (auto simp: s tracked_def)
  next
    case (env v)
    then have "handle_ok v = handle_ok w" "traces v = traces w" by (auto simp: calm_def handle_ok_def fun_eq_iff)
    with env reach_step.IH show ?thesis by (simp add: s tracked_def)
  qed
qed

section \<open>Properties\<close>

text \<open>
  The accepted writes a direction may have seen, as far as its draws go: some run of its
  operations led from the pipe the dial made to the pipe there is now.
\<close>

definition draw_history :: "world \<Rightarrow> nat \<Rightarrow> drawInput list \<Rightarrow> bool" where
  "draw_history w c is \<longleftrightarrow> (\<exists>ls. run_steps pipe_step ls (fresh_direction w c) = Some (pipes w c)
     \<and> is = collect pipe_step draw_inputs ls (fresh_direction w c))"

lemma draw_history_abs:
  "draw_history w c is \<Longrightarrow> run_steps draw_unit is (draw_abs (fresh_direction w c)) = Some (draw_abs (pipes w c))"
  unfolding draw_history_def using pipe_draws.run_refines by blast

lemma fresh_direction_draws:
  assumes "seed v = seed w" "w_traceEnabled v = w_traceEnabled w"
    "c_ordinal (conns v j) = c_ordinal (conns w i)" "c_side (conns v j) = c_side (conns w i)"
  shows "draw_abs (fresh_direction v j) = draw_abs (fresh_direction w i)"
  using assms by (simp add: draw_abs_def fresh_direction_def installFaultPolicy_def directionPipe_def)

text \<open>A public event without the two fields that are measured on the clock.\<close>

definition drawn_part :: "FaultEvent \<Rightarrow> FaultEvent" where
  "drawn_part e = e\<lparr>fe_Serialization := 0, fe_Effective := 0\<rparr>"

lemma drawn_part_publish: "drawn_part (publish ordinal side e) = publish ordinal side (draw_view e)"
  by (simp add: drawn_part_def publish_def draw_view_def)

lemma handle_events_drawn:
  assumes "draw_abs (pipes v j) = draw_abs (pipes w i)"
  shows "map drawn_part (handle_events v (ordinal, side, j)) = map drawn_part (handle_events w (ordinal, side, i))"
proof -
  from assms have "map_option (map draw_view) (trace (pipes v j)) = map_option (map draw_view) (trace (pipes w i))"
    by (simp add: draw_abs_def)
  then have "map draw_view (snapshot v j) = map draw_view (snapshot w i)"
    by (auto simp: snapshot_def split: option.splits)
  then have "map (publish ordinal side) (map draw_view (snapshot v j)) = map (publish ordinal side) (map draw_view (snapshot w i))"
    by simp
  then show ?thesis by (simp add: handle_events_def drawn_part_publish comp_def)
qed

lemma concat_drawn:
  assumes "map handle_key hs = map handle_key gs"
    and "\<And>h g. h \<in> set hs \<Longrightarrow> g \<in> set gs \<Longrightarrow> handle_key h = handle_key g \<Longrightarrow>
      map drawn_part (handle_events v h) = map drawn_part (handle_events w g)"
  shows "map drawn_part (concat (map (handle_events v) hs)) = map drawn_part (concat (map (handle_events w) gs))"
  using assms
proof (induction hs arbitrary: gs)
  case (Cons h hs)
  then obtain g gs' where g: "gs = g # gs'" "handle_key h = handle_key g" "map handle_key hs = map handle_key gs'"
    by (cases gs) auto
  then show ?case using Cons.IH [OF g(3)] Cons.prems(2) by simp
qed simp

text \<open>
  C7. A run is reproducible from its seed. Take two networks in which calls interleaved in any way
  whatever, with the same seed, whose traced directions are the same: if every direction accepted
  the same writes in both, as far as its draws see them (for each write: was the pair partitioned,
  what were the drawing faults set to, how long was it), the two public traces are equal but for
  the two fields measured on the clock, and the streams of every direction stand at the same place,
  so that it will go on drawing the same. The order in which dials, accepts, reads and timers
  came, the instants, the connection and thread numbers and the bytes written make no difference.
\<close>

theorem reproducible:
  assumes "reach conf_init (conf_step plan9) (v, ts)" and "reach conf_init (conf_step plan9) (w, us)"
    and "seed v = seed w" and "w_traceEnabled v = w_traceEnabled w"
    and "mset (map handle_key (traces v)) = mset (map handle_key (traces w))"
    and "\<And>ordinal side i j. (ordinal, side, j) \<in> set (traces v) \<Longrightarrow> (ordinal, side, i) \<in> set (traces w) \<Longrightarrow>
      \<exists>is. draw_history v j is \<and> draw_history w i is"
  shows "map drawn_part (Network_Trace v) = map drawn_part (Network_Trace w)
    \<and> (\<forall>ordinal side i j k. (ordinal, side, j) \<in> set (traces v) \<and> (ordinal, side, i) \<in> set (traces w) \<longrightarrow>
         stream_of k (pipes v j) = stream_of k (pipes w i))"
proof -
  have same: "draw_abs (pipes v j) = draw_abs (pipes w i)"
    if h: "(ordinal, side, j) \<in> set (traces v)" "(ordinal, side, i) \<in> set (traces w)" for ordinal side i j
  proof -
    have "handle_ok v (ordinal, side, j)" "handle_ok w (ordinal, side, i)"
      using always_tracked [OF assms(1)] always_tracked [OF assms(2)] h by (simp_all add: tracked_def)
    then have "draw_abs (fresh_direction v j) = draw_abs (fresh_direction w i)"
      by (intro fresh_direction_draws assms(3,4)) (simp_all add: handle_ok_def)
    moreover from assms(6) [OF h] obtain "is" where "draw_history v j is" "draw_history w i is" by blast
    note draw_history_abs [OF this(1)] draw_history_abs [OF this(2)]
    ultimately show ?thesis by simp
  qed
  have "map drawn_part (concat (map (handle_events v) (sort_key handle_key (traces v))))
      = map drawn_part (concat (map (handle_events w) (sort_key handle_key (traces w))))"
  proof (rule concat_drawn)
    have "map handle_key (sort_key handle_key hs) = sort (map handle_key hs)" for hs
      by (rule properties_for_sort [symmetric]) simp_all
    moreover have "sort (map handle_key (traces v)) = sort (map handle_key (traces w))"
      by (rule properties_for_sort) (simp_all add: assms(5) [simplified])
    ultimately show "map handle_key (sort_key handle_key (traces v)) = map handle_key (sort_key handle_key (traces w))"
      by simp
    fix h g
    assume "h \<in> set (sort_key handle_key (traces v))" "g \<in> set (sort_key handle_key (traces w))" "handle_key h = handle_key g"
    then have "h \<in> set (traces v)" "g \<in> set (traces w)" and key: "fst h = fst g" "fst (snd h) = fst (snd g)"
      by (simp_all add: handle_key_def)
    then have h: "(fst h, fst (snd h), snd (snd h)) \<in> set (traces v)" and g: "g = (fst h, fst (snd h), snd (snd g))"
      and "g \<in> set (traces w)" using key by (metis prod.collapse)+
    then have "(fst h, fst (snd h), snd (snd g)) \<in> set (traces w)" by metis
    from handle_events_drawn [OF same [OF h this], of "fst h" "fst (snd h)"] g
    show "map drawn_part (handle_events v h) = map drawn_part (handle_events w g)" by simp
  qed
  then have "map drawn_part (Network_Trace v) = map drawn_part (Network_Trace w)"
    by (simp add: Network_Trace_eq assms(4))
  moreover have "stream_of k (pipes v j) = stream_of k (pipes w i)"
    if "(ordinal, side, j) \<in> set (traces v)" "(ordinal, side, i) \<in> set (traces w)" for ordinal side i j k
    using same [OF that] by (cases k) (simp_all add: draw_abs_def)
  ultimately show ?thesis by blast
qed

text \<open>A write on a direction whose faults are off, and a call that makes it.\<close>

lemma plain_write:
  assumes "deliver p = FaultEvaluator fp" "fp_network fp" "env_faults e = noFaults" "partitions (env_parts e) = {}"
    "\<not> p_closed p" "\<not> readClosed p" "bufBytes p = 0"
  shows "\<exists>q. tryWrite e data p = Some (Done (length data) None, q)"
  using assms
  by (simp add: tryWrite_def run_deliver_def evaluate_def isPartitioned_def current_config_def noFaults_def draw_decision_def
      draw_bernoulli_def draw_latency_def transmit_def corrupt_unit_def throttle_def Let_def)

lemma solo_writing:
  "write_step plan9 data c pc w = Some (pc', v) \<Longrightarrow> pc' \<noteq> pc \<Longrightarrow> solo plan9 ([AWrite data c pc'], v) t \<Longrightarrow>
     solo plan9 ([AWrite data c pc], w) t"
  by (intro solo_act [where bs = "[AWrite data c pc']" and v = v]) auto

lemma solo_write:
  assumes "\<not> c_closed (conns w c)" "\<not> c_reset (conns w c)" "wd (conns w c) = newDeadline" "writePipe (conns w c) = i"
    "tryWrite (env_of w) data (pipes w i) = Some (Done n None, q)"
  shows "solo plan9 ([AWrite data c AtClosed], w) ([AWrite data c (Returned n None)], upd_pipe i (\<lambda>_. q) w)"
  by (intro solo_writing [of plan9 data c AtClosed w AtReset w] solo_writing [of plan9 data c AtReset w AtChannel w]
      solo_writing [of plan9 data c AtChannel w "AtExpired 0" w] solo_writing [of plan9 data c "AtExpired 0" w "AtTry 0" w]
      solo_writing [of plan9 data c "AtTry 0" w "Returned n None" "upd_pipe i (\<lambda>_. q) w"])
    (simp_all add: assms newDeadline_def deadline_channel_def expired_def solo_stop)

lemma some_history:
  assumes "reach conf_init (conf_step plan9) (w, ts)" "c < next_conn w"
  shows "\<exists>is. draw_history w c is"
  using always_lifted [OF assms(1)] assms(2) unfolding lifted_def advances_def draw_history_def by fastforce

lemma history_write:
  assumes "draw_history v c is" "tryWrite e data (pipes v c) = Some (Done n None, q)" "deliver (pipes v c) = FaultEvaluator fp"
    "partitions (env_parts e) = {}" "fp_network fp" "env_faults e = noFaults"
  shows "draw_history (upd_pipe c (\<lambda>_. q) (v\<lparr>clock := t\<rparr>)) c
    (is @ [\<lparr>in_partitioned = False, in_faults = drawing noFaults, in_len = length data\<rparr>])"
proof -
  let ?u = "upd_pipe c (\<lambda>_. q) (v\<lparr>clock := t\<rparr>)"
  from assms(1) obtain ls where ls: "run_steps pipe_step ls (fresh_direction v c) = Some (pipes v c)"
    "is = collect pipe_step draw_inputs ls (fresh_direction v c)" by (auto simp: draw_history_def)
  have f: "fresh_direction ?u c = fresh_direction v c" by (simp add: fresh_direction_def)
  show ?thesis
    unfolding draw_history_def f
    by (rule exI [of _ "ls @ [(e, OpWrite data)]"])
      (simp add: run_steps_append collect_append ls assms(2-) isPartitioned_def current_config_def)
qed

lemma served_write:
  assumes "served v" "reach conf_init (conf_step plan9) (v, [[], [AResult (Dialed 0)]])" "0 \<le> t" "draw_history v 0 is"
  shows "\<exists>q. reach conf_init (conf_step plan9) (upd_pipe 0 (\<lambda>_. q) (v\<lparr>clock := t\<rparr>),
          [[], [AResult (Dialed 0)], [AWrite data 0 (Returned (length data) None)]])
     \<and> draw_history (upd_pipe 0 (\<lambda>_. q) (v\<lparr>clock := t\<rparr>)) 0
          (is @ [\<lparr>in_partitioned = False, in_faults = drawing noFaults, in_len = length data\<rparr>])"
proof -
  let ?w = "v\<lparr>clock := t\<rparr>" and ?e = "env_of (v\<lparr>clock := t\<rparr>)"
  let ?p = "dialed_pipe tgt 0 sideDialer net1"
  have sv: "next_conn v = 2" "pipes v 0 = ?p" "clock v = 0" "faults v = noFaults" "partitions (parts v) = {}"
    "writePipe (conns v 0) = 0" "wd (conns v 0) = newDeadline" "\<not> c_closed (conns v 0)" "\<not> c_reset (conns v 0)"
    using assms(1) by (auto simp: served_def newConn_def)
  have dp: "deliver ?p = FaultEvaluator (dial_policy tgt 0)" "bufBytes ?p = 0"
    by (simp_all add: dialed_pipe_def installFaultPolicy_def directionPipe_def newPipe_def)
  obtain q where q: "tryWrite ?e data ?p = Some (Done (length data) None, q)"
    using plain_write [OF dp(1), of ?e data] sv by (auto simp: dp(2) dial_policy_def env_of_def fresh_pipe)
  have "conf_step plan9 (v, [[], [AResult (Dialed 0)]]) (?w, [[], [AResult (Dialed 0)]])"
    by (rule cs_tick) (simp add: sv assms(3))
  then have r: "reach conf_init (conf_step plan9) (?w, [[], [AResult (Dialed 0)]])" by (rule reach_step [OF assms(2)])
  have "solo plan9 ([AWrite data 0 AtClosed], ?w) ([AWrite data 0 (Returned (length data) None)], upd_pipe 0 (\<lambda>_. q) ?w)"
    by (rule solo_write) (simp_all add: sv q)
  from run_alone [OF r _ this] have "reach conf_init (conf_step plan9) (upd_pipe 0 (\<lambda>_. q) ?w,
      [[], [AResult (Dialed 0)], [AWrite data 0 (Returned (length data) None)]])" by (simp add: sv)
  moreover have "draw_history (upd_pipe 0 (\<lambda>_. q) ?w) 0
      (is @ [\<lparr>in_partitioned = False, in_faults = drawing noFaults, in_len = length data\<rparr>])"
    by (rule history_write [OF assms(4), of ?e data "length data" q "dial_policy tgt 0"])
      (simp_all add: sv(2) q dp, simp_all add: sv env_of_def dial_policy_def)
  ultimately show ?thesis by blast
qed

theorem reproducible_witness:
  "\<exists>v w. reach conf_init (conf_step False) (v, [[], [AResult (Dialed 0)], [AWrite [1, 2, 3] 0 (Returned 3 None)]])
     \<and> reach conf_init (conf_step False) (w, [[], [AResult (Dialed 0)], [AWrite [7, 8, 9] 0 (Returned 3 None)]])
     \<and> clock v = 0 \<and> clock w = 50 \<and> map drawn_part (Network_Trace v) = map drawn_part (Network_Trace w)"
proof -
  obtain u where u: "served u" "reach conf_init (conf_step False) (u, [[], [AResult (Dialed 0)]])"
    using dialed by blast
  have n: "next_conn u = 2" "traces u = [(0, sideDialer, 0), (0, sideAcceptor, 1)]" using u(1) by (simp_all add: served_def)
  obtain h0 h1 where h: "draw_history u 0 h0" "draw_history u 1 h1"
    using some_history [OF u(2), of 0] some_history [OF u(2), of 1] n by auto
  obtain p where p: "reach conf_init (conf_step False) (upd_pipe 0 (\<lambda>_. p) (u\<lparr>clock := 0\<rparr>),
        [[], [AResult (Dialed 0)], [AWrite [1, 2, 3] 0 (Returned 3 None)]])"
    "draw_history (upd_pipe 0 (\<lambda>_. p) (u\<lparr>clock := 0\<rparr>)) 0 (h0 @ [\<lparr>in_partitioned = False, in_faults = drawing noFaults, in_len = 3\<rparr>])"
    using served_write [OF u, of 0 h0 "[1, 2, 3]"] h by (auto simp: numeral_3_eq_3)
  obtain q where q: "reach conf_init (conf_step False) (upd_pipe 0 (\<lambda>_. q) (u\<lparr>clock := 50\<rparr>),
        [[], [AResult (Dialed 0)], [AWrite [7, 8, 9] 0 (Returned 3 None)]])"
    "draw_history (upd_pipe 0 (\<lambda>_. q) (u\<lparr>clock := 50\<rparr>)) 0 (h0 @ [\<lparr>in_partitioned = False, in_faults = drawing noFaults, in_len = 3\<rparr>])"
    using served_write [OF u, of 50 h0 "[7, 8, 9]"] h by (auto simp: numeral_3_eq_3)
  let ?v = "upd_pipe 0 (\<lambda>_. p) (u\<lparr>clock := 0\<rparr>)" and ?w = "upd_pipe 0 (\<lambda>_. q) (u\<lparr>clock := 50\<rparr>)"
  have h1: "draw_history ?v 1 h1" "draw_history ?w 1 h1" using h(2) by (simp_all add: draw_history_def fresh_direction_def)
  have "map drawn_part (Network_Trace ?v) = map drawn_part (Network_Trace ?w)
    \<and> (\<forall>ordinal side i j k. (ordinal, side, j) \<in> set (traces ?v) \<and> (ordinal, side, i) \<in> set (traces ?w) \<longrightarrow>
         stream_of k (pipes ?v j) = stream_of k (pipes ?w i))"
  proof (rule reproducible [OF p(1) q(1)])
    show "\<exists>is. draw_history ?v j is \<and> draw_history ?w i is"
      if "(ordinal, side, j) \<in> set (traces ?v)" "(ordinal, side, i) \<in> set (traces ?w)" for ordinal side i j
      using that p(2) q(2) h1 by (auto simp: n)
  qed simp_all
  with p(1) q(1) show ?thesis by (intro exI [of _ ?v] exI [of _ ?w]) simp
qed

end
