(* ===== verification/Settings.thy ===== *)
theory Settings
  imports Examples
begin

text \<open>
  The settings of a network: the options \<open>NewNetwork\<close> is given, one after another, against the
  setters of a running network.
\<close>

section \<open>Options in a row\<close>

lemma applyOptions_append:
  "applyOptions i (xs @ ys) c =
     (case applyOptions i xs c of Inl p \<Rightarrow> Inl p | Inr d \<Rightarrow> applyOptions (i + length xs) ys d)"
  by (induction i xs c rule: applyOptions.induct) (simp_all split: sum.split)

lemma applyOptions_Inr: "applyOptions i xs c = Inr d \<Longrightarrow> None \<notin> set xs"
  by (induction i xs c rule: applyOptions.induct) auto

text \<open>What the network is made of, once the options are applied and found valid.\<close>

definition config_ok :: "networkConfig \<Rightarrow> bool" where
  "config_ok c \<longleftrightarrow> faults_ok c \<and> (pipeBoundEnabled c \<longrightarrow> 0 < cfg_pipeBound c)
     \<and> (listenerBacklogEnabled c \<longrightarrow> 0 < cfg_listenerBacklog c)
     \<and> (\<forall>pp \<in> set (staticPartitions c). validatePartitionPair ''WithPartition'' pp = None)"

lemma config_ok_validate: "config_validate c = None \<longleftrightarrow> config_ok c"
  by (simp add: config_validate_None config_ok_def validate_None)

definition build :: "time \<Rightarrow> networkConfig \<Rightarrow> world" where
  "build now c = fold addStaticPartition (staticPartitions c) (emptyWorld now c)"

lemma NewNetwork_Inr:
  "NewNetwork now opts = Inr w \<longleftrightarrow> (\<exists>c. applyOptions 0 opts initialConfig = Inr c \<and> config_ok c \<and> w = build now c)"
  by (auto simp: NewNetwork_def build_def simp flip: config_ok_validate split: sum.splits option.splits)

lemma NewNetwork_append:
  assumes "applyOptions 0 opts initialConfig = Inr c"
  shows "NewNetwork now (opts @ [Some f]) = Inr v \<longleftrightarrow> config_ok (f c) \<and> v = build now (f c)"
  using assms by (auto simp: NewNetwork_Inr applyOptions_append)

text \<open>The static partitions see neither the faults nor the bounds.\<close>

lemma static_faults:
  "fold addStaticPartition ps (w\<lparr>faults := fc\<rparr>) = (fold addStaticPartition ps w)\<lparr>faults := fc\<rparr>"
proof (induction ps arbitrary: w)
  case (Cons p ps)
  have "canonicalPeer h (u\<lparr>faults := fc\<rparr>) = (fst (canonicalPeer h u), (snd (canonicalPeer h u))\<lparr>faults := fc\<rparr>)" for h u
    by (simp add: canonicalPeer_def case_prod_beta)
  then have "addStaticPartition p (w\<lparr>faults := fc\<rparr>) = (addStaticPartition p w)\<lparr>faults := fc\<rparr>"
    by (simp add: addStaticPartition_def resolvePair_def Let_def case_prod_beta)
  with Cons.IH show ?case by simp
qed simp

lemma static_faults_sel: "faults (fold addStaticPartition ps w) = faults w"
  by (induction ps arbitrary: w)
    (simp_all add: addStaticPartition_def resolvePair_def canonicalPeer_def Let_def case_prod_beta)

lemma build_faults: "faults (build now c) = faultConfig.truncate c"
  by (simp add: build_def static_faults_sel emptyWorld_def)

text \<open>A fault set by an option is the fault the setter sets.\<close>

lemma build_setter:
  assumes "emptyWorld now d = (emptyWorld now c)\<lparr>faults := fc\<rparr>" "staticPartitions d = staticPartitions c"
  shows "build now d = (build now c)\<lparr>faults := fc\<rparr>"
  using assms by (simp add: build_def static_faults)

lemma build_options:
  "build now (WithLatency x y c) = (build now c)\<lparr>faults := (faults (build now c))\<lparr>latencyEnabled := True, latencyMin := x, latencyMax := y\<rparr>\<rparr>"
  "build now (WithPacketLoss r c) = (build now c)\<lparr>faults := (faults (build now c))\<lparr>lossEnabled := True, lossRate := r\<rparr>\<rparr>"
  "build now (WithDuplication r c) = (build now c)\<lparr>faults := (faults (build now c))\<lparr>duplicateEnabled := True, duplicateRate := r\<rparr>\<rparr>"
  "build now (WithCorruption r c) = (build now c)\<lparr>faults := (faults (build now c))\<lparr>corruptEnabled := True, corruptRate := r\<rparr>\<rparr>"
  by (rule build_setter; simp add: emptyWorld_def build_faults faultConfig.truncate_def
      WithLatency_def WithPacketLoss_def WithDuplication_def WithCorruption_def)+

lemma build_partition: "build now (WithPartition x y c) = addStaticPartition \<lparr>peerA = x, peerB = y\<rparr> (build now c)"
  by (simp add: build_def WithPartition_def emptyWorld_def faultConfig.truncate_def)

lemma option_ok:
  assumes "config_ok c"
  shows "config_ok (WithLatency x y c) \<longleftrightarrow> 0 \<le> x \<and> x \<le> y" "config_ok (WithPacketLoss r c) \<longleftrightarrow> rate_ok r"
    "config_ok (WithDuplication r c) \<longleftrightarrow> rate_ok r" "config_ok (WithCorruption r c) \<longleftrightarrow> rate_ok r"
    "config_ok (WithPartition a b c) \<longleftrightarrow> validatePartitionPair ''WithPartition'' \<lparr>peerA = a, peerB = b\<rparr> = None"
  using assms by (auto simp: config_ok_def faults_ok_def WithLatency_def WithPacketLoss_def WithDuplication_def
      WithCorruption_def WithPartition_def)

lemma set_faults_Inr: "set_faults f w = Inr v \<longleftrightarrow> (\<exists>fc. f (faults w) = Inr fc \<and> v = w\<lparr>faults := fc\<rparr>)"
  by (auto simp: set_faults_def split: sum.splits)

text \<open>
  The options of the package, by kind. Nine kinds set what an earlier option of the kind set;
  \<open>WithPartition\<close> adds a pair.
\<close>

inductive same_kind :: "netOption \<Rightarrow> netOption \<Rightarrow> bool" where
  "same_kind (WithSeed n) (WithSeed n')"
| "same_kind (WithTrace t) (WithTrace t')"
| "same_kind (WithLatency x y) (WithLatency x' y')"
| "same_kind (WithPacketLoss r) (WithPacketLoss r')"
| "same_kind (WithBandwidth n) (WithBandwidth n')"
| "same_kind (WithDuplication r) (WithDuplication r')"
| "same_kind (WithCorruption r) (WithCorruption r')"
| "same_kind (WithPipeBound n) (WithPipeBound n')"
| "same_kind (WithListenerBacklog n) (WithListenerBacklog n')"

definition package_option :: "netOption \<Rightarrow> bool" where
  "package_option g \<longleftrightarrow> same_kind g g \<or> (\<exists>x y. g = WithPartition x y)"

lemmas option_defs = WithSeed_def WithTrace_def WithLatency_def WithPacketLoss_def WithBandwidth_def WithDuplication_def
  WithCorruption_def WithPipeBound_def WithListenerBacklog_def WithPartition_def

lemma same_kind_overrides: "same_kind f' f \<Longrightarrow> f (f' c) = f c"
  by (induction rule: same_kind.induct) (simp_all add: option_defs)

lemma package_option_cases [consumes 1, case_names seed trace latency loss bandwidth duplication corruption bound backlog partition]:
  assumes "package_option g"
  obtains n where "g = WithSeed n" | t where "g = WithTrace t" | x y where "g = WithLatency x y" | r where "g = WithPacketLoss r"
    | n where "g = WithBandwidth n" | r where "g = WithDuplication r" | r where "g = WithCorruption r"
    | n where "g = WithPipeBound n" | n where "g = WithListenerBacklog n" | x y where "g = WithPartition x y"
  using assms unfolding package_option_def by (auto elim: same_kind.cases)

text \<open>An option either is overridden by \<open>f\<close> or can change places with it.\<close>

lemma option_past:
  assumes "same_kind f' f" "package_option g"
  shows "(\<forall>c. f (g c) = f c) \<or> (\<forall>c. f (g c) = g (f c))"
  using assms(1)
  by (cases rule: same_kind.cases) (insert assms(2), (erule package_option_cases; simp add: option_defs)+)

lemma options_past:
  assumes "same_kind f' f" "list_all package_option gs" "f c = f d"
  shows "f (fold (\<lambda>g. g) gs c) = f (fold (\<lambda>g. g) gs d)"
  using assms(2,3)
proof (induction gs arbitrary: c d)
  case (Cons g gs)
  then have "f (g c) = f (g d)" using option_past [OF assms(1), of g] by auto
  from Cons.IH [OF _ this] Cons.prems(1) show ?case by simp
qed simp

lemma applyOptions_Some: "applyOptions i (map Some gs) c = Inr (fold (\<lambda>g. g) gs c)"
  by (induction gs arbitrary: i c) simp_all

lemma applyOptions_index: "None \<notin> set bs \<Longrightarrow> applyOptions i bs c = applyOptions j bs c"
  by (induction i bs c arbitrary: j rule: applyOptions.induct) auto

text \<open>An option has no effect when one of its kind comes later, whether it is valid or not.\<close>

lemma later_option:
  assumes "same_kind f' f" "list_all package_option gs" "None \<notin> set bs"
  shows "NewNetwork now (as @ Some f' # map Some gs @ Some f # bs) = NewNetwork now (as @ map Some gs @ Some f # bs)"
proof -
  have "applyOptions i (Some f' # map Some gs @ Some f # bs) c = applyOptions i (map Some gs @ Some f # bs) c" for i c
    using options_past [OF assms(1,2) same_kind_overrides [OF assms(1)], of c] applyOptions_index [OF assms(3)]
    by (simp add: applyOptions_append applyOptions_Some)
  then have "applyOptions 0 (as @ Some f' # map Some gs @ Some f # bs) initialConfig
      = applyOptions 0 (as @ map Some gs @ Some f # bs) initialConfig"
    by (simp add: applyOptions_append del: applyOptions.simps split: sum.split)
  then show ?thesis by (simp add: NewNetwork_def)
qed

text \<open>Static partitions are kept, so an invalid pair is never rescued.\<close>

lemma partitions_kept:
  "list_all package_option gs \<Longrightarrow> set (staticPartitions c) \<subseteq> set (staticPartitions (fold (\<lambda>g. g) gs c))"
proof (induction gs arbitrary: c)
  case (Cons g gs)
  then have "package_option g" by simp
  then have "set (staticPartitions c) \<subseteq> set (staticPartitions (g c))"
    by (cases rule: package_option_cases) (auto simp: option_defs)
  with Cons show ?case by fastforce
qed simp

lemma bad_partition:
  assumes "applyOptions 0 opts initialConfig = Inr c" "list_all package_option gs"
    and "validatePartitionPair ''WithPartition'' \<lparr>peerA = a, peerB = b\<rparr> \<noteq> None"
  shows "\<exists>p. NewNetwork now (opts @ Some (WithPartition a b) # map Some gs) = Inl p"
proof -
  let ?d = "fold (\<lambda>g. g) gs (WithPartition a b c)"
  have "\<lparr>peerA = a, peerB = b\<rparr> \<in> set (staticPartitions ?d)"
    using partitions_kept [OF assms(2), of "WithPartition a b c"] by (auto simp: WithPartition_def)
  with assms(3) have "\<not> config_ok ?d" by (auto simp: config_ok_def)
  moreover have "applyOptions 0 (opts @ Some (WithPartition a b) # map Some gs) initialConfig = Inr ?d"
    using assms(1) by (simp add: applyOptions_append applyOptions_Some)
  ultimately have "\<nexists>u. NewNetwork now (opts @ Some (WithPartition a b) # map Some gs) = Inr u" by (simp add: NewNetwork_Inr)
  then show ?thesis by (metis sum.exhaust)
qed

section \<open>Properties\<close>

text \<open>
  C26. Faults set when the network is made and faults set while it runs are the same. On a list of
  options \<open>NewNetwork\<close> accepts: a fault option at its end is accepted exactly when the setter of that
  fault accepts the same values on the network, and both give the same network; a static partition
  is accepted exactly when \<open>Partition\<close> is, and then partitions the same pairs and gives out the
  same names. In any list, an option other than \<open>WithPartition\<close> has no effect when one of its kind
  comes later, wherever it stands and whether it is valid or not; static partitions add up instead,
  and an invalid one panics whatever comes later. A nil option panics with its index, and the
  settings of the network are in range.
\<close>

theorem options_and_setters:
  assumes "NewNetwork now opts = Inr w"
  shows "(NewNetwork now (opts @ [Some (WithLatency x y)]) = Inr v \<longleftrightarrow> SetLatency x y w = Inr v)
    \<and> (NewNetwork now (opts @ [Some (WithPacketLoss r)]) = Inr v \<longleftrightarrow> SetPacketLoss r w = Inr v)
    \<and> (NewNetwork now (opts @ [Some (WithDuplication r)]) = Inr v \<longleftrightarrow> SetDuplication r w = Inr v)
    \<and> (NewNetwork now (opts @ [Some (WithCorruption r)]) = Inr v \<longleftrightarrow> SetCorruption r w = Inr v)
    \<and> (case (NewNetwork now (opts @ [Some (WithPartition a b)]), Partition a b w) of
         (Inr u, Inr u') \<Rightarrow> partitions (parts u) = partitions (parts u') \<and> book u = book u' \<and> faults u = faults u'
       | (Inl p, Inl p') \<Rightarrow> True | _ \<Rightarrow> False)
    \<and> (\<forall>u. NewNetwork now (opts @ [Some (WithPartition a b)]) = Inr u \<longrightarrow> partitions (parts w) \<subseteq> partitions (parts u))
    \<and> (validatePartitionPair ''WithPartition'' \<lparr>peerA = a, peerB = b\<rparr> \<noteq> None \<and> list_all package_option gs
        \<longrightarrow> (\<exists>p. NewNetwork now (opts @ Some (WithPartition a b) # map Some gs) = Inl p))
    \<and> (\<forall>as f' f bs. same_kind f' f \<and> list_all package_option gs \<and> None \<notin> set bs \<longrightarrow>
         NewNetwork now (as @ Some f' # map Some gs @ Some f # bs) = NewNetwork now (as @ map Some gs @ Some f # bs))
    \<and> NewNetwork now (opts @ None # rest) = Inl (PanicNilOption ''NewNetwork'' (length opts))
    \<and> faults_ok (faults w) \<and> 0 < w_pipeBound w \<and> 0 < w_listenerBacklog w"
proof -
  from assms obtain c where c: "applyOptions 0 opts initialConfig = Inr c" "config_ok c" "w = build now c"
    by (auto simp: NewNetwork_Inr)
  note add = NewNetwork_append [OF c(1)] option_ok [OF c(2)] build_options
  note set = set_faults_Inr setters_Inr c(3)
  have "NewNetwork now (opts @ [Some (WithLatency x y)]) = Inr v \<longleftrightarrow> SetLatency x y w = Inr v"
    "NewNetwork now (opts @ [Some (WithPacketLoss r)]) = Inr v \<longleftrightarrow> SetPacketLoss r w = Inr v"
    "NewNetwork now (opts @ [Some (WithDuplication r)]) = Inr v \<longleftrightarrow> SetDuplication r w = Inr v"
    "NewNetwork now (opts @ [Some (WithCorruption r)]) = Inr v \<longleftrightarrow> SetCorruption r w = Inr v"
    by (auto simp: add set SetLatency_def SetPacketLoss_def SetDuplication_def SetCorruption_def)
  moreover have "case (NewNetwork now (opts @ [Some (WithPartition a b)]), Partition a b w) of
         (Inr u, Inr u') \<Rightarrow> partitions (parts u) = partitions (parts u') \<and> book u = book u' \<and> faults u = faults u'
       | (Inl p, Inl p') \<Rightarrow> True | _ \<Rightarrow> False"
  proof (cases "validatePartitionPair ''WithPartition'' \<lparr>peerA = a, peerB = b\<rparr> = None")
    case True
    then have "NewNetwork now (opts @ [Some (WithPartition a b)]) = Inr (addStaticPartition \<lparr>peerA = a, peerB = b\<rparr> w)"
      by (simp add: add(1,6) build_partition c(3))
    moreover from True have "validatePartitionPair ''Partition'' \<lparr>peerA = a, peerB = b\<rparr> = None" by (simp add: validate_None)
    ultimately show ?thesis
      by (auto simp: Partition_def addStaticPartition_def partition_pair_def case_prod_beta Let_def)
  next
    case False
    then have "\<nexists>u. NewNetwork now (opts @ [Some (WithPartition a b)]) = Inr u" by (simp add: add(1,6))
    then obtain p where "NewNetwork now (opts @ [Some (WithPartition a b)]) = Inl p" by (metis sum.exhaust)
    moreover from False have "validatePartitionPair ''Partition'' \<lparr>peerA = a, peerB = b\<rparr> \<noteq> None" by (simp add: validate_None)
    then have "\<exists>p'. Partition a b w = Inl p'" by (auto simp: Partition_def)
    ultimately show ?thesis by auto
  qed
  moreover have "partitions (parts w) \<subseteq> partitions (parts u)" if "NewNetwork now (opts @ [Some (WithPartition a b)]) = Inr u" for u
    using that by (auto simp: add build_partition addStaticPartition_def resolvePair_def canonicalPeer_def case_prod_beta Let_def c(3))
  moreover note bad_partition [OF c(1)] later_option
  moreover have "NewNetwork now (opts @ None # rest) = Inl (PanicNilOption ''NewNetwork'' (length opts))"
    using c(1) by (simp add: NewNetwork_def applyOptions_append)
  moreover have "net_inv True w" using NewNetwork_inv [OF assms] by (simp add: world_inv_def)
  then have "faults_ok (faults w)" "0 < w_pipeBound w" "0 < w_listenerBacklog w" by (simp_all add: net_inv_def)
  ultimately show ?thesis by (intro conjI) blast+
qed

theorem options_and_setters_witness:
  "\<exists>v. SetPacketLoss (Finite (1/2)) net0 = Inr v
     \<and> NewNetwork 0 [Some (WithPacketLoss NaN), Some (WithDuplication (Finite 0)), Some (WithPacketLoss (Finite (1/2)))]
       = NewNetwork 0 [Some (WithDuplication (Finite 0)), Some (WithPacketLoss (Finite (1/2)))]
     \<and> NewNetwork 0 [Some (WithPacketLoss (Finite (1/2)))] = Inr v"
proof -
  have "rate_ok (Finite (1/2))" unfolding rate_ok_def by (rule exI [of _ "1/2"]) simp
  then have s: "SetPacketLoss (Finite (1/2)) net0 = Inr (net0\<lparr>faults := (faults net0)\<lparr>lossEnabled := True, lossRate := Finite (1/2)\<rparr>\<rparr>)"
    by (simp add: SetPacketLoss_def set_faults_Inr setters_Inr)
  note t = options_and_setters [OF net0_new]
  have "package_option (WithDuplication (Finite 0))" by (simp add: package_option_def same_kind.intros)
  then have "NewNetwork 0 ([] @ Some (WithPacketLoss NaN) # map Some [WithDuplication (Finite 0)] @ Some (WithPacketLoss (Finite (1/2))) # [])
      = NewNetwork 0 ([] @ map Some [WithDuplication (Finite 0)] @ Some (WithPacketLoss (Finite (1/2))) # [])"
    by (intro t [where gs = "[WithDuplication (Finite 0)]", THEN conjunct2, THEN conjunct2, THEN conjunct2, THEN conjunct2, THEN conjunct2,
        THEN conjunct2, THEN conjunct2, THEN conjunct1, THEN spec, THEN spec, THEN spec, THEN spec, THEN mp]) (simp add: same_kind.intros)
  moreover have "NewNetwork 0 [Some (WithPacketLoss (Finite (1/2)))] = Inr (net0\<lparr>faults := (faults net0)\<lparr>lossEnabled := True, lossRate := Finite (1/2)\<rparr>\<rparr>)"
    using options_and_setters [OF net0_new, where r = "Finite (1/2)", THEN conjunct2, THEN conjunct1] s by simp
  ultimately show ?thesis using s by simp
qed

end
