(* ===== verification/Spec2Isabelle.thy ===== *)
theory Spec2Isabelle
  imports Endpoint Service Listening Reproduce Settings
begin

text \<open>
  A verification development for netchaos, a Go library that gives a test \<open>net.Conn\<close> and
  \<open>net.Listener\<close> values over a simulated network with deterministic faults: latency, loss,
  bandwidth, duplication, corruption, partitions and resets.

  \<^bold>\<open>The program.\<close> A \<open>Network\<close> (\<open>netchaos.go\<close>) holds the listeners by peer and port, the address
  book, the partition table, the fault settings, the reset registry and the trace handles.
  \<open>Listen\<close> registers a listener, \<open>DialContext\<close> resolves the target, waits at the partition
  gate, looks the listener up, claims a slot of its accept queue, takes an ordinal, and wires a
  pair of connections over two crossed pipes. A pipe is one direction: a bounded queue, a latency
  line with its timer, a recorder, and the one evaluator of \<open>faults.go\<close> that decides what
  happens to a unit with random streams derived from the seed, the ordinal, the side and the
  fault.

  \<^bold>\<open>The model.\<close> The theories follow the files of the source, from the bottom:
  \<^item> \<open>Prelude\<close>: names for the Go types, saturating times, \<open>float64\<close> rates, runs of labelled steps,
    and the interfaces: a channel that is closed and replaced (\<open>gen_channel\<close>), a condition a
    waiter on it watches (\<open>wait_channel\<close>), first-in-first-out systems, refinement along runs,
    invariants of step systems.
  \<^item> \<open>Crypto\<close>, \<open>GoNet\<close>: what the code uses of the standard library: SHA-256 and ChaCha8, and the
    parsers and printers of \<open>net/netip\<close>, \<open>net\<close> and \<open>strconv\<close>.
  \<^item> \<open>Rand\<close> (\<open>rand.go\<close>), \<open>Bandwidth\<close> (\<open>bandwidth.go\<close>), \<open>Addr\<close> (\<open>addr.go\<close>), \<open>Errors\<close> (\<open>errors.go\<close>, the
    \<open>*_errno*.go\<close> files, the \<open>opError\<close> methods), \<open>Faults\<close> (\<open>options.go\<close> and every option, check
    and setter of the configuration), \<open>Partition\<close> (\<open>partition.go\<close>), \<open>Deadline\<close> (\<open>deadline.go\<close>),
    \<open>Listener\<close> (\<open>listener.go\<close>), \<open>Addressing\<close> (\<open>addressing.go\<close>).
  \<^item> \<open>Pipe\<close> (\<open>pipe.go\<close>, \<open>latency.go\<close>, the recorder of \<open>trace.go\<close>) and \<open>Delivery\<close> (\<open>faults.go\<close>, the
    write): one direction. Each operation under the pipe's mutex is one function.
  \<^item> \<open>Conn\<close> (\<open>conn.go\<close>, \<open>reset.go\<close>): connections and pipes in a store, by number, so that the two
    ends share their pipes; \<open>Read\<close> and \<open>Write\<close> are machines whose steps are the critical sections
    of their loops, \<open>Returned\<close> and the \<open>select\<close> (\<open>AtWait\<close>) among their places.
  \<^item> \<open>Network\<close> (\<open>netchaos.go\<close> and the methods of a network in \<open>partition.go\<close>, \<open>reset.go\<close>, \<open>trace.go\<close>,
    \<open>listener.go\<close>): a world, which is a store with the network's own fields, and one definition
    per call and per phase of a dial. \<open>Trace\<close> (\<open>trace.go\<close>): \<open>Network.Trace\<close>.
  \<^item> \<open>Threads\<close>: calls as lists of the critical sections they still have to take, interleaved in any
    order with each other, the clock and the callbacks of timers. \<open>listener.Close\<close> is three of them
    (the flag, the registration, the drain), since \<open>Accept\<close>, \<open>Listen\<close> and the lookup of a dial do
    not take the listener's mutex and can come between.

  Structs are records, tagged choices are datatypes, \<open>uint64\<close> and byte values are words, \<open>int\<close> and
  durations are integers with Go's wrap-around or saturation written out. A Go channel that is
  closed and replaced is a generation number: whoever holds an older number sees it closed. The
  instant is an argument (\<open>env_now\<close>, the \<open>clock\<close> of a world). A panic, an error and an early
  return are values of a sum or an option; \<open>None\<close> is also the draw that never ends on a source
  stuck on rejected values. Whether the build is for plan9 is a Boolean argument. A map that is
  iterated (\<open>n.listeners[peer]\<close>) is an association list; the loop over it asks for a sole match.

  \<^bold>\<open>What is shown.\<close>
  \<^item> \<open>Flow\<close> proves what every run of the operations of a direction keeps, \<open>Direction\<close> states it:
    order and completeness of the data, the trace as an exact account of it, the draws as a machine
    that sees nothing but the accepted writes (so runs repeat from their seed), the independence
    of the fault kinds, wakeups that are never missed, an end of the stream that is final and that
    only a partition holds back, draining after a close, back-pressure, the latency timer, the
    throttled link, and that write attempts return.
  \<^item> \<open>Rand\<close>, \<open>Bandwidth\<close>, \<open>Addr\<close>, \<open>GoNet\<close>, \<open>Addressing\<close>, \<open>Deadline\<close> and \<open>Listener\<close> prove their components'
    contracts: exact probabilities and unbiased bounded draws, an injective key derivation, the
    exact serialization delay, addresses that survive printing and parsing, unique and stable
    synthetic addresses, announced deadlines, a backlog that is never exceeded.
  \<^item> \<open>Endpoint\<close> states what one end shows: the order of errors, when the end of the stream and a
    broken pipe appear, what a close keeps, what a reset hits.
  \<^item> \<open>NetworkInv\<close> proves that every call keeps the invariant of the network (\<open>world_inv\<close>), taking each
    call as one step (\<open>world_step\<close>); \<open>Service\<close> states what it implies and what \<open>Listen\<close>, a dial and
    the gate do on every branch.
  \<^item> \<open>ThreadsInv\<close> proves the weaker invariant that holds between critical sections (\<open>live_inv\<close>, and for
    every action \<open>act_sound\<close>); \<open>Concurrent\<close> states what it implies: errors are reported only for
    their true reason, nothing waits but what should, and sections that nothing interferes with
    add up to the one-step operations. \<open>Simulation\<close> shows that in a network of interleaved calls each
    direction goes through a run of \<open>Flow\<close>, in the order of time and of the settings, so that what
    \<open>Direction\<close> states holds of it; \<open>Streams\<close>, that no two directions ever share a stream or an
    identity in the trace.
  \<^item> Four theories rest on these. \<open>Reproduce\<close>: the public trace of a network of interleaved calls
    depends on its seed and on the writes the directions accepted, not on the schedule. \<open>Accepting\<close>:
    the acceptor end of a dial is queued, accepted or closed, and is never lost, given out twice or
    given to another listener. \<open>Listening\<close>: open listeners stay registered, each under an address of
    its own, also while others are being closed. \<open>Settings\<close>: an option and the setter of the same fault
    do the same, and the last option of a kind counts. \<open>Examples\<close> and the ends of the theories hold
    the concrete networks and runs of the witnesses.

  \<^bold>\<open>Bounds and fuel.\<close> A \<open>Read\<close> or \<open>Write\<close> that nothing interferes with returns or comes to its \<open>select\<close>
  within seven sections, the number \<open>conn_Read\<close> and \<open>conn_Write\<close> run; a waiting one is a place of
  the machine, not a lack of fuel. The search of \<open>Listen\<close> for a port runs \<open>listen_attempts\<close> times,
  which is the bound in the source and one full round of the ports. The searches for a synthetic
  address end by a measure. The rejection loop of a bounded draw is a partial function, and
  \<open>write_attempt_returns\<close> shows that a write returns when every stream has an accepted value ahead.
  \<open>read_all\<close> is a reader of its own, with as much fuel as there are bytes to read and one more.

  \<^bold>\<open>Where the code and its documentation part.\<close> A dial whose name has no address of the listener's
  family fails after it claimed a slot and an ordinal and gives neither back
  (\<open>dial_failures\<close>, \<open>mismatch_exhausts_backlog\<close>). The site of a corruption is drawn only for a unit
  that is not dropped, so loss shifts later corruption draws (\<open>corruption_depends_on_loss\<close>).
  \<open>NewNetwork\<close> promises that a later option overrides an earlier one of its kind, and static partitions
  add up (\<open>options_and_setters\<close>).

  \<^bold>\<open>Not modelled.\<close> \<open>doc.go\<close> is documentation. \<open>internal/conformance\<close> and the tests compare netchaos
  with the operating system's network. The message texts of the sentinel errors, \<open>Error()\<close> of
  \<open>net.OpError\<close>, and the text of panics are not modelled, only their values. The Go scheduler,
  mutexes and the memory model appear as any interleaving of critical sections; a second \<open>Close\<close> of
  a connection, which \<open>sync.Once\<close> makes wait for the first, returns at once. Contexts are the error
  they end with and the peer name they carry. The evaluator reads the partition table, the settings
  and the clock in one instant, where the code takes their locks one after the other while it
  holds the pipe's.
\<close>

end
